(* ===== verification/Iwn_Prelude.thy ===== *)
theory Iwn_Prelude
  imports Main "HOL-Library.Monad_Syntax" "HOL-Library.Word"
begin

text \<open>
  The shared base of the development: how C data is read in HOL, and the generic facts the
  component theories use.

  A C function that accesses memory returns an \<open>option\<close>. \<open>None\<close> stands for an access outside
  the object the pointer belongs to, which C leaves undefined; \<open>Some\<close> carries the result the
  program computes. Functions are composed with the \<open>do\<close> notation of the option monad, so an
  out-of-range access anywhere makes the whole call \<open>None\<close>. That an operation is memory safe
  is therefore a theorem that its result is not \<open>None\<close>. Error codes the program itself returns
  (\<open>iwrc\<close>, \<open>-1\<close>, a null pointer) are ordinary values inside \<open>Some\<close>.

  Buffers are lists of \<open>char\<close>; a pointer into a buffer is its offset.
\<close>

section \<open>Characters and machine integers\<close>

text \<open>
  \<open>char\<close> is signed on the platforms the library builds for: \<open>cval\<close> is the value a C expression
  reads from a \<open>char\<close>. Narrowing conversions keep the low bits in two's complement.
\<close>

type_synonym byte = "8 word"

definition cval :: "char \<Rightarrow> int" where
  "cval c = (if (of_char c :: int) < 128 then of_char c else of_char c - 256)"

definition char_of_int :: "int \<Rightarrow> char" where
  "char_of_int i = char_of (nat (i mod 256))"

definition s16 :: "int \<Rightarrow> int" where
  "s16 i = signed_take_bit 15 i"

definition s32 :: "int \<Rightarrow> int" where
  "s32 i = signed_take_bit 31 i"

definition s64 :: "int \<Rightarrow> int" where
  "s64 i = signed_take_bit 63 i"

abbreviation NUL :: char where
  "NUL \<equiv> CHR 0x00"

abbreviation CR :: char where
  "CR \<equiv> CHR 0x0D"

abbreviation LF :: char where
  "LF \<equiv> CHR 0x0A"

abbreviation TAB :: char where
  "TAB \<equiv> CHR 0x09"

abbreviation BSLASH :: char where
  "BSLASH \<equiv> CHR 0x5C"

abbreviation DQUOTE :: char where
  "DQUOTE \<equiv> CHR 0x22"

abbreviation CRLF :: string where
  "CRLF \<equiv> [CR, LF]"

text \<open>The C library's \<open>tolower\<close> in the C locale.\<close>

definition c_tolower :: "char \<Rightarrow> char" where
  "c_tolower c = (if 65 \<le> cval c \<and> cval c \<le> 90 then char_of_int (cval c + 32) else c)"

section \<open>Checked memory\<close>

definition rd :: "'a list \<Rightarrow> nat \<Rightarrow> 'a option" where
  "rd xs i = (if i < length xs then Some (xs ! i) else None)"

definition wr :: "'a list \<Rightarrow> nat \<Rightarrow> 'a \<Rightarrow> 'a list option" where
  "wr xs i v = (if i < length xs then Some (xs[i := v]) else None)"

text \<open>The same with a signed index, which may have become negative.\<close>

definition rdi :: "'a list \<Rightarrow> int \<Rightarrow> 'a option" where
  "rdi xs i = (if 0 \<le> i then rd xs (nat i) else None)"

definition wri :: "'a list \<Rightarrow> int \<Rightarrow> 'a \<Rightarrow> 'a list option" where
  "wri xs i v = (if 0 \<le> i then wr xs (nat i) v else None)"

text \<open>The bytes \<open>[off, off + len)\<close> of a buffer, as \<open>memcpy\<close> or \<open>strndup\<close> reads them.\<close>

definition rd_block :: "'a list \<Rightarrow> nat \<Rightarrow> nat \<Rightarrow> 'a list option" where
  "rd_block xs off len = (if off + len \<le> length xs then Some (take len (drop off xs)) else None)"

text \<open>
  The string at offset \<open>off\<close>: the bytes before the first \<open>NUL\<close>. A buffer without a terminator
  from there on makes \<open>strlen\<close> and its relatives read past its end.
\<close>

definition c_str :: "string \<Rightarrow> nat \<Rightarrow> string option" where
  "c_str buf off =
     (if NUL \<in> set (drop off buf) then Some (takeWhile (\<lambda>c. c \<noteq> NUL) (drop off buf)) else None)"

definition c_strlen :: "string \<Rightarrow> nat \<Rightarrow> nat option" where
  "c_strlen buf off = map_option length (c_str buf off)"

text \<open>Equality as \<open>strcasecmp\<close> decides it on whole strings.\<close>

definition strcaseeq :: "string \<Rightarrow> string \<Rightarrow> bool" where
  "strcaseeq a b \<longleftrightarrow> map c_tolower a = map c_tolower b"

text \<open>
  Equality as \<open>strncmp (a, b, n) == 0\<close> decides it on the buffers from \<open>a\<close> and \<open>b\<close> on: both are read
  until they differ, end or \<open>n\<close> bytes are compared.
\<close>

fun strncmp_eq :: "string \<Rightarrow> string \<Rightarrow> nat \<Rightarrow> bool option" where
  "strncmp_eq a b 0 = Some True"
| "strncmp_eq (x # a) (y # b) (Suc n) =
     (if x \<noteq> y then Some False else if x = NUL then Some True else strncmp_eq a b n)"
| "strncmp_eq a b (Suc n) = None"

text \<open>The same for \<open>strncasecmp\<close>.\<close>

fun strncasecmp_eq :: "string \<Rightarrow> string \<Rightarrow> nat \<Rightarrow> bool option" where
  "strncasecmp_eq a b 0 = Some True"
| "strncasecmp_eq (x # a) (y # b) (Suc n) =
     (if c_tolower x \<noteq> c_tolower y then Some False else if x = NUL then Some True else strncasecmp_eq a b n)"
| "strncasecmp_eq a b (Suc n) = None"

section \<open>Big-endian bytes\<close>

fun be_bytes :: "nat \<Rightarrow> nat \<Rightarrow> byte list" where
  "be_bytes 0 n = []"
| "be_bytes (Suc k) n = be_bytes k (n div 256) @ [of_nat n]"

definition be_val :: "byte list \<Rightarrow> nat" where
  "be_val bs = foldl (\<lambda>v b. v * 256 + unat b) 0 bs"

section \<open>Error codes\<close>

text \<open>The values of \<open>iwrc\<close> the modelled functions return.\<close>

datatype iwrc =
  RC_OK | IW_ERROR_ALLOC | IW_ERROR_INVALID_ARGS | IW_ERROR_INVALID_VALUE | IW_ERROR_NOT_EXISTS
| IW_ERROR_IO_ERRNO | IW_ERROR_ERRNO | IW_ERROR_FAIL | IW_ERROR_OVERFLOW | IW_ERROR_INVALID_STATE
| IW_ERROR_OUT_OF_BOUNDS | IW_ERROR_ASSERTION | IW_ERROR_UNEXPECTED_RESPONSE

section \<open>Running a list of operations\<close>

fun foldo :: "('s \<Rightarrow> 'a \<Rightarrow> 's option) \<Rightarrow> 's \<Rightarrow> 'a list \<Rightarrow> 's option" where
  "foldo f s [] = Some s"
| "foldo f s (a # as) = do { s \<leftarrow> f s a; foldo f s as }"

named_theorems c_mem \<open>facts that evaluate checked memory accesses\<close>

section \<open>Facts on characters and integers\<close>

lemma of_char_int_bounds: "0 \<le> (of_char c :: int)" "(of_char c :: int) < 256"
proof -
  have "(of_char c :: int) mod 256 = of_char c" by simp
  then show "0 \<le> (of_char c :: int)" "(of_char c :: int) < 256"
    using pos_mod_sign [of 256 "of_char c :: int"] pos_mod_bound [of 256 "of_char c :: int"] by simp_all
qed

lemma cval_bounds: "-128 \<le> cval c" "cval c \<le> 127"
  using of_char_int_bounds [of c] by (auto simp: cval_def)

lemma cval_mod_256: "cval c mod 256 = of_char c"
  using of_char_int_bounds [of c] by (auto simp: cval_def)

lemma char_of_int_cval [simp]: "char_of_int (cval c) = c"
  by (simp add: char_of_int_def cval_mod_256)

lemma cval_inject [simp]: "cval a = cval b \<longleftrightarrow> a = b"
  by (metis char_of_int_cval)

lemma of_char_nat_int: "(of_char c :: int) = int (of_char c :: nat)"
  by (metis of_nat_of_char)

lemma cval_nat: "cval c = (if (of_char c :: nat) < 128 then int (of_char c) else int (of_char c) - 256)"
  unfolding cval_def of_char_nat_int by auto

lemma cval_char_of_int: "-128 \<le> i \<Longrightarrow> i \<le> 127 \<Longrightarrow> cval (char_of_int i) = i"
proof -
  assume i: "-128 \<le> i" "i \<le> 127"
  have *: "(of_char (char_of_int i) :: int) = i mod 256"
    by (simp add: char_of_int_def of_char_nat_int nat_mod_distrib)
  show ?thesis
  proof (cases "0 \<le> i")
    case False
    then have "(i + 256) mod 256 = i + 256" using i by (intro mod_pos_pos_trivial) auto
    then have "i mod 256 = i + 256" by simp
    then show ?thesis using * i False by (simp add: cval_def)
  qed (use * i in \<open>simp add: cval_def\<close>)
qed

lemma s32_id: "- (2 ^ 31) \<le> i \<Longrightarrow> i < 2 ^ 31 \<Longrightarrow> s32 i = i"
  by (simp add: s32_def signed_take_bit_int_eq_self)

lemma s64_id: "- (2 ^ 63) \<le> i \<Longrightarrow> i < 2 ^ 63 \<Longrightarrow> s64 i = i"
  by (simp add: s64_def signed_take_bit_int_eq_self)

lemma s16_id: "- (2 ^ 15) \<le> i \<Longrightarrow> i < 2 ^ 15 \<Longrightarrow> s16 i = i"
  by (simp add: s16_def signed_take_bit_int_eq_self)

section \<open>Facts on checked memory\<close>

lemma rd_nth [c_mem]: "i < length xs \<Longrightarrow> rd xs i = Some (xs ! i)"
  by (simp add: rd_def)

lemma rd_eq_Some: "rd xs i = Some v \<longleftrightarrow> i < length xs \<and> v = xs ! i"
  by (auto simp: rd_def)

lemma rd_eq_None: "rd xs i = None \<longleftrightarrow> length xs \<le> i"
  by (auto simp: rd_def)

lemma wr_update [c_mem]: "i < length xs \<Longrightarrow> wr xs i v = Some (xs[i := v])"
  by (simp add: wr_def)

lemma wr_eq_Some: "wr xs i v = Some ys \<longleftrightarrow> i < length xs \<and> ys = xs[i := v]"
  by (auto simp: wr_def)

lemma wr_length: "wr xs i v = Some ys \<Longrightarrow> length ys = length xs"
  by (auto simp: wr_def split: if_splits)

lemma rdi_int [simp]: "rdi xs (int n) = rd xs n"
  by (simp add: rdi_def)

lemma wri_int [simp]: "wri xs (int n) v = wr xs n v"
  by (simp add: wri_def)

lemma rdi_eq_Some: "rdi xs i = Some v \<longleftrightarrow> 0 \<le> i \<and> i < int (length xs) \<and> v = xs ! nat i"
  by (auto simp: rdi_def rd_def)

lemma rd_concat_rows:
  "(\<forall>r\<in>set rows. length r = n) \<Longrightarrow> i < length rows \<Longrightarrow> j < n \<Longrightarrow>
     rd (concat rows) (i * n + j) = rd (rows ! i) j"
proof (induction rows arbitrary: i)
  case (Cons r rows)
  show ?case
  proof (cases i)
    case 0
    with Cons.prems show ?thesis by (auto simp: rd_def nth_append)
  next
    case (Suc k)
    then have "rd (concat rows) (k * n + j) = rd (rows ! k) j" using Cons by simp
    with Suc Cons.prems show ?thesis by (simp add: rd_def nth_append split: if_splits)
  qed
qed simp

lemma sum_list_const_rows: "\<forall>r\<in>set rows. length r = n \<Longrightarrow> sum_list (map length rows) = length rows * n"
  by (induction rows) auto

lemma c_str_append: "NUL \<notin> set s \<Longrightarrow> c_str (s @ NUL # t) 0 = Some s"
  by (auto simp: c_str_def takeWhile_tail)

lemma c_str_drop: "c_str buf off = c_str (drop off buf) 0"
  by (simp add: c_str_def)

lemma c_str_at: "drop off buf = s @ NUL # t \<Longrightarrow> NUL \<notin> set s \<Longrightarrow> c_str buf off = Some s"
  by (metis c_str_append c_str_drop)

lemma drop_eq_Cons: "drop n xs = y # ys \<Longrightarrow> n < length xs \<and> xs ! n = y \<and> drop (Suc n) xs = ys"
  by (metis Cons_nth_drop_Suc drop_eq_Nil list.distinct(1) list.inject not_le)

lemma take_Suc_update: "n < length xs \<Longrightarrow> take (Suc n) (xs[n := x]) = take n xs @ [x]"
  by (simp add: take_Suc_conv_app_nth)

lemma nth_drop_split: "drop n xs = a @ y # b \<Longrightarrow> n + length a < length xs \<and> xs ! (n + length a) = y"
proof -
  assume *: "drop n xs = a @ y # b"
  then have "length (drop n xs) = length a + Suc (length b)" by simp
  then have "n + length a < length xs" by simp
  moreover have "drop n xs ! length a = y" using * by simp
  ultimately show ?thesis by simp
qed

lemma strcaseeq_refl [simp]: "strcaseeq s s"
  by (simp add: strcaseeq_def)

lemma strcaseeq_sym: "strcaseeq a b \<Longrightarrow> strcaseeq b a"
  by (simp add: strcaseeq_def)

lemma strcaseeq_trans: "strcaseeq a b \<Longrightarrow> strcaseeq b c \<Longrightarrow> strcaseeq a c"
  by (simp add: strcaseeq_def)

lemma foldo_append: "foldo f s (as @ bs) = do { s \<leftarrow> foldo f s as; foldo f s bs }"
  by (induction as arbitrary: s) (auto split: bind_splits)

lemma strncmp_eq_same:
  "length k = length w \<Longrightarrow> NUL \<notin> set k \<Longrightarrow> strncmp_eq (k @ r) (w @ t) (length w) = Some (k = w)"
proof (induction k arbitrary: w)
  case (Cons x k)
  then show ?case by (cases w) auto
qed simp

lemma strncmp_eq_None: "strncmp_eq a b n = None \<Longrightarrow> length a < n \<or> length b < n"
  by (induction a b n rule: strncmp_eq.induct) (auto split: if_splits)

lemma length_be_bytes [simp]: "length (be_bytes k n) = k"
  by (induction k arbitrary: n) auto

lemma be_val_snoc: "be_val (bs @ [b]) = be_val bs * 256 + unat b"
  by (simp add: be_val_def)

lemma be_val_be_bytes: "n < 256 ^ k \<Longrightarrow> be_val (be_bytes k n) = n"
proof (induction k arbitrary: n)
  case (Suc k)
  then have "n div 256 < 256 ^ k" by (simp add: less_mult_imp_div_less mult.commute)
  then have "be_val (be_bytes (Suc k) n) = n div 256 * 256 + unat (of_nat n :: byte)"
    using Suc.IH by (simp add: be_val_snoc)
  also have "unat (of_nat n :: byte) = n mod 256" by (simp add: unat_of_nat)
  finally show ?case by simp
qed (simp add: be_val_def)

lemma be_bytes_add: "be_bytes (a + b) n = be_bytes a (n div 256 ^ b) @ be_bytes b n"
  by (induction b arbitrary: n) (simp_all add: div_mult2_eq)

end
