(* ===== verification/Codec.thy ===== *)
theory Codec
  imports Iwn_Prelude
begin

text \<open>
  \<open>src/utils/iwn_codec.c\<close>: percent-encoding and decoding of URLs and the removal of backslash
  escapes. The encoders write into a caller's buffer of \<open>out_size\<close> bytes, the decoders work in
  place on one buffer with a read and a write position. Each is related to a reference function
  on strings: \<open>url_enc\<close>, \<open>url_enc_aws\<close>, \<open>url_dec\<close> and \<open>unesc\<close>.
\<close>

section \<open>The program\<close>

definition is_unreserved :: "char \<Rightarrow> bool" where
  "is_unreserved c \<longleftrightarrow>
     (cval c \<ge> cval CHR ''0'' \<and> cval c \<le> cval CHR ''9'')
     \<or> (cval c \<ge> cval CHR ''a'' \<and> cval c \<le> cval CHR ''z'')
     \<or> (cval c \<ge> cval CHR ''A'' \<and> cval c \<le> cval CHR ''Z'')
     \<or> c = CHR ''-'' \<or> c = CHR ''.'' \<or> c = CHR ''_'' \<or> c = CHR ''~''"

text \<open>
  The bytes a \<open>(src, src_len)\<close> argument denotes: a negative length means a terminated string.
\<close>

definition src_arg :: "string \<Rightarrow> int \<Rightarrow> string option" where
  "src_arg src src_len = (if src_len < 0 then c_str src 0 else rd_block src 0 (nat src_len))"

text \<open>
  The loops count with \<open>int i\<close> up to a length of type \<open>ssize_t\<close>: \<open>++i\<close> on the largest \<open>int\<close> is
  undefined. The list is the rest of the source from index \<open>i\<close>. Sizes are natural numbers: the index
  bounds them by five times \<open>2 ^ 31\<close>, far below the range of \<open>size_t\<close>.
\<close>

definition int_next :: "int \<Rightarrow> int option" where
  "int_next i = (if i < 2 ^ 31 - 1 then Some (i + 1) else None)"

fun url_encoded_len_loop :: "string \<Rightarrow> int \<Rightarrow> nat \<Rightarrow> nat option" where
  "url_encoded_len_loop [] i res = Some res"
| "url_encoded_len_loop (c # cs) i res = do {
     let res = (if is_unreserved c then res + 1 else res + 3);
     i \<leftarrow> int_next i;
     url_encoded_len_loop cs i res
   }"

definition iwn_url_encoded_len :: "string \<Rightarrow> int \<Rightarrow> nat option" where
  "iwn_url_encoded_len src src_len = do {
     s \<leftarrow> src_arg src src_len;
     url_encoded_len_loop s 0 0
   }"

fun url_encoded_aws_len_loop :: "string \<Rightarrow> int \<Rightarrow> nat \<Rightarrow> nat option" where
  "url_encoded_aws_len_loop [] i res = Some res"
| "url_encoded_aws_len_loop (c # cs) i res = do {
     let res = (if is_unreserved c then res + 1 else if c = CHR ''='' then res + 5 else res + 3);
     i \<leftarrow> int_next i;
     url_encoded_aws_len_loop cs i res
   }"

definition iwn_url_encoded_aws_len :: "string \<Rightarrow> int \<Rightarrow> nat option" where
  "iwn_url_encoded_aws_len src src_len = do {
     s \<leftarrow> src_arg src src_len;
     url_encoded_aws_len_loop s 0 0
   }"

text \<open>\<open>hex[(c >> 4) & 0x0F]\<close> and \<open>hex[c & 0x0F]\<close>; the shift of a signed value is arithmetic.\<close>

definition hex_digits :: string where
  "hex_digits = ''0123456789ABCDEF''"

definition hex_hi :: "char \<Rightarrow> char" where
  "hex_hi c = hex_digits ! nat ((cval c div 16) mod 16)"

definition hex_lo :: "char \<Rightarrow> char" where
  "hex_lo c = hex_digits ! nat (cval c mod 16)"

fun url_encode_loop :: "string \<Rightarrow> int \<Rightarrow> nat \<Rightarrow> nat \<Rightarrow> string \<Rightarrow> (nat \<times> string) option" where
  "url_encode_loop [] i out_size n out = Some (n, out)"
| "url_encode_loop (c # cs) i out_size n out =
     (if n \<ge> out_size then Some (n, out)
      else if is_unreserved c then do {
        out \<leftarrow> wr out n c;
        i \<leftarrow> int_next i;
        url_encode_loop cs i out_size (n + 1) out
      } else if n + 2 \<ge> out_size then Some (n, out)
      else do {
        out \<leftarrow> wr out n (CHR ''%'');
        out \<leftarrow> wr out (n + 1) (hex_hi c);
        out \<leftarrow> wr out (n + 2) (hex_lo c);
        i \<leftarrow> int_next i;
        url_encode_loop cs i out_size (n + 3) out
      })"

text \<open>The terminator the encoders store after the loop.\<close>

definition url_encode_finish :: "nat \<Rightarrow> nat \<Rightarrow> string \<Rightarrow> string option" where
  "url_encode_finish out_size n out =
     (if n < out_size then wr out n NUL
      else if out_size > 0 then wr out (out_size - 1) NUL
      else Some out)"

definition iwn_url_encode :: "string \<Rightarrow> int \<Rightarrow> string \<Rightarrow> nat \<Rightarrow> (nat \<times> string) option" where
  "iwn_url_encode src src_len out out_size = do {
     s \<leftarrow> src_arg src src_len;
     (n, out) \<leftarrow> url_encode_loop s 0 out_size 0 out;
     out \<leftarrow> url_encode_finish out_size n out;
     Some (n, out)
   }"

fun url_encode_aws_loop :: "string \<Rightarrow> int \<Rightarrow> nat \<Rightarrow> nat \<Rightarrow> string \<Rightarrow> (nat \<times> string) option" where
  "url_encode_aws_loop [] i out_size n out = Some (n, out)"
| "url_encode_aws_loop (c # cs) i out_size n out =
     (if n \<ge> out_size then Some (n, out)
      else if is_unreserved c then do {
        out \<leftarrow> wr out n c;
        i \<leftarrow> int_next i;
        url_encode_aws_loop cs i out_size (n + 1) out
      } else if c = CHR ''='' then
        (if n + 4 \<ge> out_size then Some (n, out)
         else do {
           out \<leftarrow> wr out n (CHR ''%'');
           out \<leftarrow> wr out (n + 1) (CHR ''2'');
           out \<leftarrow> wr out (n + 2) (CHR ''5'');
           out \<leftarrow> wr out (n + 3) (CHR ''3'');
           out \<leftarrow> wr out (n + 4) (CHR ''D'');
           i \<leftarrow> int_next i;
           url_encode_aws_loop cs i out_size (n + 5) out
         })
      else if n + 2 \<ge> out_size then Some (n, out)
      else do {
        out \<leftarrow> wr out n (CHR ''%'');
        out \<leftarrow> wr out (n + 1) (hex_hi c);
        out \<leftarrow> wr out (n + 2) (hex_lo c);
        i \<leftarrow> int_next i;
        url_encode_aws_loop cs i out_size (n + 3) out
      })"

definition iwn_url_encode_aws :: "string \<Rightarrow> int \<Rightarrow> string \<Rightarrow> nat \<Rightarrow> (nat \<times> string) option" where
  "iwn_url_encode_aws src src_len out out_size = do {
     s \<leftarrow> src_arg src src_len;
     (n, out) \<leftarrow> url_encode_aws_loop s 0 out_size 0 out;
     out \<leftarrow> url_encode_finish out_size n out;
     Some (n, out)
   }"

text \<open>
  \<open>malloc n\<close> is a fresh buffer of \<open>n\<close> unspecified bytes or a null pointer; the inner \<open>option\<close>
  of the result is the returned pointer.
\<close>

type_synonym allocator = "nat \<Rightarrow> string option"

definition malloc_ok :: "allocator \<Rightarrow> bool" where
  "malloc_ok malloc \<longleftrightarrow> (\<forall>n b. malloc n = Some b \<longrightarrow> length b = n)"

definition iwn_url_encode_new :: "allocator \<Rightarrow> string \<Rightarrow> int \<Rightarrow> string option option" where
  "iwn_url_encode_new malloc src src_len = do {
     src_len \<leftarrow> (if src_len < 0 then map_option int (c_strlen src 0) else Some src_len);
     len \<leftarrow> iwn_url_encoded_len src src_len;
     case malloc (len + 1) of
       None \<Rightarrow> Some None
     | Some ret \<Rightarrow> do {
         (n, ret) \<leftarrow> iwn_url_encode src src_len ret (len + 1);
         Some (Some ret)
       }
   }"

text \<open>
  \<open>formatted\<close> is what \<open>vsnprintf\<close> makes of \<open>fmt\<close> and its arguments (\<open>None\<close>: it returned a
  negative size). It is written to the scratch buffer \<open>wp\<close>; the call that follows encodes
  \<open>fmt\<close>, with the length of the formatted text.
\<close>

definition iwn_url_encode_printf_va ::
  "allocator \<Rightarrow> string \<Rightarrow> string option \<Rightarrow> string option option" where
  "iwn_url_encode_printf_va malloc fmt formatted =
     (case formatted of
        None \<Rightarrow> Some None
      | Some text \<Rightarrow>
          (let size = length text in
           if size \<ge> 1024 \<and> malloc (size + 1) = None then Some None
           else iwn_url_encode_new malloc fmt (int size)))"

text \<open>\<open>strtol(s, 0, 16)\<close> on a terminated string.\<close>

definition c_isspace :: "char \<Rightarrow> bool" where
  "c_isspace c \<longleftrightarrow> c = CHR '' '' \<or> (9 \<le> cval c \<and> cval c \<le> 13)"

definition hex_value :: "char \<Rightarrow> int option" where
  "hex_value c =
     (if cval CHR ''0'' \<le> cval c \<and> cval c \<le> cval CHR ''9'' then Some (cval c - 48)
      else if cval CHR ''a'' \<le> cval c \<and> cval c \<le> cval CHR ''f'' then Some (cval c - 87)
      else if cval CHR ''A'' \<le> cval c \<and> cval c \<le> cval CHR ''F'' then Some (cval c - 55)
      else None)"

fun strtol16_digits :: "string \<Rightarrow> int \<Rightarrow> int" where
  "strtol16_digits [] acc = acc"
| "strtol16_digits (c # cs) acc =
     (case hex_value c of None \<Rightarrow> acc | Some d \<Rightarrow> strtol16_digits cs (acc * 16 + d))"

definition strtol16_prefix :: "string \<Rightarrow> string" where
  "strtol16_prefix s =
     (case s of
        z # x # d # r \<Rightarrow>
          if z = CHR ''0'' \<and> (x = CHR ''x'' \<or> x = CHR ''X'') \<and> hex_value d \<noteq> None then d # r else s
      | _ \<Rightarrow> s)"

definition strtol16 :: "string \<Rightarrow> int" where
  "strtol16 s =
     (case dropWhile c_isspace s of
        [] \<Rightarrow> 0
      | c # r \<Rightarrow>
          if c = CHR ''-'' then - strtol16_digits (strtol16_prefix r) 0
          else if c = CHR ''+'' then strtol16_digits (strtol16_prefix r) 0
          else strtol16_digits (strtol16_prefix (c # r)) 0)"

text \<open>The byte stored for \<open>%ab\<close>: \<open>tmp\<close> holds the two bytes and a terminator.\<close>

definition pct_byte :: "char \<Rightarrow> char \<Rightarrow> char" where
  "pct_byte a b = char_of_int (strtol16 (takeWhile (\<lambda>c. c \<noteq> NUL) [a, b]))"

text \<open>
  One pass of the decoding loop at read position \<open>rp\<close> and write position \<open>wp\<close>: the new buffer
  and read position.
\<close>

definition url_decode_step :: "string \<Rightarrow> nat \<Rightarrow> nat \<Rightarrow> (string \<times> nat) option" where
  "url_decode_step buf rp wp = do {
     c \<leftarrow> rd buf rp;
     if c = CHR ''%'' then do {
       a \<leftarrow> rd buf (rp + 1);
       b \<leftarrow> rd buf (rp + 2);
       buf \<leftarrow> wr buf wp (pct_byte a b);
       Some (buf, rp + 3)
     } else if c = CHR ''+'' then do {
       buf \<leftarrow> wr buf wp (CHR '' '');
       Some (buf, rp + 1)
     } else do {
       buf \<leftarrow> wr buf wp c;
       Some (buf, rp + 1)
     }
   }"

lemma url_decode_step_less:
  "url_decode_step buf rp wp = Some (buf', rp') \<Longrightarrow>
     rp < length buf \<and> rp < rp' \<and> length buf' = length buf"
  by (auto simp: url_decode_step_def bind_eq_Some_conv rd_eq_Some wr_eq_Some split: if_splits)

text \<open>
  \<open>iwn_url_decode_inplace2\<close> decodes the range up to \<open>ep\<close> and returns the distance the read
  position has covered.
\<close>

function url_decode2_loop :: "string \<Rightarrow> nat \<Rightarrow> nat \<Rightarrow> nat \<Rightarrow> (nat \<times> string) option" where
  "url_decode2_loop buf ep rp wp =
     (if rp < ep
      then (case url_decode_step buf rp wp of
              None \<Rightarrow> None
            | Some (buf', rp') \<Rightarrow> url_decode2_loop buf' ep rp' (wp + 1))
      else Some (rp, buf))"
  by pat_completeness auto
termination
  by (relation "measure (\<lambda>(buf, ep, rp, wp). length buf - rp)")
    (auto dest!: url_decode_step_less)

definition iwn_url_decode_inplace2 :: "string \<Rightarrow> nat \<Rightarrow> nat \<Rightarrow> (nat \<times> string) option" where
  "iwn_url_decode_inplace2 buf sp ep = do {
     (rp, buf) \<leftarrow> url_decode2_loop buf ep sp sp;
     Some (rp - sp, buf)
   }"

function url_decode_loop :: "string \<Rightarrow> nat \<Rightarrow> nat \<Rightarrow> string option" where
  "url_decode_loop buf rp wp =
     (case rd buf rp of
        None \<Rightarrow> None
      | Some c \<Rightarrow>
          if c = NUL then wr buf wp NUL
          else (case url_decode_step buf rp wp of
                  None \<Rightarrow> None
                | Some (buf', rp') \<Rightarrow> url_decode_loop buf' rp' (wp + 1)))"
  by pat_completeness auto
termination
  by (relation "measure (\<lambda>(buf, rp, wp). length buf - rp)")
    (auto dest!: url_decode_step_less)

text \<open>\<open>iwn_url_decode_inplace\<close> on the string that starts at \<open>str\<close> in \<open>buf\<close>.\<close>

definition iwn_url_decode_inplace :: "string \<Rightarrow> nat \<Rightarrow> string option" where
  "iwn_url_decode_inplace buf str = url_decode_loop buf str str"

text \<open>
  \<open>iwn_unescape_backslashes_inplace\<close>: \<open>lim\<close> is the offset where \<open>str_len\<close> ends; a negative
  length stands for \<open>SSIZE_MAX\<close>, so only the terminator stops the loop.
\<close>

function unescape_loop :: "string \<Rightarrow> nat option \<Rightarrow> nat \<Rightarrow> nat \<Rightarrow> (nat \<times> string) option" where
  "unescape_loop buf lim rp wp =
     (if \<not> (case lim of None \<Rightarrow> True | Some l \<Rightarrow> rp < l) then Some (wp, buf)
      else (case rd buf rp of
              None \<Rightarrow> None
            | Some c \<Rightarrow>
                if c = NUL then Some (wp, buf)
                else if c = BSLASH then
                  (if \<not> (case lim of None \<Rightarrow> True | Some l \<Rightarrow> rp + 1 < l) then Some (wp, buf)
                   else (case rd buf (rp + 1) of
                           None \<Rightarrow> None
                         | Some d \<Rightarrow>
                             if d = NUL then Some (wp, buf)
                             else (case wr buf wp d of
                                     None \<Rightarrow> None
                                   | Some buf' \<Rightarrow> unescape_loop buf' lim (rp + 2) (wp + 1))))
                else (case wr buf wp c of
                        None \<Rightarrow> None
                      | Some buf' \<Rightarrow> unescape_loop buf' lim (rp + 1) (wp + 1))))"
  by pat_completeness auto
termination
  by (relation "measure (\<lambda>(buf, lim, rp, wp). length buf - rp)")
    (auto simp: rd_eq_Some dest!: wr_length)

definition iwn_unescape_backslashes_inplace :: "string \<Rightarrow> nat \<Rightarrow> int \<Rightarrow> (nat \<times> string) option" where
  "iwn_unescape_backslashes_inplace buf str str_len = do {
     (wp, buf) \<leftarrow> unescape_loop buf (if str_len < 0 then None else Some (str + nat str_len)) str str;
     Some (wp - str, buf)
   }"

section \<open>Reference functions\<close>

definition url_enc_char :: "char \<Rightarrow> string" where
  "url_enc_char c = (if is_unreserved c then [c] else [CHR ''%'', hex_hi c, hex_lo c])"

definition url_enc :: "string \<Rightarrow> string" where
  "url_enc s = concat (map url_enc_char s)"

definition url_enc_aws_char :: "char \<Rightarrow> string" where
  "url_enc_aws_char c = (if c = CHR ''='' then ''%253D'' else url_enc_char c)"

definition url_enc_aws :: "string \<Rightarrow> string" where
  "url_enc_aws s = concat (map url_enc_aws_char s)"

fun url_dec :: "string \<Rightarrow> string" where
  "url_dec [] = []"
| "url_dec (c # cs) =
     (if c = CHR ''%'' then
        (case cs of a # b # r \<Rightarrow> pct_byte a b # url_dec r | _ \<Rightarrow> [])
      else (if c = CHR ''+'' then CHR '' '' else c) # url_dec cs)"

text \<open>Every percent sign is followed by two more bytes.\<close>

fun pct_complete :: "string \<Rightarrow> bool" where
  "pct_complete [] = True"
| "pct_complete (c # cs) =
     (if c = CHR ''%'' then (case cs of a # b # r \<Rightarrow> pct_complete r | _ \<Rightarrow> False) else pct_complete cs)"

fun unesc :: "string \<Rightarrow> string" where
  "unesc [] = []"
| "unesc (c # cs) =
     (if c = BSLASH then (case cs of [] \<Rightarrow> [] | d # r \<Rightarrow> d # unesc r) else c # unesc cs)"

text \<open>The escaping the function undoes: a backslash before every backslash and double quote.\<close>

definition esc_char :: "char \<Rightarrow> string" where
  "esc_char c = (if c = BSLASH \<or> c = DQUOTE then [BSLASH, c] else [c])"

section \<open>Encoding\<close>

lemma url_enc_simps [simp]:
  "url_enc [] = []"
  "url_enc (c # cs) = url_enc_char c @ url_enc cs"
  by (simp_all add: url_enc_def)

lemma url_enc_aws_simps [simp]:
  "url_enc_aws [] = []"
  "url_enc_aws (c # cs) = url_enc_aws_char c @ url_enc_aws cs"
  by (simp_all add: url_enc_aws_def)

lemma int_next_Some: "0 < n \<Longrightarrow> i + int n < 2 ^ 31 \<Longrightarrow> int_next i = Some (i + 1)"
  by (simp add: int_next_def)

lemma url_encoded_len_loop_eq:
  "i + int (length s) < 2 ^ 31 \<Longrightarrow> url_encoded_len_loop s i r = Some (r + length (url_enc s))"
proof (induction s arbitrary: i r)
  case (Cons c cs)
  then show ?case using int_next_Some [of "length (c # cs)" i] by (auto simp: url_enc_char_def)
qed simp

lemma not_unreserved_eq_sign: "\<not> is_unreserved CHR ''=''"
  by (simp add: is_unreserved_def cval_def)

lemma url_encoded_aws_len_loop_eq:
  "i + int (length s) < 2 ^ 31 \<Longrightarrow> url_encoded_aws_len_loop s i r = Some (r + length (url_enc_aws s))"
proof (induction s arbitrary: i r)
  case (Cons c cs)
  then show ?case
    using int_next_Some [of "length (c # cs)" i]
    by (auto simp: url_enc_aws_char_def url_enc_char_def not_unreserved_eq_sign)
qed simp

lemma url_encode_loop_fits:
  assumes "length pre + length (url_enc s) \<le> out_size"
    and "length (url_enc s) \<le> length rest" and "i + int (length s) < 2 ^ 31"
  shows "url_encode_loop s i out_size (length pre) (pre @ rest) =
     Some (length pre + length (url_enc s), pre @ url_enc s @ drop (length (url_enc s)) rest)"
  using assms
proof (induction s arbitrary: pre rest i)
  case Nil
  then show ?case by simp
next
  case (Cons c cs)
  have i: "int_next i = Some (i + 1)" using Cons.prems(3) by (simp add: int_next_def)
  show ?case
  proof (cases "is_unreserved c")
    case True
    with Cons.prems obtain x rest' where "rest = x # rest'"
      by (cases rest) (auto simp: url_enc_char_def)
    with True Cons.prems Cons.IH [of "pre @ [c]" rest' "i + 1"] i show ?thesis
      by (auto simp: url_enc_char_def c_mem)
  next
    case False
    with Cons.prems obtain x y z rest' where "rest = x # y # z # rest'"
      by (cases rest; cases "tl rest"; cases "tl (tl rest)") (auto simp: url_enc_char_def)
    with False Cons.prems Cons.IH [of "pre @ [CHR ''%'', hex_hi c, hex_lo c]" rest' "i + 1"] i show ?thesis
      by (auto simp: url_enc_char_def list_update_append nth_append numeral_eq_Suc c_mem)
  qed
qed

text \<open>Every step writes at least one byte: the index overflows only when source and output are both long.\<close>

lemma url_encode_loop_bounds:
  assumes "out_size \<le> length out" and "n \<le> out_size" and "i + int (length s) < 2 ^ 31 \<or> out_size < 2 ^ 31 \<and> i \<le> int n"
  shows "\<exists>n' out'. url_encode_loop s i out_size n out = Some (n', out') \<and>
     n' \<le> out_size \<and> length out' = length out \<and> drop out_size out' = drop out_size out"
  using assms
proof (induction s arbitrary: n out i)
  case Nil
  then show ?case by simp
next
  case (Cons c cs)
  consider (full) "n \<ge> out_size" | (plain) "n < out_size" "is_unreserved c"
    | (stop) "n < out_size" "\<not> is_unreserved c" "n + 2 \<ge> out_size"
    | (esc) "n + 2 < out_size" "\<not> is_unreserved c" by linarith
  then show ?case
  proof cases
    case plain
    then have "int_next i = Some (i + 1)" using Cons.prems(3) by (auto simp: int_next_def)
    with plain Cons.prems Cons.IH [of "out[n := c]" "n + 1" "i + 1"] show ?thesis by (auto simp: c_mem)
  next
    case esc
    then have "int_next i = Some (i + 1)" using Cons.prems(3) by (auto simp: int_next_def)
    with esc Cons.prems Cons.IH [of "out[n := CHR ''%'', Suc n := hex_hi c, n + 2 := hex_lo c]" "n + 3" "i + 1"]
    show ?thesis by (auto simp: c_mem)
  qed (use Cons.prems in simp_all)
qed

lemma url_encode_finish_bounds:
  assumes "n \<le> out_size" and "out_size \<le> length out"
  shows "\<exists>out'. url_encode_finish out_size n out = Some out' \<and> length out' = length out \<and>
     drop out_size out' = drop out_size out \<and> (0 < out_size \<longrightarrow> NUL \<in> set (take out_size out'))"
proof -
  have *: "i < out_size \<Longrightarrow> NUL \<in> set (take out_size (out[i := NUL]))" for i
    using assms(2) by (metis length_list_update length_take min.absorb2 nth_list_update_eq nth_mem
        nth_take order.strict_trans2)
  show ?thesis
    using assms * [of n] * [of "out_size - 1"] by (auto simp: url_encode_finish_def c_mem)
qed

lemma src_arg_nat: "n \<le> length src \<Longrightarrow> src_arg src (int n) = Some (take n src)"
  by (simp add: src_arg_def rd_block_def)

lemma iwn_url_encode_exact:
  assumes "src_arg src src_len = Some s" and "length (url_enc s) < out_size" and "out_size \<le> length out"
    and "length s < 2 ^ 31"
  shows "iwn_url_encode src src_len out out_size =
    Some (length (url_enc s), url_enc s @ NUL # drop (length (url_enc s) + 1) out)"
proof -
  have loop: "url_encode_loop s 0 out_size 0 out =
      Some (length (url_enc s), url_enc s @ drop (length (url_enc s)) out)"
    using url_encode_loop_fits [of "[]" s out_size out 0] assms by simp
  obtain x r where "drop (length (url_enc s)) out = x # r"
    using assms by (cases "drop (length (url_enc s)) out") auto
  then have "(url_enc s @ drop (length (url_enc s)) out)[length (url_enc s) := NUL] =
      url_enc s @ NUL # drop (length (url_enc s) + 1) out"
    by (metis add.commute drop_drop drop_Suc_Cons drop0 list_update_length One_nat_def)
  with loop assms show ?thesis
    by (simp add: iwn_url_encode_def url_encode_finish_def c_mem)
qed

lemma iwn_url_encode_new_eq:
  assumes "src_arg src src_len = Some s" and "malloc (length (url_enc s) + 1) = Some b"
    and "malloc_ok malloc" and "length s < 2 ^ 31"
  shows "iwn_url_encode_new malloc src src_len = Some (Some (url_enc s @ [NUL]))"
proof -
  let ?n = "if src_len < 0 then map_option int (c_strlen src 0) else Some src_len"
  obtain m where m: "?n = Some m" "src_arg src m = Some s"
  proof (cases "src_len < 0")
    case True
    with assms(1) have c: "c_str src 0 = Some s" by (simp add: src_arg_def)
    then have s: "s = takeWhile (\<lambda>c. c \<noteq> NUL) src"
      by (simp add: c_str_def split: if_splits)
    have "length s \<le> length src" unfolding s by (rule length_takeWhile_le)
    moreover have "take (length s) src = s" unfolding s by (rule takeWhile_eq_take [symmetric])
    ultimately have "src_arg src (int (length s)) = Some s" by (simp add: src_arg_nat)
    with True c that [of "int (length s)"] show ?thesis by (simp add: c_strlen_def)
  qed (use assms that in auto)
  have len: "iwn_url_encoded_len src m = Some (length (url_enc s))"
    using m(2) assms(4) by (simp add: iwn_url_encoded_len_def url_encoded_len_loop_eq)
  have "length b = length (url_enc s) + 1"
    using assms(2,3) by (auto simp: malloc_ok_def)
  then have "iwn_url_encode src m b (length (url_enc s) + 1) =
      Some (length (url_enc s), url_enc s @ [NUL])"
    using iwn_url_encode_exact [OF m(2), of "length (url_enc s) + 1" b] assms(4) by simp
  with len m(1) assms(2) show ?thesis
    by (simp add: iwn_url_encode_new_def)
qed

section \<open>Decoding\<close>

declare url_decode_loop.simps [simp del] url_decode2_loop.simps [simp del] unescape_loop.simps [simp del]

lemma url_decode_loops_step:
  assumes "url_decode_step buf rp wp = Some (buf', rp')"
  shows "buf ! rp \<noteq> NUL \<Longrightarrow> url_decode_loop buf rp wp = url_decode_loop buf' rp' (Suc wp)"
    and "rp < ep \<Longrightarrow> url_decode2_loop buf ep rp wp = url_decode2_loop buf' ep rp' (Suc wp)"
  using assms url_decode_step_less [OF assms]
  by (subst url_decode_loop.simps, simp add: c_mem, subst url_decode2_loop.simps, simp)

lemma url_decode_loops_prefix:
  assumes "drop rp buf = s @ u" and "NUL \<notin> set s" and "pct_complete s" and "wp \<le> rp"
    and "rp + length s \<le> length buf"
  shows "wp + length (url_dec s) \<le> rp + length s \<and>
    url_decode_loop buf rp wp =
      url_decode_loop (take wp buf @ url_dec s @ drop (wp + length (url_dec s)) buf)
        (rp + length s) (wp + length (url_dec s)) \<and>
    (rp + length s \<le> ep \<longrightarrow> url_decode2_loop buf ep rp wp =
      url_decode2_loop (take wp buf @ url_dec s @ drop (wp + length (url_dec s)) buf) ep
        (rp + length s) (wp + length (url_dec s)))"
  using assms
proof (induction s arbitrary: buf rp wp rule: url_dec.induct)
  case 1
  then show ?case by simp
next
  case (2 c cs)
  then have c: "rp < length buf" "buf ! rp = c" "drop (Suc rp) buf = cs @ u"
    using drop_eq_Cons [of rp buf c "cs @ u"] by auto
  show ?case
  proof (cases "c = CHR ''%''")
    case True
    with "2.prems" obtain a b r where cs: "cs = a # b # r" "pct_complete r" "NUL \<notin> set r"
      by (auto split: list.splits)
    then have d: "Suc (Suc rp) < length buf" "buf ! Suc rp = a" "buf ! Suc (Suc rp) = b"
        "drop (Suc (Suc (Suc rp))) buf = r @ u"
      using c(3) drop_eq_Cons [of "Suc rp" buf a "b # r @ u"]
        drop_eq_Cons [of "Suc (Suc rp)" buf b "r @ u"] by auto
    let ?buf = "buf[wp := pct_byte a b]"
    have "url_decode_step buf rp wp = Some (?buf, Suc (Suc (Suc rp)))"
      using c d True "2.prems"(4) by (simp add: url_decode_step_def c_mem)
    moreover have "take (Suc wp) ?buf @ url_dec r @ drop (Suc wp + length (url_dec r)) ?buf =
        take wp buf @ url_dec (c # cs) @ drop (wp + length (url_dec (c # cs))) buf"
      using True cs c(1) "2.prems"(4) by (simp add: take_Suc_update)
    ultimately show ?thesis
      using "2.IH"(1) [of a "b # r" b r "Suc (Suc (Suc rp))" ?buf "Suc wp"] True cs c d "2.prems"(4,5)
        url_decode_loops_step [of buf rp wp ?buf "Suc (Suc (Suc rp))"]
      by simp
  next
    case False
    let ?x = "if c = CHR ''+'' then CHR '' '' else c"
    let ?buf = "buf[wp := ?x]"
    have "url_decode_step buf rp wp = Some (?buf, Suc rp)"
      using c False "2.prems"(4) by (simp add: url_decode_step_def c_mem)
    moreover have "take (Suc wp) ?buf @ url_dec cs @ drop (Suc wp + length (url_dec cs)) ?buf =
        take wp buf @ url_dec (c # cs) @ drop (wp + length (url_dec (c # cs))) buf"
      using False c(1) "2.prems"(4) by (simp add: take_Suc_update)
    moreover have "c \<noteq> NUL" using "2.prems"(2) by auto
    ultimately show ?thesis
      using "2.IH"(2) [of "Suc rp" ?buf "Suc wp"] False c "2.prems"(2-5)
        url_decode_loops_step [of buf rp wp ?buf "Suc rp"]
      by simp
  qed
qed

lemma url_decode_loop_correct:
  assumes "drop rp buf = s @ NUL # t" and "NUL \<notin> set s" and "pct_complete s" and "wp \<le> rp"
  shows "url_decode_loop buf rp wp =
    Some (take wp buf @ url_dec s @ NUL # drop (wp + length (url_dec s) + 1) buf)"
proof -
  let ?W = "wp + length (url_dec s)" and ?R = "rp + length s"
  let ?B = "take wp buf @ url_dec s @ drop ?W buf"
  have R: "?R < length buf" "buf ! ?R = NUL"
    using nth_drop_split [OF assms(1)] by auto
  with url_decode_loops_prefix [OF assms(1-4)]
  have W: "?W \<le> ?R" and eq: "url_decode_loop buf rp wp = url_decode_loop ?B ?R ?W" by auto
  have "?B ! ?R = buf ! ?R" "length ?B = length buf" "?R < length ?B"
    using W R assms(4) by (simp_all add: nth_append less_diff_conv2 not_less)
  moreover have "?B[?W := NUL] = take wp buf @ url_dec s @ NUL # drop (?W + 1) buf"
    using W R assms(4) by (simp add: list_update_append Cons_nth_drop_Suc [symmetric])
  ultimately have "url_decode_loop ?B ?R ?W = Some (take wp buf @ url_dec s @ NUL # drop (?W + 1) buf)"
    using W R by (subst url_decode_loop.simps) (simp add: c_mem)
  with eq show ?thesis by simp
qed

lemma iwn_url_decode_inplace_correct:
  assumes "NUL \<notin> set s" and "pct_complete s"
  shows "iwn_url_decode_inplace (pre @ s @ NUL # t) (length pre) =
    Some (pre @ url_dec s @ NUL # drop (length (url_dec s) + 1) (s @ NUL # t))"
  using url_decode_loop_correct [of "length pre" "pre @ s @ NUL # t" s t "length pre"] assms
  by (simp add: iwn_url_decode_inplace_def)

lemma url_dec_length_le: "length (url_dec s) \<le> length s"
proof (induction s rule: url_dec.induct)
  case (2 c cs)
  show ?case
  proof (cases "c = CHR ''%''")
    case True
    then show ?thesis
      using "2.IH"(1) by (cases cs; cases "tl cs") (auto simp: le_SucI)
  next
    case False
    then show ?thesis using "2.IH"(2) by simp
  qed
qed simp

text \<open>A percent sign with fewer than two bytes after it and the buffer's terminator as its last byte.\<close>

lemma url_decode_loop_cut:
  assumes "rp < length buf" and "buf ! rp = CHR ''%''" and "length buf \<le> rp + 3" and "wp \<le> rp"
  shows "url_decode_loop buf rp wp = None"
proof -
  have past: "url_decode_loop b (rp + 3) w = None" if "length b \<le> rp + 3" for b w
    using that by (subst url_decode_loop.simps) (simp add: rd_def)
  show ?thesis
    using assms past
    by (subst url_decode_loop.simps)
      (auto simp: url_decode_step_def c_mem bind_eq_Some_conv wr_eq_Some split: option.splits)
qed

lemma iwn_url_decode_inplace_truncated:
  assumes "NUL \<notin> set s" and "pct_complete s" and "length e < 2"
  shows "iwn_url_decode_inplace (s @ CHR ''%'' # e @ [NUL]) 0 = None"
proof -
  let ?buf = "s @ CHR ''%'' # e @ [NUL]"
  let ?W = "length (url_dec s)"
  let ?B = "url_dec s @ drop ?W ?buf"
  have W: "?W \<le> length s" by (rule url_dec_length_le)
  have "url_decode_loop ?buf 0 0 = url_decode_loop ?B (length s) ?W"
    using url_decode_loops_prefix [of 0 ?buf s "CHR ''%'' # e @ [NUL]" 0] assms by simp
  moreover have "length ?B = length s + 2 + length e" and "?B ! length s = CHR ''%''"
    using W by (auto simp: nth_append)
  ultimately show ?thesis
    using assms(3) W by (simp add: iwn_url_decode_inplace_def url_decode_loop_cut)
qed

lemma iwn_url_decode_inplace2_result:
  assumes "NUL \<notin> set s" and "pct_complete s"
  shows "iwn_url_decode_inplace2 (pre @ s @ t) (length pre) (length pre + length s) =
    Some (length s, pre @ url_dec s @ drop (length (url_dec s)) (s @ t))"
  using url_decode_loops_prefix [of "length pre" "pre @ s @ t" s t "length pre"] assms
  by (simp add: iwn_url_decode_inplace2_def url_decode2_loop.simps [of _ "length pre + length s" "length pre + length s"])

section \<open>Decoding undoes encoding\<close>

lemma hex_digits_facts:
  assumes "k < 16"
  shows "hex_value (hex_digits ! k) = Some (int k)" "\<not> c_isspace (hex_digits ! k)"
    "hex_digits ! k \<notin> {CHR ''-'', CHR ''+'', NUL, CHR ''%'', CHR ''&'', CHR ''='', CHR ''x'', CHR ''X''}"
proof -
  let ?P = "\<lambda>k. hex_value (hex_digits ! k) = Some (int k) \<and> \<not> c_isspace (hex_digits ! k) \<and>
     hex_digits ! k \<notin> {CHR ''-'', CHR ''+'', NUL, CHR ''%'', CHR ''&'', CHR ''='', CHR ''x'', CHR ''X''}"
  have *: "list_all ?P [0..<16]" by code_simp
  then have "?P k" using assms unfolding list_all_iff by (metis (lifting) atLeastLessThan_iff set_upt zero_le)
  then show "hex_value (hex_digits ! k) = Some (int k)" "\<not> c_isspace (hex_digits ! k)"
    "hex_digits ! k \<notin> {CHR ''-'', CHR ''+'', NUL, CHR ''%'', CHR ''&'', CHR ''='', CHR ''x'', CHR ''X''}"
    by blast+
qed
lemma hex_index_less: "nat ((i div 16) mod 16) < 16" "nat (i mod 16) < 16" for i :: int
  by (simp_all add: nat_less_iff)

lemma pct_byte_hex [simp]: "pct_byte (hex_hi c) (hex_lo c) = c"
proof -
  let ?h = "nat ((cval c div 16) mod 16)" and ?l = "nat (cval c mod 16)"
  have "strtol16 [hex_digits ! ?h, hex_digits ! ?l] = int ?h * 16 + int ?l"
    using hex_digits_facts [OF hex_index_less(1) [of "cval c"]]
      hex_digits_facts [OF hex_index_less(2) [of "cval c"]]
    by (simp add: strtol16_def strtol16_prefix_def)
  moreover have "(int ?h * 16 + int ?l) mod 256 = cval c mod 256"
    using zmod_zmult2_eq [of 16 "cval c" 16] by simp
  ultimately have "char_of_int (strtol16 [hex_digits ! ?h, hex_digits ! ?l]) = char_of_int (cval c)"
    by (simp only: char_of_int_def)
  then show ?thesis
    using hex_digits_facts(3) [OF hex_index_less(1) [of "cval c"]]
      hex_digits_facts(3) [OF hex_index_less(2) [of "cval c"]]
    by (simp add: pct_byte_def hex_hi_def hex_lo_def)
qed

lemma not_unreserved:
  "\<not> is_unreserved NUL" "\<not> is_unreserved CHR ''&''" "\<not> is_unreserved CHR ''=''"
  "\<not> is_unreserved CHR ''%''" "\<not> is_unreserved CHR ''+''"
  by code_simp+

lemma url_enc_char_facts:
  "x \<in> set (url_enc_char c) \<Longrightarrow> x \<notin> {NUL, CHR ''&'', CHR ''=''}"
  using hex_digits_facts(3) [OF hex_index_less(1) [of "cval c"]]
    hex_digits_facts(3) [OF hex_index_less(2) [of "cval c"]] not_unreserved
  by (auto simp: url_enc_char_def hex_hi_def hex_lo_def split: if_splits)

lemma url_enc_facts: "x \<in> set (url_enc s) \<Longrightarrow> x \<notin> {NUL, CHR ''&'', CHR ''=''}"
  by (induction s) (auto dest: url_enc_char_facts)

lemma unreserved_plain: "is_unreserved c \<Longrightarrow> c \<noteq> CHR ''%'' \<and> c \<noteq> CHR ''+''"
  using not_unreserved by auto

lemma pct_complete_url_enc: "pct_complete (url_enc s @ r) = pct_complete r"
  by (induction s) (auto simp: url_enc_char_def dest: unreserved_plain)

lemma url_dec_url_enc: "url_dec (url_enc s @ r) = s @ url_dec r"
  by (induction s) (auto simp: url_enc_char_def dest: unreserved_plain)

section \<open>Removing backslash escapes\<close>

lemma unescape_loop_correct:
  assumes "drop rp buf = s @ u" and "NUL \<notin> set s" and "wp \<le> rp" and "rp + length s \<le> length buf"
    and "lim = Some (rp + length s) \<or> lim = None \<and> (\<exists>t. u = NUL # t)"
  shows "unescape_loop buf lim rp wp =
    Some (wp + length (unesc s), take wp buf @ unesc s @ drop (wp + length (unesc s)) buf)"
  using assms
proof (induction s arbitrary: buf rp wp rule: unesc.induct)
  case 1
  then show ?case
    using drop_eq_Cons [of rp buf NUL]
    by (subst unescape_loop.simps) (auto simp: c_mem)
next
  case (2 c cs)
  then have c: "rp < length buf" "buf ! rp = c" "drop (Suc rp) buf = cs @ u" "c \<noteq> NUL"
    using drop_eq_Cons [of rp buf c "cs @ u"] by auto
  show ?case
  proof (cases "c = BSLASH")
    case False
    let ?buf = "buf[wp := c]"
    have "unescape_loop buf lim rp wp = unescape_loop ?buf lim (Suc rp) (Suc wp)"
      using c False "2.prems"(3-5) by (subst unescape_loop.simps) (auto simp: c_mem)
    also have "\<dots> = Some (Suc wp + length (unesc cs),
        take (Suc wp) ?buf @ unesc cs @ drop (Suc wp + length (unesc cs)) ?buf)"
      using "2.IH"(2) [of "Suc rp" ?buf "Suc wp"] False c "2.prems" by auto
    finally show ?thesis
      using False c(1) "2.prems"(3) by (simp add: take_Suc_update)
  next
    case True
    show ?thesis
    proof (cases cs)
      case Nil
      then show ?thesis
        using True c "2.prems"(3-5) drop_eq_Cons [of "Suc rp" buf NUL]
        by (subst unescape_loop.simps) (auto simp: c_mem)
    next
      case (Cons d r)
      then have d: "Suc rp < length buf" "buf ! Suc rp = d" "drop (Suc (Suc rp)) buf = r @ u" "d \<noteq> NUL"
        using drop_eq_Cons [of "Suc rp" buf d "r @ u"] c "2.prems" by auto
      let ?buf = "buf[wp := d]"
      have "unescape_loop buf lim rp wp = unescape_loop ?buf lim (Suc (Suc rp)) (Suc wp)"
        using c d True Cons "2.prems"(3-5) by (subst unescape_loop.simps) (auto simp: c_mem)
      also have "\<dots> = Some (Suc wp + length (unesc r),
          take (Suc wp) ?buf @ unesc r @ drop (Suc wp + length (unesc r)) ?buf)"
        using "2.IH"(1) [of d r "Suc (Suc rp)" ?buf "Suc wp"] True Cons d "2.prems" by auto
      finally show ?thesis
        using True Cons c(1) "2.prems"(3) by (simp add: take_Suc_update)
    qed
  qed
qed

lemma unesc_esc: "unesc (concat (map esc_char s)) = s"
  by (induction s) (auto simp: esc_char_def)

lemma not_pct_completeD:
  "\<not> pct_complete s \<Longrightarrow> \<exists>p e. s = p @ CHR ''%'' # e \<and> pct_complete p \<and> length e < 2"
proof (induction s rule: pct_complete.induct)
  case (2 c cs)
  show ?case
  proof (cases "c = CHR ''%''")
    case False
    then obtain p e where "cs = p @ CHR ''%'' # e" "pct_complete p" "length e < 2"
      using 2 by auto
    with False show ?thesis by (intro exI [of _ "c # p"] exI [of _ e]) auto
  next
    case True
    show ?thesis
    proof (cases "length cs < 2")
      case False
      then obtain a b r where cs: "cs = a # b # r"
        by (cases cs; cases "tl cs") auto
      then obtain p e where "r = p @ CHR ''%'' # e" "pct_complete p" "length e < 2"
        using "2.IH"(1) [of a "b # r" b r] "2.prems" True by auto
      with True cs show ?thesis by (intro exI [of _ "c # a # b # p"] exI [of _ e]) auto
    qed (use True in \<open>intro exI [of _ "[]"] exI [of _ cs], auto\<close>)
  qed
qed simp

section \<open>Properties\<close>

text \<open>
  C14: Percent-encoding followed by in-place decoding is the identity. For every argument of
  \<open>iwn_url_encode_new\<close> (a length-delimited buffer with arbitrary bytes, or a terminated string) of
  less than \<open>2 ^ 31\<close> bytes, so that the \<open>int\<close> index of the loops does not overflow, and an allocator that serves the request, \<open>iwn_url_decode_inplace\<close> on the returned buffer
  stays in bounds and leaves the original bytes, terminated, at its start.
\<close>

theorem url_encode_decode_roundtrip:
  assumes "src_arg src src_len = Some s" and "length s < 2 ^ 31"
    and "malloc_ok malloc" and "\<forall>n. malloc n \<noteq> None"
  shows "\<exists>buf rest. iwn_url_encode_new malloc src src_len = Some (Some buf) \<and>
    iwn_url_decode_inplace buf 0 = Some (s @ NUL # rest)"
proof -
  obtain b where "malloc (length (url_enc s) + 1) = Some b" using assms(4) by auto
  moreover have "NUL \<notin> set (url_enc s)" using url_enc_facts [of NUL s] by auto
  ultimately show ?thesis
    using iwn_url_encode_new_eq [OF assms(1) _ assms(3,2)]
      iwn_url_decode_inplace_correct [of "url_enc s" "[]" "[]"]
      pct_complete_url_enc [of s "[]"] url_dec_url_enc [of s "[]"] by simp
qed

theorem url_encode_decode_roundtrip_witness:
  "\<exists>buf rest. iwn_url_encode_new (\<lambda>n. Some (replicate n NUL)) ''a b/%'' 5 = Some (Some buf) \<and>
    iwn_url_decode_inplace buf 0 = Some (''a b/%'' @ NUL # rest)"
  by (rule url_encode_decode_roundtrip) (simp_all add: malloc_ok_def src_arg_def rd_block_def)

text \<open>
  C15: \<open>iwn_url_encode\<close> never touches memory outside the caller's \<open>out_size\<close> bytes, however small the
  output is, when the source or \<open>out_size\<close> is below \<open>2 ^ 31\<close> bytes (with both above it the \<open>int\<close> index of
  the loop can overflow): it returns, the count is at most \<open>out_size\<close>, the bytes
  behind the output buffer are unchanged and a non-empty output buffer is terminated.
\<close>

theorem iwn_url_encode_stays_in_buffer:
  assumes "src_arg src src_len = Some s" and "out_size \<le> length out" and "length s < 2 ^ 31 \<or> out_size < 2 ^ 31"
  shows "\<exists>n out'. iwn_url_encode src src_len out out_size = Some (n, out') \<and>
    n \<le> out_size \<and> length out' = length out \<and> drop out_size out' = drop out_size out \<and>
    (0 < out_size \<longrightarrow> NUL \<in> set (take out_size out'))"
proof -
  obtain n o1 where 1: "url_encode_loop s 0 out_size 0 out = Some (n, o1)" "n \<le> out_size"
      "length o1 = length out" "drop out_size o1 = drop out_size out"
    using url_encode_loop_bounds [OF assms(2), of 0 0 s] assms(3) by auto
  then show ?thesis
    using url_encode_finish_bounds [of n out_size o1] assms by (auto simp: iwn_url_encode_def)
qed

theorem iwn_url_encode_stays_in_buffer_witness:
  "\<exists>n out'. iwn_url_encode ''a b'' 3 ''xxxxx'' 4 = Some (n, out') \<and>
    n \<le> 4 \<and> length out' = 5 \<and> drop 4 out' = ''x'' \<and> NUL \<in> set (take 4 out')"
proof -
  have "src_arg ''a b'' 3 = Some ''a b''" "length ''a b'' < 2 ^ 31" "drop 4 ''xxxxx'' = ''x''" "4 \<le> length ''xxxxx''"
    by (simp_all add: src_arg_def rd_block_def)
  then show ?thesis
    using iwn_url_encode_stays_in_buffer [of "''a b''" 3 "''a b''" 4 "''xxxxx''"] by auto
qed

text \<open>
  C16: \<open>iwn_url_decode_inplace\<close> on a terminated string decodes it within its buffer exactly when
  every percent sign is followed by two more bytes. A string cut inside an escape (\<open>%\<close> or \<open>%4\<close>
  at its end) makes it step over the terminator and read past the buffer.
\<close>

theorem iwn_url_decode_inplace_safe_iff:
  assumes "NUL \<notin> set s"
  shows "if pct_complete s
    then iwn_url_decode_inplace (s @ [NUL]) 0 =
      Some (url_dec s @ NUL # drop (length (url_dec s) + 1) (s @ [NUL]))
    else iwn_url_decode_inplace (s @ [NUL]) 0 = None"
  using iwn_url_decode_inplace_correct [OF assms, of "[]" "[]"] not_pct_completeD [of s]
    iwn_url_decode_inplace_truncated assms by auto

theorem iwn_url_decode_inplace_safe_iff_witness:
  "iwn_url_decode_inplace (''a+%41'' @ [NUL]) 0 = Some (''a A'' @ NUL # ''1'' @ [NUL]) \<and>
   iwn_url_decode_inplace (''a%4'' @ [NUL]) 0 = None"
proof -
  have "pct_byte CHR ''4'' CHR ''1'' = CHR ''A''" by code_simp
  then show ?thesis
    using iwn_url_decode_inplace_safe_iff [of "''a+%41''"] iwn_url_decode_inplace_safe_iff [of "''a%4''"]
    by (simp add: numeral_eq_Suc)
qed

text \<open>
  C17: \<open>iwn_unescape_backslashes_inplace\<close> on a region of a buffer undoes backslash escaping of
  quotes and backslashes: it returns the length of the original text, stores that text at the
  start of the region and touches nothing before the region or behind the text.
\<close>

theorem unescape_backslashes_undoes_escape:
  assumes "NUL \<notin> set s" and "e = concat (map esc_char s)"
  shows "iwn_unescape_backslashes_inplace (pre @ e @ t) (length pre) (int (length e)) =
    Some (length s, pre @ s @ drop (length s) (e @ t))"
proof -
  have "NUL \<notin> set e" using assms by (auto simp: esc_char_def split: if_splits)
  then show ?thesis
    using unescape_loop_correct [of "length pre" "pre @ e @ t" e t "length pre"] assms(2)
    by (simp add: iwn_unescape_backslashes_inplace_def unesc_esc)
qed

theorem unescape_backslashes_undoes_escape_witness:
  "iwn_unescape_backslashes_inplace
     (''n='' @ [CHR ''a'', BSLASH, DQUOTE, CHR ''b''] @ [DQUOTE]) 2 4 =
    Some (3, ''n='' @ [CHR ''a'', DQUOTE, CHR ''b''] @ [CHR ''b'', DQUOTE])"
  using unescape_backslashes_undoes_escape [of "[CHR ''a'', DQUOTE, CHR ''b'']"
      "[CHR ''a'', BSLASH, DQUOTE, CHR ''b'']" "''n=''" "[DQUOTE]"]
  by (simp add: esc_char_def numeral_eq_Suc)

text \<open>
  \<open>iwn_url_encode_printf_va\<close> formats into a scratch buffer and then encodes the format string:
  formatting \<open>%s\<close> with a one-letter argument gives the encoding of a percent sign.
\<close>

lemma iwn_url_encode_printf_va_encodes_format:
  assumes "malloc_ok malloc" and "malloc 4 = Some b"
  shows "iwn_url_encode_printf_va malloc ''%s'' (Some ''x'') = Some (Some (''%25'' @ [NUL]))"
proof -
  have "url_enc ''%'' = ''%25''" by code_simp
  moreover have "malloc (Suc (Suc (Suc (Suc 0)))) = Some b" using assms(2) by (simp add: numeral_eq_Suc)
  ultimately show ?thesis
    using iwn_url_encode_new_eq [of "''%s''" 1 "''%''" malloc b] assms
    by (simp add: iwn_url_encode_printf_va_def src_arg_def rd_block_def Let_def)
qed

end
