(* ===== verification/Base64.thy ===== *)
theory Base64
  imports Iwn_Prelude
begin

text \<open>
  The Base64 and hexadecimal codecs of \<open>src/src/utils/iwn_base64.c\<close> and \<open>iwn_base64.h\<close>.

  Binary data is a list of bytes (\<open>8 word\<close>), text a list of \<open>char\<close>. \<open>unsigned int\<close> is
  \<open>32 word\<close>, \<open>size_t\<close> is \<open>nat\<close> where it counts bytes of a buffer and \<open>64 word\<close> where it is
  computed with.
\<close>

unbundle bit_operations_syntax

type_synonym uint = "32 word"

section \<open>Hexadecimal text\<close>

definition bin2hex_digit :: "uint \<Rightarrow> byte" where
  "bin2hex_digit c = ucast (87 + c + (drop_bit 8 (c - 10) AND NOT 38))"

definition byte_char :: "byte \<Rightarrow> char" where
  "byte_char b = char_of (unat b)"

function bin2hex_loop :: "string \<Rightarrow> byte list \<Rightarrow> nat \<Rightarrow> nat \<Rightarrow> (string \<times> nat) option" where
  "bin2hex_loop hex bin bin_len i =
     (if i < bin_len then do {
        v \<leftarrow> rd bin i;
        let c = ucast v AND (0xf :: uint);
        let b = drop_bit 4 (ucast v :: uint);
        let x = push_bit 8 (ucast (bin2hex_digit c)) OR (ucast (bin2hex_digit b) :: uint);
        hex \<leftarrow> wr hex (i * 2) (byte_char (ucast x));
        let x = drop_bit 8 x;
        hex \<leftarrow> wr hex (i * 2 + 1) (byte_char (ucast x));
        bin2hex_loop hex bin bin_len (i + 1)
      } else Some (hex, i))"
  by pat_completeness auto
termination by (relation "measure (\<lambda>(hex, bin, n, i). n - i)") auto

definition bin2hex :: "string \<Rightarrow> nat \<Rightarrow> byte list \<Rightarrow> nat \<Rightarrow> string option option" where
  "bin2hex hex hex_maxlen bin bin_len =
     (if int bin_len \<ge> (2 ^ 64 - 1) div 2 \<or> hex_maxlen \<le> bin_len * 2 then Some None
      else do {
        (hex, i) \<leftarrow> bin2hex_loop hex bin bin_len 0;
        hex \<leftarrow> wr hex (i * 2) NUL;
        Some (Some hex)
      })"

text \<open>\<open>strchr (ignore, c) != 0\<close>, which also finds the terminating \<open>NUL\<close>; a null \<open>ignore\<close> is \<open>None\<close>.\<close>

definition ignored :: "string option \<Rightarrow> char \<Rightarrow> bool" where
  "ignored ignore c = (case ignore of None \<Rightarrow> False | Some s \<Rightarrow> c \<in> set s \<or> c = NUL)"

text \<open>The value of a hexadecimal digit as \<open>hex2bin\<close> computes it, or \<open>None\<close> for another byte.\<close>

definition hex2bin_val :: "char \<Rightarrow> byte option" where
  "hex2bin_val ch =
     (let c = (of_char ch :: byte);
          c_num = (ucast (ucast c XOR (48 :: uint)) :: byte);
          c_num0 = (ucast (drop_bit 8 (ucast c_num - (10 :: uint))) :: byte);
          c_alpha = (ucast ((ucast c AND NOT (32 :: uint)) - 55) :: byte);
          c_alpha0 = (ucast (drop_bit 8 ((ucast c_alpha - (10 :: uint)) XOR (ucast c_alpha - 16))) :: byte)
      in if c_num0 OR c_alpha0 = 0 then None
         else Some ((c_num0 AND c_num) OR (c_alpha0 AND c_alpha)))"

record hex2bin_st =
  hx_bin :: "byte list"
  hx_bin_pos :: nat
  hx_hex_pos :: nat
  hx_ret :: int
  hx_c_acc :: byte
  hx_state :: byte

function hex2bin_loop :: "nat \<Rightarrow> string \<Rightarrow> nat \<Rightarrow> string option \<Rightarrow> hex2bin_st \<Rightarrow> hex2bin_st option" where
  "hex2bin_loop bin_maxlen hex hex_len ignore s =
     (if hx_hex_pos s < hex_len then
        (case rd hex (hx_hex_pos s) of
           None \<Rightarrow> None
         | Some c \<Rightarrow>
             (case hex2bin_val c of
                None \<Rightarrow>
                  if ignored ignore c \<and> hx_state s = 0
                  then hex2bin_loop bin_maxlen hex hex_len ignore (s\<lparr>hx_hex_pos := hx_hex_pos s + 1\<rparr>)
                  else Some s
              | Some c_val \<Rightarrow>
                  if hx_bin_pos s \<ge> bin_maxlen then Some (s\<lparr>hx_ret := -1\<rparr>)
                  else if hx_state s = 0
                  then hex2bin_loop bin_maxlen hex hex_len ignore
                         (s\<lparr>hx_c_acc := c_val * 16, hx_state := NOT (hx_state s), hx_hex_pos := hx_hex_pos s + 1\<rparr>)
                  else (case wr (hx_bin s) (hx_bin_pos s) (hx_c_acc s OR c_val) of
                          None \<Rightarrow> None
                        | Some bin \<Rightarrow>
                            hex2bin_loop bin_maxlen hex hex_len ignore
                              (s\<lparr>hx_bin := bin, hx_bin_pos := hx_bin_pos s + 1, hx_state := NOT (hx_state s),
                                 hx_hex_pos := hx_hex_pos s + 1\<rparr>))))
      else Some s)"
  by pat_completeness auto
termination by (relation "measure (\<lambda>(m, h, n, ig, s). n - hx_hex_pos s)") auto

text \<open>The result: the return value, the buffer, \<open>bin_len\<close> and the position \<open>hex_end\<close> points to.\<close>

definition hex2bin ::
  "byte list \<Rightarrow> nat \<Rightarrow> string \<Rightarrow> nat \<Rightarrow> string option \<Rightarrow> bool \<Rightarrow> (int \<times> byte list \<times> nat \<times> nat) option" where
  "hex2bin bin bin_maxlen hex hex_len ignore hex_end = do {
     s \<leftarrow> hex2bin_loop bin_maxlen hex hex_len ignore
           \<lparr>hx_bin = bin, hx_bin_pos = 0, hx_hex_pos = 0, hx_ret = 0, hx_c_acc = 0, hx_state = 0\<rparr>;
     let (hex_pos, ret) = (if hx_state s \<noteq> 0 then (hx_hex_pos s - 1, -1) else (hx_hex_pos s, hx_ret s));
     let bin_pos = (if ret \<noteq> 0 then 0 else hx_bin_pos s);
     let ret = (if \<not> hex_end \<and> hex_pos \<noteq> hex_len then -1 else ret);
     Some (ret, hx_bin s, bin_pos, hex_pos)
   }"

section \<open>Base64 digits\<close>

definition EQ :: "uint \<Rightarrow> uint \<Rightarrow> uint" where
  "EQ x y = (drop_bit 8 (0 - (x XOR y)) AND 0xFF) XOR 0xFF"

definition GT :: "uint \<Rightarrow> uint \<Rightarrow> uint" where
  "GT x y = drop_bit 8 (y - x) AND 0xFF"

definition GE :: "uint \<Rightarrow> uint \<Rightarrow> uint" where
  "GE x y = GT y x XOR 0xFF"

definition LT :: "uint \<Rightarrow> uint \<Rightarrow> uint" where
  "LT x y = GT y x"

definition LE :: "uint \<Rightarrow> uint \<Rightarrow> uint" where
  "LE x y = GE y x"

definition b64_byte_to_char :: "uint \<Rightarrow> uint" where
  "b64_byte_to_char x =
     (LT x 26 AND (x + 65)) OR (GE x 26 AND LT x 52 AND (x + (97 - 26)))
     OR (GE x 52 AND LT x 62 AND (x + (48 - 52))) OR (EQ x 62 AND 43) OR (EQ x 63 AND 47)"

text \<open>The argument is an \<open>int\<close>; it is converted to \<open>unsigned int\<close> by every comparison.\<close>

definition b64_char_to_byte :: "int \<Rightarrow> uint" where
  "b64_char_to_byte c =
     (let u = of_int c;
          x = (GE u 65 AND LE u 90 AND of_int (c - 65)) OR (GE u 97 AND LE u 122 AND of_int (c - (97 - 26)))
              OR (GE u 48 AND LE u 57 AND of_int (c - (48 - 52))) OR (EQ u 43 AND 62) OR (EQ u 47 AND 63)
      in x OR (EQ x 0 AND (EQ u 65 XOR 0xFF)))"

definition b64_byte_to_urlsafe_char :: "uint \<Rightarrow> uint" where
  "b64_byte_to_urlsafe_char x =
     (LT x 26 AND (x + 65)) OR (GE x 26 AND LT x 52 AND (x + (97 - 26)))
     OR (GE x 52 AND LT x 62 AND (x + (48 - 52))) OR (EQ x 62 AND 45) OR (EQ x 63 AND 95)"

definition b64_urlsafe_char_to_byte :: "int \<Rightarrow> uint" where
  "b64_urlsafe_char_to_byte c =
     (let u = of_int c;
          x = (GE u 65 AND LE u 90 AND of_int (c - 65)) OR (GE u 97 AND LE u 122 AND of_int (c - (97 - 26)))
              OR (GE u 48 AND LE u 57 AND of_int (c - (48 - 52))) OR (EQ u 45 AND 62) OR (EQ u 95 AND 63)
      in x OR (EQ x 0 AND (EQ u 65 XOR 0xFF)))"

section \<open>Base64 text\<close>

definition VARIANT_NO_PADDING_MASK :: uint where
  "VARIANT_NO_PADDING_MASK = 0x2"

definition VARIANT_URLSAFE_MASK :: uint where
  "VARIANT_URLSAFE_MASK = 0x4"

definition base64_VARIANT_URLSAFE_NO_PADDING :: int where
  "base64_VARIANT_URLSAFE_NO_PADDING = 7"

definition base64_check_variant :: "int \<Rightarrow> bool" where
  "base64_check_variant variant \<longleftrightarrow> of_int variant AND NOT (0x6 :: uint) = 0x1"

definition base64_ENCODED_LEN :: "64 word \<Rightarrow> int \<Rightarrow> 64 word" where
  "base64_ENCODED_LEN n variant =
     (let r = n - (n div 3) * 3 in
      (n div 3) * 4 + ((r OR drop_bit 1 r) AND 1) *
        (4 - (ucast (NOT (drop_bit 1 (of_int variant AND (2 :: uint)) - 1)) AND (3 - r))) + 1)"

definition iwn_base64_encoded_len :: "nat \<Rightarrow> int \<Rightarrow> nat" where
  "iwn_base64_encoded_len bin_len variant =
     (if \<not> base64_check_variant variant then 0
      else unat (base64_ENCODED_LEN (of_nat bin_len) variant))"

fun b64_emit :: "(uint \<Rightarrow> uint) \<Rightarrow> uint \<Rightarrow> nat \<Rightarrow> string \<Rightarrow> nat \<Rightarrow> (nat \<times> string \<times> nat) option" where
  "b64_emit to_char acc acc_len b64 b64_pos =
     (if acc_len \<ge> 6 then do {
        b64 \<leftarrow> wr b64 b64_pos (byte_char (ucast (to_char (drop_bit (acc_len - 6) acc AND 0x3F))));
        b64_emit to_char acc (acc_len - 6) b64 (b64_pos + 1)
      } else Some (acc_len, b64, b64_pos))"

function b64_encode_loop ::
  "(uint \<Rightarrow> uint) \<Rightarrow> byte list \<Rightarrow> nat \<Rightarrow> nat \<Rightarrow> uint \<Rightarrow> nat \<Rightarrow> string \<Rightarrow> nat \<Rightarrow>
   (uint \<times> nat \<times> string \<times> nat) option" where
  "b64_encode_loop to_char bin bin_len bin_pos acc acc_len b64 b64_pos =
     (if bin_pos < bin_len then
        (case rd bin bin_pos of
           None \<Rightarrow> None
         | Some v \<Rightarrow>
             let acc = push_bit 8 acc + ucast v in
             (case b64_emit to_char acc (acc_len + 8) b64 b64_pos of
                None \<Rightarrow> None
              | Some (acc_len, b64, b64_pos) \<Rightarrow>
                  b64_encode_loop to_char bin bin_len (bin_pos + 1) acc acc_len b64 b64_pos))
      else Some (acc, acc_len, b64, b64_pos))"
  by pat_completeness auto
termination by (relation "measure (\<lambda>(f, bin, n, i, r). n - i)") auto

definition b64_encode_text ::
  "(uint \<Rightarrow> uint) \<Rightarrow> byte list \<Rightarrow> nat \<Rightarrow> string \<Rightarrow> (string \<times> nat) option" where
  "b64_encode_text to_char bin bin_len b64 = do {
     (acc, acc_len, b64, b64_pos) \<leftarrow> b64_encode_loop to_char bin bin_len 0 0 0 b64 0;
     if acc_len > 0 then do {
       b64 \<leftarrow> wr b64 b64_pos (byte_char (ucast (to_char (push_bit (6 - acc_len) acc AND 0x3F))));
       Some (b64, b64_pos + 1)
     } else Some (b64, b64_pos)
   }"

function b64_pad :: "string \<Rightarrow> nat \<Rightarrow> nat \<Rightarrow> string option" where
  "b64_pad b64 b64_pos n =
     (if b64_pos < n then do { b64 \<leftarrow> wr b64 b64_pos (CHR ''=''); b64_pad b64 (b64_pos + 1) n }
      else Some b64)"
  by pat_completeness auto
termination by (relation "measure (\<lambda>(b, i, n). n - i)") auto

text \<open>
  The result is the returned pointer (a null pointer is \<open>None\<close>) with the buffer it points to, and
  \<open>*out_b64_len\<close>. \<open>b64_len - 1\<close> wraps when the variant is unknown and \<open>b64_len\<close> is 0.
\<close>

definition iwn_base64_encode ::
  "string \<Rightarrow> nat \<Rightarrow> byte list \<Rightarrow> nat \<Rightarrow> int \<Rightarrow> (string option \<times> nat) option" where
  "iwn_base64_encode b64 b64_maxlen bin bin_len variant =
     (let b64_len = iwn_base64_encoded_len bin_len variant;
          b64_end = unat (of_nat b64_len - 1 :: 64 word)
      in if b64_maxlen < b64_len then Some (None, 0)
         else do {
           (b64, b64_pos) \<leftarrow>
             (if of_int variant AND VARIANT_URLSAFE_MASK \<noteq> 0
              then b64_encode_text b64_byte_to_urlsafe_char bin bin_len b64
              else b64_encode_text b64_byte_to_char bin bin_len b64);
           b64 \<leftarrow> b64_pad b64 b64_pos b64_end;
           b64 \<leftarrow> wr b64 b64_end NUL;
           Some (Some b64, b64_len)
         })"

function base642bin_skip_padding ::
  "string \<Rightarrow> nat \<Rightarrow> nat \<Rightarrow> string option \<Rightarrow> nat \<Rightarrow> (int \<times> nat) option" where
  "base642bin_skip_padding b64 b64_len b64_pos ignore padding_len =
     (if padding_len > 0 then
        (if b64_pos \<ge> b64_len then Some (-1, b64_pos)
         else (case rd b64 b64_pos of
                 None \<Rightarrow> None
               | Some c \<Rightarrow>
                   if c = CHR ''='' then base642bin_skip_padding b64 b64_len (b64_pos + 1) ignore (padding_len - 1)
                   else if \<not> ignored ignore c then Some (-1, b64_pos)
                   else base642bin_skip_padding b64 b64_len (b64_pos + 1) ignore padding_len))
      else Some (0, b64_pos))"
  by pat_completeness auto
termination by (relation "measure (\<lambda>(b, n, i, r). n - i)") auto

record b64_st =
  bs_acc_len :: nat
  bs_b64_pos :: nat
  bs_bin_pos :: nat
  bs_ret :: int
  bs_acc :: uint
  bs_bin :: "byte list"

function b64_decode_loop ::
  "(int \<Rightarrow> uint) \<Rightarrow> nat \<Rightarrow> string \<Rightarrow> nat \<Rightarrow> string option \<Rightarrow> b64_st \<Rightarrow> b64_st option" where
  "b64_decode_loop to_byte bin_maxlen b64 b64_len ignore s =
     (if bs_b64_pos s < b64_len then
        (case rd b64 (bs_b64_pos s) of
           None \<Rightarrow> None
         | Some c \<Rightarrow>
             let d = to_byte (cval c) in
             if d = 0xFF then
               (if ignored ignore c
                then b64_decode_loop to_byte bin_maxlen b64 b64_len ignore (s\<lparr>bs_b64_pos := bs_b64_pos s + 1\<rparr>)
                else Some s)
             else
               let s = s\<lparr>bs_acc := push_bit 6 (bs_acc s) + d, bs_acc_len := bs_acc_len s + 6\<rparr> in
               if bs_acc_len s \<ge> 8 then
                 let s = s\<lparr>bs_acc_len := bs_acc_len s - 8\<rparr> in
                 if bs_bin_pos s \<ge> bin_maxlen then Some (s\<lparr>bs_ret := -1\<rparr>)
                 else (case wr (bs_bin s) (bs_bin_pos s) (ucast (drop_bit (bs_acc_len s) (bs_acc s) AND 0xFF)) of
                         None \<Rightarrow> None
                       | Some bin \<Rightarrow>
                           b64_decode_loop to_byte bin_maxlen b64 b64_len ignore
                             (s\<lparr>bs_bin := bin, bs_bin_pos := bs_bin_pos s + 1, bs_b64_pos := bs_b64_pos s + 1\<rparr>))
               else b64_decode_loop to_byte bin_maxlen b64 b64_len ignore (s\<lparr>bs_b64_pos := bs_b64_pos s + 1\<rparr>))
      else Some s)"
  by pat_completeness auto
termination by (relation "measure (\<lambda>(f, m, b, n, ig, s). n - bs_b64_pos s)") (auto simp: Let_def)

function b64_skip_ignored :: "string \<Rightarrow> nat \<Rightarrow> nat \<Rightarrow> string option \<Rightarrow> nat option" where
  "b64_skip_ignored b64 b64_len b64_pos ignore =
     (if b64_pos < b64_len then
        (case rd b64 b64_pos of
           None \<Rightarrow> None
         | Some c \<Rightarrow> if ignored ignore c then b64_skip_ignored b64 b64_len (b64_pos + 1) ignore else Some b64_pos)
      else Some b64_pos)"
  by pat_completeness auto
termination by (relation "measure (\<lambda>(b, n, i, r). n - i)") auto

text \<open>
  The result: the return value, the buffer, \<open>*bin_len\<close> where it is written and the position of
  \<open>b64_end\<close>. The flag \<open>b64_end\<close> says whether the caller passes a place for the end pointer.
\<close>

definition iwn_base64_decode ::
  "byte list \<Rightarrow> nat \<Rightarrow> string \<Rightarrow> nat \<Rightarrow> string option \<Rightarrow> bool \<Rightarrow> int \<Rightarrow>
   (int \<times> byte list \<times> nat option \<times> nat) option" where
  "iwn_base64_decode bin bin_maxlen b64 b64_len ignore b64_end variant =
     (if \<not> base64_check_variant variant then Some (-1, bin, None, 0)
      else do {
        let to_byte = (if of_int variant AND VARIANT_URLSAFE_MASK \<noteq> 0
                       then b64_urlsafe_char_to_byte else b64_char_to_byte);
        s \<leftarrow> b64_decode_loop to_byte bin_maxlen b64 b64_len ignore
              \<lparr>bs_acc_len = 0, bs_b64_pos = 0, bs_bin_pos = 0, bs_ret = 0, bs_acc = 0, bs_bin = bin\<rparr>;
        (ret, b64_pos) \<leftarrow>
          (if bs_acc_len s > 4 \<or> bs_acc s AND (push_bit (bs_acc_len s) 1 - 1) \<noteq> 0 then Some (-1, bs_b64_pos s)
           else if bs_ret s = 0 \<and> of_int variant AND VARIANT_NO_PADDING_MASK = 0
           then base642bin_skip_padding b64 b64_len (bs_b64_pos s) ignore (bs_acc_len s div 2)
           else Some (bs_ret s, bs_b64_pos s));
        let bin_pos = (if ret \<noteq> 0 then 0 else bs_bin_pos s);
        b64_pos \<leftarrow> (if ret = 0 \<and> ignore \<noteq> None then b64_skip_ignored b64 b64_len b64_pos ignore else Some b64_pos);
        let ret = (if \<not> b64_end \<and> b64_pos \<noteq> b64_len then -1 else ret);
        Some (ret, bs_bin s, Some bin_pos, b64_pos)
      })"

text \<open>\<open>calloc\<close> gives a zeroed buffer or fails; \<open>alloc_ok\<close> says which.\<close>

definition iwn_base64_encode_url :: "bool \<Rightarrow> byte list \<Rightarrow> nat \<Rightarrow> (string option \<times> nat) option" where
  "iwn_base64_encode_url alloc_ok buf buf_len =
     (let encoded_len = unat (base64_ENCODED_LEN (of_nat buf_len) base64_VARIANT_URLSAFE_NO_PADDING) in
      if \<not> alloc_ok then Some (None, 0)
      else iwn_base64_encode (replicate encoded_len NUL) encoded_len buf buf_len base64_VARIANT_URLSAFE_NO_PADDING)"

declare bin2hex_loop.simps [simp del] hex2bin_loop.simps [simp del] b64_emit.simps [simp del]
  b64_encode_loop.simps [simp del] b64_pad.simps [simp del] base642bin_skip_padding.simps [simp del]
  b64_decode_loop.simps [simp del] b64_skip_ignored.simps [simp del]

section \<open>The constant-time digit maps\<close>

text \<open>The comparison macros compute a mask on values below 256.\<close>

lemma unat_AND_255: "unat (w AND (0xFF :: uint)) = unat w mod 256"
proof -
  have "w AND (0xFF :: uint) = take_bit 8 w" by (simp add: take_bit_eq_mask mask_eq_exp_minus_1)
  then show ?thesis by (simp only: unsigned_take_bit_eq) (simp add: take_bit_eq_mod)
qed

lemma AND_255_self: "unat w < 256 \<Longrightarrow> w AND (0xFF :: uint) = w"
  using unat_AND_255 [of w] by (simp add: word_unat_eq_iff)

lemma drop_8_small: "unat w < 256 \<Longrightarrow> drop_bit 8 (w :: uint) = 0"
  by (simp add: word_unat_eq_iff unat_drop_bit_eq) (simp add: drop_bit_eq_div)

lemma unat_drop_8: "unat (drop_bit 8 (w :: uint)) = unat w div 256"
  by (simp only: unat_drop_bit_eq) (simp add: drop_bit_eq_div)

lemma drop_8_negative:
  assumes "0 < unat w" "unat w < 256"
  shows "drop_bit 8 (- w :: uint) AND 0xFF = 0xFF"
proof -
  have k: "0 < uint w" "uint w < 256" using assms by (simp_all only: uint_nat)
  have "uint (- w) = (- uint w) mod 4294967296" by (simp add: uint_word_ariths)
  also have "\<dots> = 4294967296 - uint w" using k by (simp add: zmod_zminus1_eq_if)
  finally have "int (unat (- w)) = 4294967296 - uint w" by (simp only: uint_nat)
  then have "int (unat (drop_bit 8 (- w))) = (4294967296 - uint w) div 256"
    by (simp only: unat_drop_8 zdiv_int) simp
  also have "\<dots> = 16777215" using k by (intro int_div_pos_eq [of _ _ _ "256 - uint w"]) auto
  finally have "unat (drop_bit 8 (- w)) = 16777215" by linarith
  then have "unat (drop_bit 8 (- w) AND 0xFF) = 255" by (simp only: unat_AND_255) simp
  moreover have "unat (0xFF :: uint) = 255" by simp
  ultimately show ?thesis by (simp only: word_unat_eq_iff)
qed

lemma GT_mask:
  assumes "unat x < 256" "unat y < 256"
  shows "GT x y = (if y < x then 0xFF else 0)"
proof (cases "y < x")
  case True
  then have "unat (x - y) = unat x - unat y" by (intro unat_sub_if' [THEN trans]) (auto simp: word_less_nat_alt)
  then have "0 < unat (x - y)" "unat (x - y) < 256" using True assms by (auto simp: word_less_nat_alt)
  from drop_8_negative [OF this] True show ?thesis by (simp add: GT_def)
next
  case False
  then have "unat (y - x) = unat y - unat x" by (intro unat_sub_if' [THEN trans]) (auto simp: word_less_nat_alt)
  then have "unat (y - x) < 256" using assms by simp
  from drop_8_small [OF this] False show ?thesis by (simp add: GT_def)
qed

lemma EQ_mask:
  assumes "unat x < 256" "unat y < 256"
  shows "EQ x y = (if x = y then 0xFF else 0)"
proof (cases "x = y")
  case False
  have "x XOR y = (x XOR y) AND 0xFF"
    using AND_255_self [OF assms(1)] AND_255_self [OF assms(2)] by (metis bit.conj_xor_distrib2)
  then have "unat (x XOR y) < 256" using unat_AND_255 [of "x XOR y"] by (metis mod_less_divisor zero_less_numeral)
  moreover have "0 < unat (x XOR y)" using False by (metis unat_gt_0 bit.xor_left_self xor.right_neutral)
  ultimately show ?thesis using False drop_8_negative [of "x XOR y"] by (simp add: EQ_def)
qed (simp add: EQ_def)

lemma mask_values [simp]:
  "unat x < 256 \<Longrightarrow> unat y < 256 \<Longrightarrow> LT x y = (if x < y then 0xFF else 0)"
  "unat x < 256 \<Longrightarrow> unat y < 256 \<Longrightarrow> GE x y = (if y \<le> x then 0xFF else 0)"
  "unat x < 256 \<Longrightarrow> unat y < 256 \<Longrightarrow> LE x y = (if x \<le> y then 0xFF else 0)"
  "unat x < 256 \<Longrightarrow> unat y < 256 \<Longrightarrow> EQ x y = (if x = y then 0xFF else 0)"
  by (auto simp: LT_def GE_def LE_def GT_mask EQ_mask)

lemma uint_add_small: "unat x + k < 2 ^ 32 \<Longrightarrow> k < 2 ^ 32 \<Longrightarrow> unat (x + of_nat k :: uint) = unat x + k"
  by (simp add: unat_word_ariths unat_of_nat)

lemma b64_byte_char:
  assumes "n < 64"
  shows "b64_byte_to_char (of_nat n) = of_nat (if n < 26 then n + 65 else if n < 52 then n + 71
    else if n < 62 then n - 4 else if n = 62 then 43 else 47)"
    and "b64_byte_to_urlsafe_char (of_nat n) = of_nat (if n < 26 then n + 65 else if n < 52 then n + 71
    else if n < 62 then n - 4 else if n = 62 then 45 else 95)"
proof -
  let ?x = "of_nat n :: uint"
  have u: "unat ?x = n" using assms by (simp add: unat_of_nat)
  have a: "?x + 65 = of_nat (n + 65)" "?x + 71 = of_nat (n + 71)" "52 \<le> n \<Longrightarrow> ?x - 4 = of_nat (n - 4)"
    by (auto simp: of_nat_diff)
  have [simp]: "k < 256 \<Longrightarrow> 0xFF AND (of_nat k :: uint) = of_nat k" for k
    by (simp add: and.commute AND_255_self unat_of_nat)
  have "52 \<le> n \<Longrightarrow> ?x + (48 - 52) = of_nat (n - 4)" using a(3) by (simp add: algebra_simps)
  note a = a this
  have c: "?x < 26 \<longleftrightarrow> n < 26" "?x < 52 \<longleftrightarrow> n < 52" "?x < 62 \<longleftrightarrow> n < 62" "26 \<le> ?x \<longleftrightarrow> 26 \<le> n"
    "52 \<le> ?x \<longleftrightarrow> 52 \<le> n" "?x = 62 \<longleftrightarrow> n = 62" "?x = 63 \<longleftrightarrow> n = 63"
    using u by (simp_all add: word_less_nat_alt word_le_nat_alt word_unat_eq_iff)
  consider "n < 26" | "26 \<le> n" "n < 52" | "52 \<le> n" "n < 62" | "n = 62" | "n = 63" using assms by linarith
  then show "b64_byte_to_char (of_nat n) = of_nat (if n < 26 then n + 65 else if n < 52 then n + 71
      else if n < 62 then n - 4 else if n = 62 then 43 else 47)"
    by cases (simp_all add: mask_values b64_byte_to_char_def u a c del: of_nat_add of_nat_diff)
  consider "n < 26" | "26 \<le> n" "n < 52" | "52 \<le> n" "n < 62" | "n = 62" | "n = 63" using assms by linarith
  then show "b64_byte_to_urlsafe_char (of_nat n) = of_nat (if n < 26 then n + 65 else if n < 52 then n + 71
      else if n < 62 then n - 4 else if n = 62 then 45 else 95)"
    by cases (simp_all add: mask_values b64_byte_to_urlsafe_char_def u a c del: of_nat_add of_nat_diff)
qed


lemma uint_of_int_small: "0 \<le> c \<Longrightarrow> c < 256 \<Longrightarrow> uint (of_int c :: uint) = c"
  by (simp add: uint_word_of_int)

lemma unat_of_int_small: "0 \<le> c \<Longrightarrow> c < 256 \<Longrightarrow> unat (of_int c :: uint) = nat c"
  by (metis nat_uint_eq uint_of_int_small)

lemma of_int_uint_order:
  assumes "0 \<le> c" "c < 256"
  shows "of_int c \<le> (numeral k :: uint) \<longleftrightarrow> c \<le> uint (numeral k :: uint)"
    "numeral k \<le> (of_int c :: uint) \<longleftrightarrow> uint (numeral k :: uint) \<le> c"
    "of_int c = (numeral k :: uint) \<longleftrightarrow> c = uint (numeral k :: uint)"
  using uint_of_int_small [OF assms] by (simp_all only: word_le_def word_uint_eq_iff)

lemma AND_255_of_int: "0 \<le> k \<Longrightarrow> k < 256 \<Longrightarrow> 0xFF AND (of_int k :: uint) = of_int k"
  by (simp add: and.commute AND_255_self unat_of_int_small)

lemma EQ_of_int_0: "0 \<le> k \<Longrightarrow> k < 256 \<Longrightarrow> EQ (of_int k) 0 = (if k = 0 then 0xFF else 0)"
  using uint_of_int_small [of k] unat_of_int_small [of k] by (auto simp: word_uint_eq_iff)

lemma b64_char_byte:
  assumes "0 \<le> c" "c < 128"
  shows "b64_char_to_byte c = of_int (if 65 \<le> c \<and> c \<le> 90 then c - 65 else if 97 \<le> c \<and> c \<le> 122 then c - 71
      else if 48 \<le> c \<and> c \<le> 57 then c + 4 else if c = 43 then 62 else if c = 47 then 63 else 255)"
proof -
  have u: "unat (of_int c :: uint) < 256" "c < 256" using assms by (simp_all add: unat_of_int_small)
  note s = b64_char_to_byte_def Let_def of_int_uint_order [OF assms(1) u(2)] u assms AND_255_of_int EQ_of_int_0
  consider "65 \<le> c" "c \<le> 90" | "97 \<le> c" "c \<le> 122" | "48 \<le> c" "c \<le> 57" | "c = 43" | "c = 47"
    | "\<not> (65 \<le> c \<and> c \<le> 90)" "\<not> (97 \<le> c \<and> c \<le> 122)" "\<not> (48 \<le> c \<and> c \<le> 57)" "c \<noteq> 43" "c \<noteq> 47" by blast
  then show ?thesis by cases (simp_all add: s del: of_int_diff of_int_add, auto)
qed

lemma b64_urlsafe_char_byte:
  assumes "0 \<le> c" "c < 128"
  shows "b64_urlsafe_char_to_byte c = of_int (if 65 \<le> c \<and> c \<le> 90 then c - 65 else if 97 \<le> c \<and> c \<le> 122 then c - 71
      else if 48 \<le> c \<and> c \<le> 57 then c + 4 else if c = 45 then 62 else if c = 95 then 63 else 255)"
proof -
  have u: "unat (of_int c :: uint) < 256" "c < 256" using assms by (simp_all add: unat_of_int_small)
  note s = b64_urlsafe_char_to_byte_def Let_def of_int_uint_order [OF assms(1) u(2)] u assms AND_255_of_int EQ_of_int_0
  consider "65 \<le> c" "c \<le> 90" | "97 \<le> c" "c \<le> 122" | "48 \<le> c" "c \<le> 57" | "c = 45" | "c = 95"
    | "\<not> (65 \<le> c \<and> c \<le> 90)" "\<not> (97 \<le> c \<and> c \<le> 122)" "\<not> (48 \<le> c \<and> c \<le> 57)" "c \<noteq> 45" "c \<noteq> 95" by blast
  then show ?thesis by cases (simp_all add: s del: of_int_diff of_int_add, auto)
qed

text \<open>
  On the values outside 0..255 that a negative \<open>char\<close> is converted to, \<open>EQ\<close> is always true.
\<close>

lemma negative_masks:
  assumes "- 128 \<le> c" "c < 0" "k < 128"
  shows "GE (of_int c) (of_nat k) = 0" "EQ (of_int c) (of_nat k) = 0xFF"
proof -
  let ?w = "of_int (int k - c) :: uint"
  have w: "unat ?w = nat (int k - c)" using assms by (intro unat_of_int_small) auto
  then have "0 < unat ?w" "unat ?w < 256" using assms by auto
  from drop_8_negative [OF this] show "GE (of_int c) (of_nat k) = 0" by (simp add: GE_def GT_def)
  let ?a = "of_int (- c - 1) :: uint"
  have u: "of_int c = NOT ?a" by (simp add: not_eq_complement)
  have "unat ?a = nat (- c - 1)" using assms by (intro unat_of_int_small) auto
  moreover have "unat (of_nat k :: uint) = k" using assms by (simp add: unat_of_nat)
  ultimately have "unat ?a < 128" "unat (of_nat k :: uint) < 128" using assms by auto
  then have "take_bit 7 ?a = ?a" "take_bit 7 (of_nat k :: uint) = of_nat k"
    by (simp_all only: word_unat_eq_iff unsigned_take_bit_eq) (simp_all add: take_bit_nat_eq_self)
  then have "take_bit 7 (?a XOR of_nat k) = ?a XOR of_nat k" by (simp only: take_bit_xor)
  then have "unat (?a XOR of_nat k) = take_bit 7 (unat (?a XOR of_nat k))" by (metis unsigned_take_bit_eq)
  then have "unat (?a XOR of_nat k) < 128" using take_bit_nat_less_exp [of 7 "unat (?a XOR of_nat k)"] by simp
  then have "unat ((?a XOR of_nat k) + 1) < 256" by (simp add: unat_word_ariths)
  from drop_8_small [OF this]
  show "EQ (of_int c) (of_nat k) = 0xFF" unfolding EQ_def u by (simp add: bit.xor_compl_left minus_eq_not_plus_1)
qed

lemma b64_negative_char:
  assumes "- 128 \<le> c" "c < 0"
  shows "b64_char_to_byte c = 63" "b64_urlsafe_char_to_byte c = 63"
  using negative_masks [OF assms, of 65] negative_masks [OF assms, of 97] negative_masks [OF assms, of 48]
    negative_masks [OF assms, of 43] negative_masks [OF assms, of 47] negative_masks [OF assms, of 45]
    negative_masks [OF assms, of 95]
  by (simp_all add: b64_char_to_byte_def b64_urlsafe_char_to_byte_def Let_def)

section \<open>Sextets\<close>

text \<open>The reference: the bit stream of the bytes cut into groups of six, the last one filled with zeros.\<close>

fun sextets :: "nat list \<Rightarrow> nat list" where
  "sextets (a # b # c # r) =
     [a div 4, 16 * (a mod 4) + b div 16, 4 * (b mod 16) + c div 64, c mod 64] @ sextets r"
| "sextets [a, b] = [a div 4, 16 * (a mod 4) + b div 16, 4 * (b mod 16)]"
| "sextets [a] = [a div 4, 16 * (a mod 4)]"
| "sextets [] = []"

lemma sextets_small: "list_all (\<lambda>b. b < 256) bs \<Longrightarrow> list_all (\<lambda>d. d < 64) (sextets bs)"
  by (induction bs rule: sextets.induct) (auto simp: less_mult_imp_div_less)

text \<open>The accumulator: only its low bits matter.\<close>

lemma acc_push:
  assumes "n + k \<le> 32" "unat x < 2 ^ k"
  shows "unat (push_bit k acc + x :: uint) mod 2 ^ (n + k) = (unat acc mod 2 ^ n) * 2 ^ k + unat x"
proof -
  have "(2 :: nat) ^ (n + k) dvd 2 ^ 32" by (rule le_imp_power_dvd [OF assms(1)])
  moreover have "unat (push_bit k acc + x) = (unat acc * 2 ^ k + unat x) mod 2 ^ 32"
  proof -
    have "push_bit k acc + x = of_nat (unat acc * 2 ^ k + unat x)" by (simp add: push_bit_eq_mult)
    then show ?thesis by (simp only: unat_of_nat) simp
  qed
  ultimately have "unat (push_bit k acc + x) mod 2 ^ (n + k) = (unat acc * 2 ^ k + unat x) mod (2 ^ k * 2 ^ n)"
    by (simp add: mod_mod_cancel power_add mult.commute)
  then show ?thesis using assms(2) by (simp add: mod_mult2_eq)
qed

lemma acc_bits:
  "drop_bit j w AND mask k = (of_nat (unat w mod 2 ^ (j + k) div 2 ^ j) :: uint)"
proof -
  have "unat (drop_bit j w AND mask k) = take_bit k (drop_bit j (unat w))"
    by (simp only: take_bit_eq_mask [symmetric] unsigned_take_bit_eq unat_drop_bit_eq)
  also have "\<dots> = unat w div 2 ^ j mod 2 ^ k" by (simp only: take_bit_eq_mod drop_bit_eq_div)
  also have "\<dots> = unat w mod 2 ^ (j + k) div 2 ^ j" by (simp add: power_add mod_mult2_eq)
  finally have "(of_nat (unat (drop_bit j w AND mask k)) :: uint) = of_nat (unat w mod 2 ^ (j + k) div 2 ^ j)"
    by (rule arg_cong)
  then show ?thesis by simp
qed

lemmas acc_sextet = acc_bits [of _ _ 6, simplified mask_eq_exp_minus_1, simplified]
lemmas acc_byte = acc_bits [of _ _ 8, simplified mask_eq_exp_minus_1, simplified]

text \<open>The part of a buffer that has been filled from its start.\<close>

definition filled :: "'a list \<Rightarrow> 'a list \<Rightarrow> 'a list" where
  "filled buf xs = xs @ drop (length xs) buf"

lemma wr_filled:
  "length xs < length buf \<Longrightarrow> wr (filled buf xs) (length xs) x = Some (filled buf (xs @ [x]))"
  using Cons_nth_drop_Suc [of "length xs" buf, symmetric] by (simp add: wr_def filled_def list_update_append)

lemma filled_Nil [simp]: "filled buf [] = buf"
  by (simp add: filled_def)

lemma length_filled [simp]: "length xs \<le> length buf \<Longrightarrow> length (filled buf xs) = length buf"
  by (simp add: filled_def)

section \<open>Encoding\<close>

definition encode_from ::
  "(uint \<Rightarrow> uint) \<Rightarrow> byte list \<Rightarrow> nat \<Rightarrow> nat \<Rightarrow> uint \<Rightarrow> nat \<Rightarrow> string \<Rightarrow> nat \<Rightarrow> (string \<times> nat) option" where
  "encode_from to_char bin bin_len i acc acc_len b64 b64_pos = do {
     (acc, acc_len, b64, b64_pos) \<leftarrow> b64_encode_loop to_char bin bin_len i acc acc_len b64 b64_pos;
     if acc_len > 0 then do {
       b64 \<leftarrow> wr b64 b64_pos (byte_char (ucast (to_char (push_bit (6 - acc_len) acc AND 0x3F))));
       Some (b64, b64_pos + 1)
     } else Some (b64, b64_pos)
   }"

lemma b64_encode_text_from: "b64_encode_text to_char bin n b64 = encode_from to_char bin n 0 0 0 b64 0"
  by (simp add: b64_encode_text_def encode_from_def)

lemma encode_from_Cons:
  assumes "drop i (take n bin) = v # rest"
  shows "encode_from to_char bin n i acc acc_len b64 pos =
    do { (acc_len, b64, pos) \<leftarrow> b64_emit to_char (push_bit 8 acc + ucast v) (acc_len + 8) b64 pos;
         encode_from to_char bin n (i + 1) (push_bit 8 acc + ucast v) acc_len b64 pos }"
proof -
  have "i < n" "i < length bin" "bin ! i = v" using drop_eq_Cons [OF assms] by auto
  then have "rd bin i = Some v" "i < n" by (simp_all add: rd_nth)
  then show ?thesis unfolding encode_from_def
    by (subst b64_encode_loop.simps) (simp add: Let_def split: option.splits)
qed

lemma encode_from_Nil:
  "drop i (take n bin) = [] \<Longrightarrow> n \<le> length bin \<Longrightarrow> encode_from to_char bin n i acc acc_len b64 pos =
    (if acc_len > 0 then do {
       b64 \<leftarrow> wr b64 pos (byte_char (ucast (to_char (push_bit (6 - acc_len) acc AND 0x3F))));
       Some (b64, pos + 1)
     } else Some (b64, pos))"
  unfolding encode_from_def by (subst b64_encode_loop.simps) simp

definition digit :: "(uint \<Rightarrow> uint) \<Rightarrow> nat \<Rightarrow> char" where
  "digit to_char d = byte_char (ucast (to_char (of_nat d)))"

lemma b64_emit_none: "l < 6 \<Longrightarrow> b64_emit to_char acc l b64 pos = Some (l, b64, pos)"
  by (subst b64_emit.simps) simp

lemma b64_emit_one:
  assumes "6 \<le> l" "l < 12" "length out < length b0" "unat acc mod 2 ^ l = v"
  shows "b64_emit to_char acc l (filled b0 out) (length out) =
    Some (l - 6, filled b0 (out @ [digit to_char (v div 2 ^ (l - 6))]), length out + 1)"
  using assms acc_sextet [of "l - 6" acc]
  by (subst b64_emit.simps) (simp add: wr_filled digit_def b64_emit_none)

lemma b64_emit_two:
  assumes "length out + 1 < length b0" "unat acc mod 2 ^ 12 = v"
  shows "b64_emit to_char acc 12 (filled b0 out) (length out) =
    Some (0, filled b0 (out @ [digit to_char (v div 64), digit to_char (v mod 64)]), length out + 2)"
proof -
  have "v mod 64 = unat acc mod 2 ^ 6" using assms(2) by (auto simp: mod_mod_cancel)
  then have "b64_emit to_char acc 6 (filled b0 (out @ [d])) (length (out @ [d])) =
      Some (6 - 6, filled b0 ((out @ [d]) @ [digit to_char (v mod 64 div 2 ^ (6 - 6))]), length (out @ [d]) + 1)" for d
    using assms by (intro b64_emit_one) simp_all
  then show ?thesis using assms acc_sextet [of 6 acc]
    by (subst b64_emit.simps) (simp add: wr_filled digit_def)
qed

lemma unat_byte: "unat (v :: byte) < 256"
  using unsigned_less [of v] by simp

lemma unat_ucast_byte [simp]: "unat (ucast (v :: byte) :: uint) = unat v"
  using unat_byte [of v] by (simp only: unsigned_ucast_eq) (simp add: take_bit_nat_eq_self)

lemma push_byte:
  assumes "l \<le> 24" "unat acc mod 2 ^ l = w"
  shows "unat (push_bit 8 acc + ucast v :: uint) mod 2 ^ (l + 8) = w * 256 + unat (v :: byte)"
  using acc_push [of l 8 "ucast v" acc] assms unat_byte [of v] by simp

lemma push_byte_low:
  assumes "k \<le> 8"
  shows "unat (push_bit 8 acc + ucast v :: uint) mod 2 ^ k = unat (v :: byte) mod 2 ^ k"
proof -
  have "(2 :: nat) ^ k dvd 2 ^ 8" by (rule le_imp_power_dvd [OF assms])
  then have "unat (push_bit 8 acc + ucast v :: uint) mod 2 ^ k = unat (push_bit 8 acc + ucast v :: uint) mod 2 ^ 8 mod 2 ^ k"
    by (simp only: mod_mod_cancel)
  then show ?thesis using push_byte [of 0 acc 0 v] by simp
qed

lemma encode_from_one:
  assumes "drop i (take n bin) = v # rest" "length out < length b0" "unat acc mod 2 ^ l = w" "l < 4"
  shows "encode_from to_char bin n i acc l (filled b0 out) (length out) =
    encode_from to_char bin n (i + 1) (push_bit 8 acc + ucast v) (l + 2)
      (filled b0 (out @ [digit to_char ((w * 256 + unat v) div 2 ^ (l + 2))])) (length out + 1)"
  using assms b64_emit_one [of "l + 8" out b0 "push_bit 8 acc + ucast v" "w * 256 + unat v" to_char]
    push_byte [of l acc w v]
  by (simp add: encode_from_Cons)

lemma encode_from_two:
  assumes "drop i (take n bin) = v # rest" "length out + 1 < length b0" "unat acc mod 2 ^ 4 = w"
  shows "encode_from to_char bin n i acc 4 (filled b0 out) (length out) =
    encode_from to_char bin n (i + 1) (push_bit 8 acc + ucast v) 0
      (filled b0 (out @ [digit to_char ((w * 256 + unat v) div 64), digit to_char ((w * 256 + unat v) mod 64)]))
      (length out + 2)"
  using assms b64_emit_two [of out b0 "push_bit 8 acc + ucast v" "w * 256 + unat v" to_char]
    push_byte [of 4 acc w v]
  by (simp add: encode_from_Cons)

lemma encode_from_rest:
  assumes "drop i (take n bin) = []" "n \<le> length bin" "length out < length b0" "unat acc mod 2 ^ l = w" "0 < l" "l < 6"
  shows "encode_from to_char bin n i acc l (filled b0 out) (length out) =
    Some (filled b0 (out @ [digit to_char (w * 2 ^ (6 - l))]), length out + 1)"
proof -
  have "unat (push_bit (6 - l) acc + 0 :: uint) mod 2 ^ (l + (6 - l)) = w * 2 ^ (6 - l) + unat (0 :: uint)"
    using acc_push [of l "6 - l" 0 acc] assms by simp
  then have "push_bit (6 - l) acc AND 0x3F = of_nat (w * 2 ^ (6 - l))"
    using acc_sextet [of 0 "push_bit (6 - l) acc"] assms by simp
  then show ?thesis using assms by (simp add: encode_from_Nil wr_filled digit_def)
qed

text \<open>The three positions of a byte in its group.\<close>

lemma encode_first:
  assumes "drop i (take n bin) = a # rest" "length out < length b0"
  shows "encode_from to_char bin n i acc 0 (filled b0 out) (length out) =
    encode_from to_char bin n (Suc i) (push_bit 8 acc + ucast a) 2
      (filled b0 (out @ [digit to_char (unat a div 4)])) (Suc (length out))"
  using encode_from_one [OF assms, of acc 0 0 to_char] by (simp add: numeral_2_eq_2)

lemma encode_second:
  assumes "drop i (take n bin) = b # rest" "length out < length b0" "unat acc mod 4 = w"
  shows "encode_from to_char bin n i acc 2 (filled b0 out) (length out) =
    encode_from to_char bin n (Suc i) (push_bit 8 acc + ucast b) 4
      (filled b0 (out @ [digit to_char (16 * w + unat b div 16)])) (Suc (length out))"
proof -
  have "(w * 256 + unat b) div 16 = 16 * w + unat b div 16" by (simp add: div_add1_eq)
  then show ?thesis using encode_from_one [OF assms(1,2), of acc 2 w to_char] assms(3) by simp
qed

lemma encode_third:
  assumes "drop i (take n bin) = c # rest" "length out + 1 < length b0" "unat acc mod 16 = w"
  shows "encode_from to_char bin n i acc 4 (filled b0 out) (length out) =
    encode_from to_char bin n (Suc i) (push_bit 8 acc + ucast c) 0
      (filled b0 (out @ [digit to_char (4 * w + unat c div 64), digit to_char (unat c mod 64)])) (length out + 2)"
proof -
  have "(w * 256 + unat c) div 64 = 4 * w + unat c div 64" by (simp add: div_add1_eq)
  moreover have "(w * 256 + unat c) mod 64 = unat c mod 64"
    using mod_mult_self3 [of "w * 4" 64 "unat c"] by (simp add: mult.assoc)
  ultimately show ?thesis using encode_from_two [OF assms(1,2), of acc w to_char] assms(3) by simp
qed

lemma drop_Suc_eq: "drop i xs = x # ys \<Longrightarrow> drop (Suc i) xs = ys"
  by (simp add: drop_eq_Cons)

lemma encode_from_text:
  assumes "drop i (take n bin) = rest" "n \<le> length bin"
    "length out + length (sextets (map unat rest)) \<le> length b0"
  shows "encode_from to_char bin n i acc 0 (filled b0 out) (length out) =
    Some (filled b0 (out @ map (digit to_char) (sextets (map unat rest))),
          length out + length (sextets (map unat rest)))"
  using assms
proof (induction "map unat rest" arbitrary: rest i acc out rule: sextets.induct)
  case (1 na nb nc nr)
  then obtain a b c r where r: "rest = a # b # c # r" "nr = map unat r" by auto
  have d: "drop i (take n bin) = a # b # c # r" "drop (Suc i) (take n bin) = b # c # r"
    "drop (Suc (Suc i)) (take n bin) = c # r" "drop (Suc (Suc (Suc i))) (take n bin) = r"
    using 1(3) r(1) by (auto dest!: drop_Suc_eq)
  let ?a1 = "push_bit 8 acc + ucast a :: uint" and ?d1 = "unat a div 4"
  let ?a2 = "push_bit 8 ?a1 + ucast b :: uint" and ?d2 = "16 * (unat a mod 4) + unat b div 16"
  let ?a3 = "push_bit 8 ?a2 + ucast c :: uint" and ?d3 = "4 * (unat b mod 16) + unat c div 64"
  let ?o = "out @ map (digit to_char) [?d1, ?d2, ?d3, unat c mod 64]"
  have "encode_from to_char bin n i acc 0 (filled b0 out) (length out) =
      encode_from to_char bin n (Suc (Suc (Suc i))) ?a3 0 (filled b0 ?o) (length ?o)"
    using 1(5) encode_first [OF d(1), of out b0 to_char acc]
      encode_second [OF d(2), of "out @ [digit to_char ?d1]" b0 ?a1 "unat a mod 4" to_char]
      encode_third [OF d(3), of "out @ [digit to_char ?d1, digit to_char ?d2]" b0 ?a2 "unat b mod 16" to_char]
      push_byte_low [of 2 acc a] push_byte_low [of 4 ?a1 b]
    by (simp add: r(1))
  also have "\<dots> = Some (filled b0 (?o @ map (digit to_char) (sextets (map unat r))),
      length ?o + length (sextets (map unat r)))"
    using 1(5) r(1) d(4) 1(4) by (intro 1(1) [OF r(2)]) auto
  finally show ?case by (simp add: r(1))
next
  case (2 na nb)
  then obtain a b where r: "rest = [a, b]" by auto
  have d: "drop i (take n bin) = [a, b]" "drop (Suc i) (take n bin) = [b]" "drop (Suc (Suc i)) (take n bin) = []"
    using 2(2) r by (auto dest!: drop_Suc_eq)
  let ?a1 = "push_bit 8 acc + ucast a :: uint" and ?d1 = "unat a div 4"
  let ?a2 = "push_bit 8 ?a1 + ucast b :: uint" and ?d2 = "16 * (unat a mod 4) + unat b div 16"
  show ?case
    using 2(3,4) encode_first [OF d(1), of out b0 to_char acc]
      encode_second [OF d(2), of "out @ [digit to_char ?d1]" b0 ?a1 "unat a mod 4" to_char]
      encode_from_rest [OF d(3) 2(3), of "out @ [digit to_char ?d1, digit to_char ?d2]" b0 ?a2 4 "unat b mod 16" to_char]
      push_byte_low [of 2 acc a] push_byte_low [of 4 ?a1 b]
    by (simp add: r mult.commute)
next
  case (3 na)
  then obtain a where r: "rest = [a]" by auto
  have d: "drop i (take n bin) = [a]" "drop (Suc i) (take n bin) = []"
    using 3(2) r by (auto dest!: drop_Suc_eq)
  let ?a1 = "push_bit 8 acc + ucast a :: uint"
  show ?case
    using 3(3,4) encode_first [OF d(1), of out b0 to_char acc]
      encode_from_rest [OF d(2) 3(3), of "out @ [digit to_char (unat a div 4)]" b0 ?a1 2 "unat a mod 4" to_char]
      push_byte_low [of 2 acc a]
    by (simp add: r mult.commute)
next
  case 4
  then show ?case by (simp add: encode_from_Nil)
qed

section \<open>Lengths\<close>

lemma length_sextets: "length (sextets bs) = (4 * length bs + 2) div 3"
  by (induction bs rule: sextets.induct) auto

definition no_padding :: "int \<Rightarrow> bool" where
  "no_padding variant \<longleftrightarrow> of_int variant AND VARIANT_NO_PADDING_MASK \<noteq> 0"

lemma ucast_minus_1: "ucast (- 1 :: uint) = (0xFFFFFFFF :: 64 word)"
  by code_simp

lemma padding_mask:
  "ucast (NOT (drop_bit 1 (of_int variant AND (2 :: uint)) - 1)) = (if no_padding variant then 0xFFFFFFFF else (0 :: 64 word))"
proof -
  let ?w = "of_int variant AND (2 :: uint)"
  have "?w = 0 \<or> ?w = 2"
  proof (cases "bit (of_int variant :: uint) 1")
    case True
    then have "?w = 2" by (intro bit_word_eqI) (auto simp: bit_simps bit_numeral_rec split: nat.splits)
    then show ?thesis ..
  next
    case False
    then have "?w = 0" by (intro bit_word_eqI) (auto simp: bit_simps bit_numeral_rec split: nat.splits, metis neq0_conv)
    then show ?thesis ..
  qed
  then show ?thesis unfolding no_padding_def VARIANT_NO_PADDING_MASK_def by (elim disjE) (simp_all only:, simp_all add: ucast_minus_1)
qed

lemma encoded_len:
  assumes "n < 2 ^ 60"
  shows "unat (base64_ENCODED_LEN (of_nat n) variant) =
    (if no_padding variant then (4 * n + 2) div 3 + 1 else 4 * ((n + 2) div 3) + 1)"
proof -
  let ?n = "of_nat n :: 64 word"
  have n: "unat ?n = n" using assms by (simp add: unat_of_nat)
  have d: "?n div 3 = of_nat (n div 3)"
    using assms n by (simp add: word_unat_eq_iff unat_div unat_of_nat)
  have r: "?n - of_nat (n div 3) * 3 = of_nat (n mod 3)"
  proof -
    have "?n = of_nat (n div 3) * 3 + of_nat (n mod 3)"
      by (metis div_mult_mod_eq of_nat_add of_nat_mult of_nat_numeral)
    then show ?thesis by (metis add_diff_cancel_left')
  qed
  consider "n mod 3 = 0" | "n mod 3 = 1" | "n mod 3 = 2" by linarith
  then have "base64_ENCODED_LEN ?n variant =
      of_nat (if no_padding variant then (4 * n + 2) div 3 + 1 else 4 * ((n + 2) div 3) + 1)"
  proof cases
    case 1
    then obtain k where k: "n = 3 * k" by auto
    then have "(4 * n + 2) div 3 = 4 * k" "(n + 2) div 3 = k" "n div 3 = k" by auto
    then show ?thesis unfolding base64_ENCODED_LEN_def Let_def padding_mask d r 1 by simp
  next
    case 2
    then obtain k where k: "n = 3 * k + 1" by (metis mult_div_mod_eq)
    then have "(4 * n + 2) div 3 = 4 * k + 2" "(n + 2) div 3 = k + 1" "n div 3 = k" by auto
    then show ?thesis unfolding base64_ENCODED_LEN_def Let_def padding_mask d r 2 by simp
  next
    case 3
    then obtain k where k: "n = 3 * k + 2" by (metis mult_div_mod_eq)
    then have "(4 * n + 2) div 3 = 4 * k + 3" "(n + 2) div 3 = k + 1" "n div 3 = k" by auto
    then show ?thesis unfolding base64_ENCODED_LEN_def Let_def padding_mask d r 3 by simp
  qed
  then show ?thesis using assms by (simp add: unat_of_nat)
qed

lemma encoded_len_valid:
  assumes "n < 2 ^ 60" "base64_check_variant variant"
  shows "iwn_base64_encoded_len n variant =
    (if no_padding variant then (4 * n + 2) div 3 + 1 else 4 * ((n + 2) div 3) + 1)"
  using assms by (simp add: iwn_base64_encoded_len_def encoded_len)

lemma b64_pad_filled:
  "length out \<le> n \<Longrightarrow> n \<le> length b0 \<Longrightarrow>
     b64_pad (filled b0 out) (length out) n = Some (filled b0 (out @ replicate (n - length out) (CHR ''='')))"
proof (induction "n - length out" arbitrary: out)
  case 0
  then show ?case by (subst b64_pad.simps) simp
next
  case (Suc k)
  then have "replicate (n - length out) (CHR ''='') = CHR ''='' # replicate (n - length (out @ [CHR ''=''])) (CHR ''='')"
    by (simp add: replicate_Suc [symmetric] del: replicate_Suc)
  moreover have "length out < n" using Suc by simp
  ultimately show ?case using Suc Suc(1) [of "out @ [CHR ''='']"] by (subst b64_pad.simps) (simp add: wr_filled)
qed

text \<open>The text \<open>iwn_base64_encode\<close> writes in front of the terminator.\<close>

definition b64_text :: "int \<Rightarrow> byte list \<Rightarrow> string" where
  "b64_text variant bs =
     map (digit (if of_int variant AND VARIANT_URLSAFE_MASK \<noteq> 0 then b64_byte_to_urlsafe_char else b64_byte_to_char))
       (sextets (map unat bs)) @
     (if no_padding variant then [] else replicate (4 * ((length bs + 2) div 3) - (4 * length bs + 2) div 3) (CHR ''=''))"

lemma text_len_le: "(4 * n + 2) div 3 \<le> 4 * ((n + 2) div 3)" for n :: nat
  by presburger

lemma iwn_base64_encode_text:
  assumes "base64_check_variant variant" "length bin < 2 ^ 60" "iwn_base64_encoded_len (length bin) variant \<le> b64_maxlen"
    "b64_maxlen \<le> length b64"
  shows "iwn_base64_encode b64 b64_maxlen bin (length bin) variant =
    Some (Some (filled b64 (b64_text variant bin @ [NUL])), length (b64_text variant bin) + 1)"
proof -
  define f where "f = (if of_int variant AND VARIANT_URLSAFE_MASK \<noteq> 0 then b64_byte_to_urlsafe_char else b64_byte_to_char)"
  let ?n = "length bin" and ?t = "map (digit f) (sextets (map unat bin))"
  let ?l = "iwn_base64_encoded_len ?n variant"
  note l = encoded_len_valid [OF assms(2,1)]
  have t: "length ?t = (4 * ?n + 2) div 3" by (simp add: length_sextets)
  have bt: "b64_text variant bin = ?t @ replicate (?l - 1 - length ?t) (CHR ''='')"
    by (simp add: b64_text_def l length_sextets f_def [symmetric])
  have le: "length ?t \<le> ?l - 1" "0 < ?l" using l text_len_le [of ?n] by (auto simp: length_sextets)
  have lt: "?l < 2 ^ 64" using l assms(2) by (auto split: if_splits)
  have "(of_nat ?l :: 64 word) - 1 = of_nat (?l - 1)" using le(2) by (simp add: of_nat_diff)
  then have e: "unat (of_nat ?l - 1 :: 64 word) = ?l - 1" using lt by (simp add: unat_of_nat)
  have "length ?t \<le> length b64" using le assms(3,4) by linarith
  then have "b64_encode_text f bin ?n b64 = Some (filled b64 ?t, length ?t)"
    using encode_from_text [of 0 ?n bin bin "[]" b64 f 0] by (simp add: b64_encode_text_from)
  then have enc: "(if of_int variant AND VARIANT_URLSAFE_MASK \<noteq> 0 then b64_encode_text b64_byte_to_urlsafe_char bin ?n b64
      else b64_encode_text b64_byte_to_char bin ?n b64) = Some (filled b64 ?t, length ?t)"
    by (auto simp: f_def)
  have pad: "b64_pad (filled b64 ?t) (length ?t) (?l - 1) = Some (filled b64 (b64_text variant bin))"
    using le assms(3,4) bt by (subst b64_pad_filled) auto
  have len: "length (b64_text variant bin) = ?l - 1" using bt le by simp
  then have "wr (filled b64 (b64_text variant bin)) (?l - 1) NUL = Some (filled b64 (b64_text variant bin @ [NUL]))"
    using wr_filled [of "b64_text variant bin" b64 NUL] le assms(3,4) by simp
  then show ?thesis using assms(3) le len
    unfolding iwn_base64_encode_def Let_def e enc using pad by simp
qed

section \<open>Decoding\<close>

text \<open>What decoding relies on: digits are recognised, the padding sign is not one.\<close>

locale b64_alphabet =
  fixes to_char :: "uint \<Rightarrow> uint" and to_byte :: "int \<Rightarrow> uint"
  assumes digit_back: "d < 64 \<Longrightarrow> to_byte (cval (digit to_char d)) = of_nat d"
    and pad_no_digit: "to_byte (cval (CHR ''='')) = 0xFF"

definition dec_st :: "byte list \<Rightarrow> nat \<Rightarrow> nat \<Rightarrow> byte list \<Rightarrow> uint \<Rightarrow> b64_st" where
  "dec_st bin l pos out acc =
     \<lparr>bs_acc_len = l, bs_b64_pos = pos, bs_bin_pos = length out, bs_ret = 0, bs_acc = acc, bs_bin = filled bin out\<rparr>"

lemma push_sextet:
  assumes "l \<le> 26" "unat acc mod 2 ^ l = w" "d < 64"
  shows "unat (push_bit 6 acc + of_nat d :: uint) mod 2 ^ (l + 6) = w * 64 + d"
  using acc_push [of l 6 "of_nat d" acc] assms by (simp add: unat_of_nat)

lemma push_sextet_low:
  assumes "k \<le> 6" "d < 64"
  shows "unat (push_bit 6 acc + of_nat d :: uint) mod 2 ^ k = d mod 2 ^ k"
proof -
  have "(2 :: nat) ^ k dvd 2 ^ 6" by (rule le_imp_power_dvd [OF assms(1)])
  then have "unat (push_bit 6 acc + of_nat d :: uint) mod 2 ^ k = unat (push_bit 6 acc + of_nat d :: uint) mod 2 ^ 6 mod 2 ^ k"
    by (simp only: mod_mod_cancel)
  then show ?thesis using push_sextet [of 0 acc 0 d] assms(2) by simp
qed

lemma ucast_of_nat_byte [simp]: "(ucast (of_nat k :: uint) :: byte) = of_nat k"
proof -
  have "take_bit 8 (k mod 2 ^ 32) = k mod 2 ^ 8" by (simp add: take_bit_eq_mod mod_mod_cancel)
  then show ?thesis by (simp add: word_unat_eq_iff unsigned_ucast_eq unat_of_nat)
qed

lemma sextet_not_error: "d < 64 \<Longrightarrow> (of_nat d :: uint) \<noteq> 0xFF"
  by (simp add: word_unat_eq_iff unat_of_nat)

text \<open>The number of fill bits behind \<open>n\<close> bytes.\<close>

definition left_bits :: "nat \<Rightarrow> nat" where
  "left_bits n = (if n mod 3 = 0 then 0 else if n mod 3 = 1 then 4 else 2)"

lemma left_bits_simps [simp]:
  "left_bits 0 = 0" "left_bits (Suc 0) = 4" "left_bits (Suc (Suc 0)) = 2" "left_bits (Suc (Suc (Suc n))) = left_bits n"
proof -
  have "Suc (Suc (Suc n)) mod 3 = n mod 3" by presburger
  then show "left_bits (Suc (Suc (Suc n))) = left_bits n" by (simp add: left_bits_def)
qed (simp_all add: left_bits_def)

context b64_alphabet
begin

lemma decode_push:
  assumes "rd b64 pos = Some (digit to_char d)" "d < 64" "pos < n"
  shows "b64_decode_loop to_byte m b64 n ignore (dec_st bin 0 pos out acc) =
    b64_decode_loop to_byte m b64 n ignore (dec_st bin 6 (Suc pos) out (push_bit 6 acc + of_nat d))"
  using assms digit_back [of d] sextet_not_error [of d]
  by (subst b64_decode_loop.simps) (simp add: dec_st_def Let_def)

lemma decode_emit:
  assumes "rd b64 pos = Some (digit to_char d)" "d < 64" "pos < n"
    and "2 \<le> l" "l \<le> 6" "unat acc mod 2 ^ l = w" "length out < m" "m \<le> length bin"
  shows "b64_decode_loop to_byte m b64 n ignore (dec_st bin l pos out acc) =
    b64_decode_loop to_byte m b64 n ignore
      (dec_st bin (l - 2) (Suc pos) (out @ [of_nat ((w * 64 + d) div 2 ^ (l - 2))]) (push_bit 6 acc + of_nat d))"
proof -
  let ?acc = "push_bit 6 acc + of_nat d :: uint"
  have "unat ?acc mod 2 ^ (l - 2 + 8) = w * 64 + d"
    using push_sextet [of l acc w d] assms by (simp add: add.commute)
  then have "drop_bit (l - 2) ?acc AND 0xFF = of_nat ((w * 64 + d) div 2 ^ (l - 2))" by (simp add: acc_byte)
  then show ?thesis
    using assms digit_back [of d] sextet_not_error [of d] wr_filled [of out bin]
    by (subst b64_decode_loop.simps) (simp add: dec_st_def Let_def)
qed

lemma decode_pair:
  assumes "drop pos b64 = digit to_char (a div 4) # digit to_char (16 * (a mod 4) + b div 16) # tail"
    and "Suc pos < n" "a < 256" "b < 256" "length out < m" "m \<le> length bin"
  shows "\<exists>acc'. b64_decode_loop to_byte m b64 n ignore (dec_st bin 0 pos out acc) =
      b64_decode_loop to_byte m b64 n ignore (dec_st bin 4 (Suc (Suc pos)) (out @ [of_nat a]) acc') \<and>
    unat acc' mod 16 = b div 16 \<and> drop (Suc (Suc pos)) b64 = tail"
proof -
  let ?d0 = "a div 4" and ?d1 = "16 * (a mod 4) + b div 16"
  let ?a1 = "push_bit 6 acc + of_nat ?d0 :: uint"
  let ?a2 = "push_bit 6 ?a1 + of_nat ?d1 :: uint"
  have d: "?d0 < 64" "?d1 < 64" using assms(3,4) by auto
  have r: "rd b64 pos = Some (digit to_char ?d0)" "rd b64 (Suc pos) = Some (digit to_char ?d1)"
    "drop (Suc (Suc pos)) b64 = tail"
    using drop_eq_Cons [OF assms(1)] drop_eq_Cons [of "Suc pos" b64] by (auto simp: rd_def)
  have "unat ?a1 mod 2 ^ 6 = ?d0" using push_sextet_low [of 6 ?d0 acc] d by simp
  moreover have "(?d0 * 64 + ?d1) div 2 ^ (6 - 2) = a"
    using assms(4) by (simp add: div_add1_eq)
  moreover have "unat ?a2 mod 16 = b div 16" using push_sextet_low [of 4 ?d1 ?a1] d assms(4) by simp
  ultimately show ?thesis
    using decode_push [OF r(1) d(1), of n m ignore bin out acc]
      decode_emit [OF r(2) d(2), of n 6 ?a1 ?d0 out m bin ignore] assms(2,5,6) r(3)
    by (intro exI [of _ ?a2]) simp
qed

lemma decode_third:
  assumes "drop pos b64 = digit to_char (4 * (b mod 16) + c div 64) # tail"
    and "pos < n" "b < 256" "c < 256" "length out < m" "m \<le> length bin" "unat acc mod 16 = b div 16"
  shows "\<exists>acc'. b64_decode_loop to_byte m b64 n ignore (dec_st bin 4 pos out acc) =
      b64_decode_loop to_byte m b64 n ignore (dec_st bin 2 (Suc pos) (out @ [of_nat b]) acc') \<and>
    unat acc' mod 4 = c div 64 \<and> drop (Suc pos) b64 = tail"
proof -
  let ?d = "4 * (b mod 16) + c div 64"
  let ?a = "push_bit 6 acc + of_nat ?d :: uint"
  have d: "?d < 64" using assms(4) by auto
  have r: "rd b64 pos = Some (digit to_char ?d)" "drop (Suc pos) b64 = tail"
    using drop_eq_Cons [OF assms(1)] by (auto simp: rd_def)
  have "(b div 16 * 64 + ?d) div 2 ^ (4 - 2) = b" using assms(4) by (simp add: div_add1_eq)
  moreover have "unat ?a mod 4 = c div 64" using push_sextet_low [of 2 ?d acc] d assms(4) by simp
  ultimately show ?thesis
    using decode_emit [OF r(1) d, of n 4 acc "b div 16" out m bin ignore] assms(2,5,6,7) r(2)
    by (intro exI [of _ ?a]) simp
qed

lemma decode_fourth:
  assumes "drop pos b64 = digit to_char (c mod 64) # tail"
    and "pos < n" "length out < m" "m \<le> length bin" "unat acc mod 4 = c div 64"
  shows "\<exists>acc'. b64_decode_loop to_byte m b64 n ignore (dec_st bin 2 pos out acc) =
      b64_decode_loop to_byte m b64 n ignore (dec_st bin 0 (Suc pos) (out @ [of_nat c]) acc') \<and>
    drop (Suc pos) b64 = tail"
proof -
  let ?d = "c mod 64"
  have r: "rd b64 pos = Some (digit to_char ?d)" "drop (Suc pos) b64 = tail"
    using drop_eq_Cons [OF assms(1)] by (auto simp: rd_def)
  have "(c div 64 * 64 + ?d) div 2 ^ (2 - 2) = c" by simp
  then show ?thesis
    using decode_emit [OF r(1), of n 2 acc "c div 64" out m bin ignore] assms(2-5) r(2)
    by (intro exI [of _ "push_bit 6 acc + of_nat ?d"]) simp
qed

lemma decode_text:
  assumes "drop pos b64 = map (digit to_char) (sextets (map unat rest)) @ tail"
    "pos + length (sextets (map unat rest)) \<le> n" "length out + length rest \<le> m" "m \<le> length bin"
  shows "\<exists>acc'. b64_decode_loop to_byte m b64 n ignore (dec_st bin 0 pos out acc) =
      b64_decode_loop to_byte m b64 n ignore
        (dec_st bin (left_bits (length rest))
          (pos + length (sextets (map unat rest))) (out @ rest) acc') \<and>
    unat acc' mod 2 ^ (left_bits (length rest)) = 0 \<and>
    drop (pos + length (sextets (map unat rest))) b64 = tail"
  using assms
proof (induction "map unat rest" arbitrary: rest pos acc out rule: sextets.induct)
  case (1 na nb nc nr)
  then obtain a b c r where r: "rest = a # b # c # r" "nr = map unat r" by auto
  note len = 1(4,5)
  have len: "Suc (Suc (Suc pos)) < n" "length out + 2 < m" using 1(4,5) by (simp_all add: r)
  obtain a2 where 2: "b64_decode_loop to_byte m b64 n ignore (dec_st bin 0 pos out acc) =
      b64_decode_loop to_byte m b64 n ignore (dec_st bin 4 (Suc (Suc pos)) (out @ [of_nat (unat a)]) a2)"
      "unat a2 mod 16 = unat b div 16"
      "drop (Suc (Suc pos)) b64 = digit to_char (4 * (unat b mod 16) + unat c div 64) # digit to_char (unat c mod 64) #
        map (digit to_char) (sextets (map unat r)) @ tail"
    using decode_pair [of pos b64 "unat a" "unat b" _ n out m bin ignore acc] 1(3,6) len unat_byte [of a] unat_byte [of b]
    by (auto simp: r)
  obtain a3 where 3: "b64_decode_loop to_byte m b64 n ignore (dec_st bin 4 (Suc (Suc pos)) (out @ [a]) a2) =
      b64_decode_loop to_byte m b64 n ignore (dec_st bin 2 (Suc (Suc (Suc pos))) (out @ [a, b]) a3)"
      "unat a3 mod 4 = unat c div 64"
      "drop (Suc (Suc (Suc pos))) b64 = digit to_char (unat c mod 64) # map (digit to_char) (sextets (map unat r)) @ tail"
    using decode_third [OF 2(3), of n "out @ [a]" m bin a2 ignore] 1(6) len 2(2) unat_byte [of b] unat_byte [of c] by auto
  obtain a4 where 4: "b64_decode_loop to_byte m b64 n ignore (dec_st bin 2 (Suc (Suc (Suc pos))) (out @ [a, b]) a3) =
      b64_decode_loop to_byte m b64 n ignore (dec_st bin 0 (Suc (Suc (Suc (Suc pos)))) (out @ [a, b, c]) a4)"
      "drop (Suc (Suc (Suc (Suc pos)))) b64 = map (digit to_char) (sextets (map unat r)) @ tail"
    using decode_fourth [OF 3(3), of n "out @ [a, b]" m bin a3 ignore] 1(6) len 3(2) by auto
  from 1(1) [OF r(2) 4(2), of "out @ [a, b, c]" a4] 1(4,5,6) 2(1) 3(1) 4(1) show ?case by (simp add: r)
next
  case (2 na nb)
  then obtain a b where r: "rest = [a, b]" by auto
  have len: "Suc (Suc pos) < n" "length out + 1 < m" using 2(3,4) by (simp_all add: r)
  obtain a2 where 3: "b64_decode_loop to_byte m b64 n ignore (dec_st bin 0 pos out acc) =
      b64_decode_loop to_byte m b64 n ignore (dec_st bin 4 (Suc (Suc pos)) (out @ [of_nat (unat a)]) a2)"
      "unat a2 mod 16 = unat b div 16" "drop (Suc (Suc pos)) b64 = digit to_char (4 * (unat b mod 16) + 0 div 64) # tail"
    using decode_pair [of pos b64 "unat a" "unat b" _ n out m bin ignore acc] 2(2,5) len unat_byte [of a] unat_byte [of b]
    by (auto simp: r)
  obtain a3 where 4: "b64_decode_loop to_byte m b64 n ignore (dec_st bin 4 (Suc (Suc pos)) (out @ [a]) a2) =
      b64_decode_loop to_byte m b64 n ignore (dec_st bin 2 (Suc (Suc (Suc pos))) (out @ [a, b]) a3)"
      "unat a3 mod 4 = 0" "drop (Suc (Suc (Suc pos))) b64 = tail"
    using decode_third [OF 3(3), of n "out @ [a]" m bin a2 ignore] 2(5) len 3(2) unat_byte [of b] by auto
  from 3(1) 4 show ?case by (intro exI [of _ a3]) (simp add: r)
next
  case (3 na)
  then obtain a where r: "rest = [a]" by auto
  have len: "Suc pos < n" "length out < m" using 3(3,4) by (simp_all add: r)
  obtain a2 where 2: "b64_decode_loop to_byte m b64 n ignore (dec_st bin 0 pos out acc) =
      b64_decode_loop to_byte m b64 n ignore (dec_st bin 4 (Suc (Suc pos)) (out @ [of_nat (unat a)]) a2)"
      "unat a2 mod 16 = 0 div 16" "drop (Suc (Suc pos)) b64 = tail"
    using decode_pair [of pos b64 "unat a" 0 _ n out m bin ignore acc] 3(2,5) len unat_byte [of a] by (auto simp: r)
  from 2 show ?case by (intro exI [of _ a2]) (simp add: r)
next
  case 4
  then show ?case by (auto intro!: exI [of _ acc])
qed

lemma decode_stop:
  assumes "pos = n \<or> pos < n \<and> rd b64 pos = Some (CHR ''='')"
  shows "b64_decode_loop to_byte m b64 n None (dec_st bin l pos out acc) = Some (dec_st bin l pos out acc)"
  using assms pad_no_digit by (subst b64_decode_loop.simps) (auto simp: dec_st_def ignored_def)

end

lemma skip_padding:
  "drop pos b64 = replicate k (CHR ''='') @ tail \<Longrightarrow> pos + k \<le> n \<Longrightarrow>
     base642bin_skip_padding b64 n pos None k = Some (0, pos + k)"
proof (induction k arbitrary: pos)
  case 0
  then show ?case by (subst base642bin_skip_padding.simps) simp
next
  case (Suc k)
  then have "drop pos b64 = CHR ''='' # replicate k (CHR ''='') @ tail" by simp
  from drop_eq_Cons [OF this] Suc show ?case by (subst base642bin_skip_padding.simps) (simp add: rd_nth)
qed

lemma left_bits_clear:
  assumes "unat acc mod 2 ^ l = 0"
  shows "acc AND (push_bit l 1 - 1) = (0 :: uint)"
proof -
  have "push_bit l 1 - 1 = (mask l :: uint)" by (simp add: mask_eq_exp_minus_1 push_bit_eq_mult)
  then show ?thesis using acc_bits [of 0 acc l] assms by simp
qed

section \<open>Both alphabets\<close>

lemma byte_char_small: "m < 128 \<Longrightarrow> cval (byte_char (ucast (of_nat m :: uint))) = int m"
proof -
  assume m: "m < 128"
  have "byte_char (ucast (of_nat m :: uint)) = char_of_int (int m)"
    using m by (simp add: byte_char_def char_of_int_def unat_of_nat nat_mod_distrib)
  then show ?thesis using m by (simp add: cval_char_of_int)
qed

lemma of_nat_63: "d < 64 \<Longrightarrow> d \<noteq> 62 \<Longrightarrow> \<not> d < 62 \<Longrightarrow> (of_nat d :: uint) = 63"
proof -
  assume "d < 64" "d \<noteq> 62" "\<not> d < 62"
  then have "d = 63" by simp
  then show ?thesis by simp
qed

interpretation b64: b64_alphabet b64_byte_to_char b64_char_to_byte
proof
  fix d :: nat assume d: "d < 64"
  then show "b64_char_to_byte (cval (digit b64_byte_to_char d)) = of_nat d"
    unfolding digit_def b64_byte_char(1) [OF d] by (subst byte_char_small) (use d in \<open>auto simp: b64_char_byte of_nat_63\<close>)
qed (simp add: b64_char_byte cval_def)

interpretation b64_urlsafe: b64_alphabet b64_byte_to_urlsafe_char b64_urlsafe_char_to_byte
proof
  fix d :: nat assume d: "d < 64"
  then show "b64_urlsafe_char_to_byte (cval (digit b64_byte_to_urlsafe_char d)) = of_nat d"
    unfolding digit_def b64_byte_char(2) [OF d] by (subst byte_char_small) (use d in \<open>auto simp: b64_urlsafe_char_byte of_nat_63\<close>)
qed (simp add: b64_urlsafe_char_byte cval_def)


lemma padding_count: "4 * ((n + 2) div 3) - (4 * n + 2) div 3 = left_bits n div 2"
proof -
  consider "n mod 3 = 0" | "n mod 3 = 1" | "n mod 3 = 2" by linarith
  then show ?thesis
  proof cases
    case 1
    then obtain k where "n = 3 * k" by auto
    then have "(4 * n + 2) div 3 = 4 * k" "(n + 2) div 3 = k" by auto
    with 1 show ?thesis by (simp add: left_bits_def)
  next
    case 2
    then obtain k where "n = 3 * k + 1" by (metis mult_div_mod_eq)
    then have "(4 * n + 2) div 3 = 4 * k + 2" "(n + 2) div 3 = k + 1" by auto
    with 2 show ?thesis by (simp add: left_bits_def)
  next
    case 3
    then obtain k where "n = 3 * k + 2" by (metis mult_div_mod_eq)
    then have "(4 * n + 2) div 3 = 4 * k + 3" "(n + 2) div 3 = k + 1" by auto
    with 3 show ?thesis by (simp add: left_bits_def)
  qed
qed

lemma iwn_base64_decode_text:
  assumes "base64_check_variant variant" "length bs \<le> bin_maxlen" "bin_maxlen \<le> length bin"
    and "take n b64 = b64_text variant bs" "n \<le> length b64"
  shows "iwn_base64_decode bin bin_maxlen b64 n None False variant = Some (0, filled bin bs, Some (length bs), n)"
proof -
  let ?url = "of_int variant AND VARIANT_URLSAFE_MASK \<noteq> 0"
  let ?s = "sextets (map unat bs)"
  define to_char where "to_char = (if ?url then b64_byte_to_urlsafe_char else b64_byte_to_char)"
  define to_byte where "to_byte = (if ?url then b64_urlsafe_char_to_byte else b64_char_to_byte)"
  have alph: "b64_alphabet to_char to_byte"
    using b64.b64_alphabet_axioms b64_urlsafe.b64_alphabet_axioms by (simp add: to_char_def to_byte_def)
  define k where "k = (if no_padding variant then 0 else left_bits (length bs) div 2)"
  have tx: "b64_text variant bs = map (digit to_char) ?s @ replicate k (CHR ''='')"
    using padding_count [of "length bs"] by (simp add: b64_text_def to_char_def k_def)
  have n: "n = length ?s + k" using arg_cong [OF assms(4), of length] assms(5) by (simp add: tx)
  have b: "drop 0 b64 = map (digit to_char) ?s @ (replicate k (CHR ''='') @ drop n b64)"
    using append_take_drop_id [of n b64] assms(4) by (simp add: tx)
  obtain acc where dec: "b64_decode_loop to_byte bin_maxlen b64 n None (dec_st bin 0 0 [] 0) =
      b64_decode_loop to_byte bin_maxlen b64 n None (dec_st bin (left_bits (length bs)) (length ?s) bs acc)"
      "unat acc mod 2 ^ left_bits (length bs) = 0" "drop (length ?s) b64 = replicate k (CHR ''='') @ drop n b64"
    using b64_alphabet.decode_text [OF alph b, of n "[]" bin_maxlen bin None 0] assms(2,3) n by auto
  have "length ?s = n \<or> length ?s < n \<and> rd b64 (length ?s) = Some (CHR ''='')"
  proof (cases k)
    case (Suc j)
    then show ?thesis using n dec(3) drop_eq_Cons [of "length ?s" b64] by (auto simp: rd_def)
  qed (use n in simp)
  from b64_alphabet.decode_stop [OF alph this] dec(1)
  have loop: "b64_decode_loop to_byte bin_maxlen b64 n None (dec_st bin 0 0 [] 0) =
      Some (dec_st bin (left_bits (length bs)) (length ?s) bs acc)" by simp
  have pad: "\<not> no_padding variant \<Longrightarrow>
      base642bin_skip_padding b64 n (length ?s) None (left_bits (length bs) div 2) = Some (0, n)"
    using skip_padding [OF dec(3), of n] n by (simp add: k_def)
  have "left_bits (length bs) \<le> 4" by (simp add: left_bits_def)
  with loop pad left_bits_clear [OF dec(2)] assms(1) n show ?thesis
    unfolding iwn_base64_decode_def to_byte_def [symmetric]
    by (auto simp: dec_st_def no_padding_def k_def Let_def)
qed

section \<open>Properties\<close>

lemma take_filled: "take (length xs) (filled buf xs) = xs" "take (length xs) (filled buf (xs @ ys)) = xs"
  by (simp_all add: filled_def)

text \<open>
  C11: Base64 encoding and decoding are inverse. For each of the four variants, encoding any data
  into a buffer of the length \<open>iwn_base64_encoded_len\<close> asks for succeeds, and decoding the text
  in front of the terminator with the same variant returns 0, the number of bytes and the data.
\<close>

theorem base64_roundtrip:
  assumes "base64_check_variant variant" "length bin < 2 ^ 60"
    and "iwn_base64_encoded_len (length bin) variant \<le> b64_maxlen" "b64_maxlen \<le> length b64"
    and "length bin \<le> bin_maxlen" "bin_maxlen \<le> length out"
  shows "\<exists>b64' len out'. iwn_base64_encode b64 b64_maxlen bin (length bin) variant = Some (Some b64', len) \<and>
    iwn_base64_decode out bin_maxlen b64' (len - 1) None False variant = Some (0, out', Some (length bin), len - 1) \<and>
    take (length bin) out' = bin"
proof -
  let ?t = "b64_text variant bin"
  let ?b = "filled b64 (?t @ [NUL])"
  have enc: "iwn_base64_encode b64 b64_maxlen bin (length bin) variant = Some (Some ?b, length ?t + 1)"
    using assms by (intro iwn_base64_encode_text)
  have "take (length ?t) ?b = ?t" "length ?t \<le> length ?b" by (simp_all add: filled_def)
  from iwn_base64_decode_text [OF assms(1,5,6) this] enc show ?thesis by (auto simp: take_filled)
qed

theorem base64_roundtrip_witness:
  "\<exists>b64' len out'. iwn_base64_encode (replicate 5 NUL) 5 [1, 2] 2 1 = Some (Some b64', len) \<and>
    iwn_base64_decode [0, 0] 2 b64' (len - 1) None False 1 = Some (0, out', Some 2, len - 1) \<and>
    take 2 out' = [1, 2]"
proof -
  have v: "base64_check_variant 1" by (simp add: base64_check_variant_def)
  have p: "\<not> no_padding 1" by (simp add: no_padding_def VARIANT_NO_PADDING_MASK_def)
  have l: "length [1, 2 :: byte] = 2" "length [0, 0 :: byte] = 2" by simp_all
  have "iwn_base64_encoded_len 2 1 \<le> 5" using encoded_len_valid [of 2 1] v p by simp
  then show ?thesis
    using base64_roundtrip [of 1 "[1, 2]" 5 "replicate 5 NUL" 2 "[0, 0]", unfolded l] v by simp
qed

text \<open>
  Without a list of ignored characters the decoder reads every byte with the high bit set like a
  slash.
\<close>

definition seen_as :: "char \<Rightarrow> char" where
  "seen_as c = (if cval c < 0 then CHR ''/'' else c)"

lemma seen_as_byte: "b64_char_to_byte (cval (seen_as c)) = b64_char_to_byte (cval c)"
proof (cases "cval c < 0")
  case True
  have "cval (CHR ''/'') = 47" by (simp add: cval_def)
  then show ?thesis using True b64_negative_char(1) [of "cval c"] cval_bounds [of c]
    by (simp add: seen_as_def b64_char_byte)
qed (simp add: seen_as_def)

lemma seen_as_pad: "seen_as c = seen_as d \<Longrightarrow> c = CHR ''='' \<longleftrightarrow> d = CHR ''=''"
proof -
  have "cval (CHR ''='') = 61" by (simp add: cval_def)
  then show "seen_as c = seen_as d \<Longrightarrow> ?thesis" by (auto simp: seen_as_def split: if_splits)
qed

lemma seen_as_idem: "seen_as (seen_as c) = seen_as c"
proof -
  have "cval (CHR ''/'') = 47" by (simp add: cval_def)
  then show ?thesis by (simp add: seen_as_def)
qed

lemma rd_seen:
  assumes "map seen_as a = map seen_as b"
  obtains "rd a i = None" "rd b i = None"
  | c d where "rd a i = Some c" "rd b i = Some d" "seen_as c = seen_as d"
  using assms by (metis length_map nth_map rd_eq_None rd_nth not_le)

lemma b64_decode_loop_seen:
  assumes "map seen_as a = map seen_as b"
  shows "b64_decode_loop b64_char_to_byte m a n None s = b64_decode_loop b64_char_to_byte m b n None s"
proof (induction "n - bs_b64_pos s" arbitrary: s rule: less_induct)
  case less
  show ?case
  proof (cases rule: rd_seen [OF assms, of "bs_b64_pos s"])
    case (2 c d)
    then have "b64_char_to_byte (cval c) = b64_char_to_byte (cval d)" using seen_as_byte by metis
    with 2 less show ?thesis
      by (subst (1 2) b64_decode_loop.simps) (auto simp: Let_def ignored_def split: option.splits)
  qed (subst (1 2) b64_decode_loop.simps, simp)
qed

lemma skip_padding_seen:
  assumes "map seen_as a = map seen_as b"
  shows "base642bin_skip_padding a n pos None k = base642bin_skip_padding b n pos None k"
proof (induction k arbitrary: pos)
  case (Suc k)
  show ?case
  proof (cases rule: rd_seen [OF assms, of pos])
    case (2 c d)
    with Suc seen_as_pad [OF 2(3)] show ?thesis
      by (subst (1 2) base642bin_skip_padding.simps) (auto simp: ignored_def)
  qed (subst (1 2) base642bin_skip_padding.simps, simp)
qed (subst (1 2) base642bin_skip_padding.simps, simp)

lemma iwn_base64_decode_seen:
  assumes "map seen_as a = map seen_as b" "of_int variant AND VARIANT_URLSAFE_MASK = 0"
  shows "iwn_base64_decode bin bin_maxlen a n None b64_end variant =
    iwn_base64_decode bin bin_maxlen b n None b64_end variant"
proof -
  have "iwn_base64_decode bin bin_maxlen (map seen_as c) n None b64_end variant =
      iwn_base64_decode bin bin_maxlen c n None b64_end variant" for c
  proof -
    have "map seen_as (map seen_as c) = map seen_as c" by (simp add: seen_as_idem)
    from b64_decode_loop_seen [OF this] skip_padding_seen [OF this] assms(2) show ?thesis
      by (simp add: iwn_base64_decode_def Let_def cong: if_cong)
  qed
  then show ?thesis using assms(1) by metis
qed

text \<open>
  C12: The decoder of the original alphabet accepts bytes that are no Base64 digits: a byte with
  the high bit set is decoded like a slash. When any slashes of the text \<open>iwn_base64_encode\<close> writes
  are replaced by such bytes, decoding succeeds with return value 0 and the same data as for the text
  itself. The comparison macros only work on values from 0 to 255, but the decoder passes them a
  sign-extended \<open>char\<close>.
\<close>

theorem base64_high_bytes_are_slashes:
  assumes "base64_check_variant variant" "of_int variant AND VARIANT_URLSAFE_MASK = 0" "length bin < 2 ^ 60"
    and "iwn_base64_encoded_len (length bin) variant \<le> b64_maxlen" "b64_maxlen \<le> length b64"
    and "length bin \<le> bin_maxlen" "bin_maxlen \<le> length out"
    and "iwn_base64_encode b64 b64_maxlen bin (length bin) variant = Some (Some t, len)"
    and "map seen_as a = map seen_as t"
  shows "\<exists>out'. iwn_base64_decode out bin_maxlen a (len - 1) None False variant = Some (0, out', Some (length bin), len - 1) \<and>
    take (length bin) out' = bin"
proof -
  let ?t = "b64_text variant bin"
  have t: "t = filled b64 (?t @ [NUL])" "len = length ?t + 1"
    using iwn_base64_encode_text [OF assms(1,3,4,5)] assms(8) by simp_all
  then have "take (length ?t) t = ?t" "length ?t \<le> length t" by (simp_all add: filled_def)
  from iwn_base64_decode_text [OF assms(1,6,7) this] show ?thesis
    using iwn_base64_decode_seen [OF assms(9,2)] t(2) by (simp add: take_filled)
qed

theorem base64_high_bytes_are_slashes_witness:
  "\<exists>out'. iwn_base64_decode [0, 0, 0] 3 (replicate 4 (CHR 0x80) @ [NUL]) 4 None False 3 = Some (0, out', Some 3, 4) \<and>
    take 3 out' = [255, 255, 255]"
proof -
  let ?bin = "[255, 255, 255] :: byte list"
  have v: "base64_check_variant 3" "no_padding 3" "(of_int 3 :: uint) AND VARIANT_URLSAFE_MASK = 0"
    by (simp_all add: base64_check_variant_def no_padding_def VARIANT_NO_PADDING_MASK_def VARIANT_URLSAFE_MASK_def)
  have tx: "b64_text 3 ?bin = ''////''" by code_simp
  have n: "length ?bin = 3" "length (replicate 5 NUL) = 5" "length ([0, 0, 0] :: byte list) = 3" by simp_all
  have len: "iwn_base64_encoded_len 3 3 \<le> 5" using encoded_len_valid [of 3 3] v by simp
  have enc: "iwn_base64_encode (replicate 5 NUL) 5 ?bin 3 3 = Some (Some (''////'' @ [NUL]), 5)"
  proof -
    have "filled (replicate 5 NUL) (''////'' @ [NUL]) = ''////'' @ [NUL]" "length ''////'' + 1 = (5 :: nat)" "(3 :: nat) < 2 ^ 60"
      by (simp_all add: filled_def)
    then show ?thesis
      using iwn_base64_encode_text [OF v(1), of ?bin 5 "replicate 5 NUL", unfolded n tx] len by (simp only: order_refl simp_thms)
  qed
  have "map seen_as (replicate 4 (CHR 0x80) @ [NUL]) = map seen_as (''////'' @ [NUL])" by code_simp
  then show ?thesis
    using base64_high_bytes_are_slashes [OF v(1,3), of ?bin 5 "replicate 5 NUL" 3 "[0, 0, 0]" "''////'' @ [NUL]" 5, unfolded n] len enc by simp
qed

lemma b64_pad_past_end:
  "length b64 \<le> n \<Longrightarrow> pos \<le> n \<Longrightarrow> b64_pad b64 pos (n + 1) = None"
proof (induction "n + 1 - pos" arbitrary: b64 pos)
  case (Suc k)
  show ?case
  proof (cases "wr b64 pos (CHR ''='')")
    case (Some b')
    then have "pos < length b64" "length b' = length b64" by (auto simp: wr_def split: if_splits)
    with Suc Some show ?thesis by (subst b64_pad.simps) auto
  qed (use Suc in \<open>subst b64_pad.simps, simp\<close>)
qed simp


text \<open>Encoding keeps the length of the buffer and its position inside it.\<close>

lemma b64_emit_inside:
  "b64_emit f acc l b p = Some (l', b', p') \<Longrightarrow> p \<le> length b \<Longrightarrow> length b' = length b \<and> p' \<le> length b"
proof (induction f acc l b p rule: b64_emit.induct)
  case (1 f acc l b p)
  show ?case
  proof (cases "6 \<le> l")
    case True
    then obtain b1 where b1: "wr b p (byte_char (ucast (f (drop_bit (l - 6) acc AND 0x3F)))) = Some b1"
        "b64_emit f acc (l - 6) b1 (p + 1) = Some (l', b', p')"
      using 1(2) by (subst (asm) b64_emit.simps) (auto simp: bind_eq_Some_conv)
    with 1(1) [OF True b1] show ?thesis by (auto simp: wr_def split: if_splits)
  qed (use 1 in \<open>simp add: b64_emit_none\<close>)
qed

lemma b64_encode_loop_inside:
  "b64_encode_loop f bin n i acc l b p = Some (acc', l', b', p') \<Longrightarrow> p \<le> length b \<Longrightarrow>
     length b' = length b \<and> p' \<le> length b"
proof (induction "n - i" arbitrary: i acc l b p rule: less_induct)
  case less
  show ?case
  proof (cases "i < n")
    case True
    then obtain v :: byte and l1 b1 p1 where 1: "b64_emit f (push_bit 8 acc + ucast v) (l + 8) b p = Some (l1, b1, p1)"
        "b64_encode_loop f bin n (i + 1) (push_bit 8 acc + ucast v) l1 b1 p1 = Some (acc', l', b', p')"
      using less(2) [unfolded b64_encode_loop.simps [of f bin n i]] by (auto simp: Let_def split: option.splits)
    from b64_emit_inside [OF 1(1) less(3)] less(1) [OF _ 1(2)] True show ?thesis by simp
  qed (use less(2,3) in \<open>subst (asm) b64_encode_loop.simps, auto\<close>)
qed

lemma b64_encode_text_inside: "b64_encode_text f bin n b = Some (b', p) \<Longrightarrow> length b' = length b \<and> p \<le> length b"
  using b64_encode_loop_inside [of f bin n 0 0 0 b 0]
  by (fastforce simp: b64_encode_text_def bind_eq_Some_conv wr_def split: if_splits prod.splits)

text \<open>
  C13: Encoding with an unknown variant overruns the buffer. \<open>iwn_base64_encoded_len\<close> reports the
  length 0 for it, which \<open>iwn_base64_encode\<close> does not test, and the position of the terminator,
  one less, wraps around: whatever the buffer, the call writes behind its end.
\<close>

theorem base64_encode_unknown_variant:
  assumes "\<not> base64_check_variant variant" "length b64 < 2 ^ 64 - 1"
  shows "iwn_base64_encode b64 b64_maxlen bin bin_len variant = None"
proof -
  have e: "unat (of_nat 0 - 1 :: 64 word) = (2 ^ 64 - 2) + 1" by (simp add: unsigned_minus_1_eq_mask mask_eq_exp_minus_1)
  have "b64_encode_text f bin bin_len b64 = Some (b', p) \<Longrightarrow> b64_pad b' p ((2 ^ 64 - 2) + 1) = None" for f b' p
    using b64_encode_text_inside [of f bin bin_len b64 b' p] assms(2) by (intro b64_pad_past_end) auto
  then show ?thesis using assms(1)
    by (cases "b64_encode_text b64_byte_to_urlsafe_char bin bin_len b64"; cases "b64_encode_text b64_byte_to_char bin bin_len b64")
      (auto simp: iwn_base64_encode_def iwn_base64_encoded_len_def Let_def e [simplified])
qed

theorem base64_encode_unknown_variant_witness: "iwn_base64_encode ''abcd'' 4 [1] 1 2 = None"
  by (rule base64_encode_unknown_variant) (simp_all add: base64_check_variant_def)

end
