(* ===== verification/Pairs.thy ===== *)
theory Pairs
  imports Iwn_Prelude
begin

text \<open>
  The chains of \<open>src/src/utils/iwn_pairs.c\<close> and the queue of \<open>src/src/wslay/wslay_queue.c\<close>: singly
  linked lists with a pointer to their last element, on an explicit store. An address is a
  number, a null pointer \<open>None\<close>; access to an address without an object is \<open>None\<close>.

  Both refine a list: the representation predicates tie the store to the list of addresses in the
  chain, and every operation commutes with the list operation it stands for.
\<close>

section \<open>Chains of values and pairs\<close>

type_synonym addr = nat

record iwn_val =
  v_len :: nat
  v_buf :: "string option"
  v_next :: "addr option"

record iwn_pair =
  pr_key :: string
  pr_val :: "string option"
  pr_key_len :: nat
  pr_val_len :: nat
  pr_next :: "addr option"

text \<open>\<open>struct iwn_vals\<close> and \<open>struct iwn_pairs\<close> have the same two pointers.\<close>

record chain =
  ch_first :: "addr option"
  ch_last :: "addr option"

type_synonym 'n heap = "addr \<rightharpoonup> 'n"

definition upd :: "'n heap \<Rightarrow> addr \<Rightarrow> ('n \<Rightarrow> 'n) \<Rightarrow> 'n heap option" where
  "upd h a f = map_option (\<lambda>n. h(a \<mapsto> f n)) (h a)"

text \<open>\<open>free\<close> releases the buffer; what is left of the call is the pointer it clears.\<close>

definition iwn_val_buf_free :: "iwn_val heap \<Rightarrow> addr option \<Rightarrow> iwn_val heap option" where
  "iwn_val_buf_free h val = (case val of None \<Rightarrow> Some h | Some a \<Rightarrow> upd h a (v_buf_update (\<lambda>_. None)))"

definition iwn_val_add :: "iwn_val heap \<times> chain \<Rightarrow> addr \<Rightarrow> (iwn_val heap \<times> chain) option" where
  "iwn_val_add s v = do {
     let (h, vals) = s;
     h \<leftarrow> upd h v (v_next_update (\<lambda>_. None));
     case ch_last vals of
       Some l \<Rightarrow> do {
         h \<leftarrow> upd h l (v_next_update (\<lambda>_. Some v));
         Some (h, vals\<lparr>ch_last := Some v\<rparr>)
       }
     | None \<Rightarrow> Some (h, \<lparr>ch_first = Some v, ch_last = Some v\<rparr>)
   }"

text \<open>The address \<open>malloc\<close> or \<open>iwpool_alloc\<close> returns is an argument.\<close>

definition iwn_val_add_new ::
  "addr option \<Rightarrow> iwn_val heap \<times> chain \<Rightarrow> string option \<Rightarrow> nat \<Rightarrow> (iwrc \<times> iwn_val heap \<times> chain) option" where
  "iwn_val_add_new v s buf len =
     (case v of
        None \<Rightarrow> Some (IW_ERROR_ALLOC, s)
      | Some v \<Rightarrow> do {
          s \<leftarrow> iwn_val_add ((fst s)(v \<mapsto> \<lparr>v_len = len, v_buf = buf, v_next = None\<rparr>), snd s) v;
          Some (RC_OK, s)
        })"

definition iwn_pair_add :: "iwn_pair heap \<times> chain \<Rightarrow> addr \<Rightarrow> (iwn_pair heap \<times> chain) option" where
  "iwn_pair_add s p = do {
     let (h, pairs) = s;
     h \<leftarrow> upd h p (pr_next_update (\<lambda>_. None));
     case ch_last pairs of
       Some l \<Rightarrow> do {
         h \<leftarrow> upd h l (pr_next_update (\<lambda>_. Some p));
         Some (h, pairs\<lparr>ch_last := Some p\<rparr>)
       }
     | None \<Rightarrow> Some (h, \<lparr>ch_first = Some p, ch_last = Some p\<rparr>)
   }"

text \<open>The loop of \<open>iwn_pair_find\<close>; it does not end on a cyclic chain.\<close>

partial_function (option) pair_find_loop ::
  "iwn_pair heap \<Rightarrow> string \<Rightarrow> nat \<Rightarrow> addr option \<Rightarrow> addr option option" where
  "pair_find_loop h key key_len p =
     (if p = None then Some None
      else do {
          n \<leftarrow> h (the p);
          equal \<leftarrow> (if pr_key_len n = key_len then strncmp_eq (pr_key n) key key_len else Some False);
          if equal then Some p else pair_find_loop h key key_len (pr_next n)
        })"

definition iwn_pair_find ::
  "iwn_pair heap \<Rightarrow> chain option \<Rightarrow> string option \<Rightarrow> int \<Rightarrow> addr option option" where
  "iwn_pair_find h pairs key key_len =
     (case (pairs, key) of
        (Some pairs, Some key) \<Rightarrow>
          if key_len = 0 then Some None
          else do {
            key_len \<leftarrow> (if key_len < 0 then c_strlen key 0 else Some (nat key_len));
            pair_find_loop h key key_len (ch_first pairs)
          }
      | _ \<Rightarrow> Some None)"

definition iwn_pair_find_val ::
  "iwn_pair heap \<Rightarrow> chain option \<Rightarrow> string option \<Rightarrow> int \<Rightarrow> iwn_val option" where
  "iwn_pair_find_val h pairs key key_len = do {
     p \<leftarrow> iwn_pair_find h pairs key key_len;
     case p of
       Some a \<Rightarrow> do { n \<leftarrow> h a; Some \<lparr>v_len = pr_val_len n, v_buf = pr_val n, v_next = None\<rparr> }
     | None \<Rightarrow> Some \<lparr>v_len = 0, v_buf = None, v_next = None\<rparr>
   }"

definition opt_len :: "string option \<Rightarrow> int \<Rightarrow> nat option" where
  "opt_len buf len = (if len < 0 then do { b \<leftarrow> buf; c_strlen b 0 } else Some (nat len))"

definition iwn_pair_add_pool ::
  "addr option \<Rightarrow> iwn_pair heap \<times> chain \<Rightarrow> string \<Rightarrow> int \<Rightarrow> string option \<Rightarrow> int \<Rightarrow>
   (iwrc \<times> iwn_pair heap \<times> chain) option" where
  "iwn_pair_add_pool p s key key_len val val_len =
     (case p of
        None \<Rightarrow> Some (IW_ERROR_ALLOC, s)
      | Some p \<Rightarrow> do {
          key_len \<leftarrow> opt_len (Some key) key_len;
          val_len \<leftarrow> opt_len val val_len;
          s \<leftarrow> iwn_pair_add ((fst s)(p \<mapsto> \<lparr>pr_key = key, pr_val = val, pr_key_len = key_len,
                                              pr_val_len = val_len, pr_next = None\<rparr>), snd s) p;
          Some (RC_OK, s)
        })"

text \<open>
  \<open>iwpool_strndup2\<close> copies the first \<open>n\<close> bytes and terminates the copy, or fails; the two flags say
  whether it succeeds for the value and for the key.
\<close>

definition pool_strndup :: "bool \<Rightarrow> string \<Rightarrow> nat \<Rightarrow> string option option" where
  "pool_strndup ok buf n =
     (if ok then do { b \<leftarrow> rd_block buf 0 n; Some (Some (b @ [NUL])) } else Some None)"

definition iwn_pair_add_pool_all ::
  "bool \<Rightarrow> bool \<Rightarrow> addr option \<Rightarrow> iwn_pair heap \<times> chain \<Rightarrow> string \<Rightarrow> int \<Rightarrow> string option \<Rightarrow> int \<Rightarrow>
   (iwrc \<times> iwn_pair heap \<times> chain) option" where
  "iwn_pair_add_pool_all val_ok key_ok p s key key_len val val_len = do {
     (pval, val_len) \<leftarrow>
       (if val_len = 0 then Some (Some None, 0)
        else do {
          val_len \<leftarrow> opt_len val val_len;
          v \<leftarrow> val;
          d \<leftarrow> pool_strndup val_ok v val_len;
          Some (map_option Some d, val_len)
        });
     case pval of
       None \<Rightarrow> Some (IW_ERROR_ALLOC, s)
     | Some pval \<Rightarrow> do {
         key_len \<leftarrow> opt_len (Some key) key_len;
         key \<leftarrow> pool_strndup key_ok key key_len;
         case key of
           None \<Rightarrow> Some (IW_ERROR_ALLOC, s)
         | Some key \<Rightarrow> iwn_pair_add_pool p s key (int key_len) pval (int val_len)
       }
   }"

text \<open>The two passes of the conversion to an array: count, then store.\<close>

partial_function (option) pairs_count :: "iwn_pair heap \<Rightarrow> addr option \<Rightarrow> nat \<Rightarrow> nat option" where
  "pairs_count h p cnt =
     (if p = None then Some cnt
      else do { n \<leftarrow> h (the p); pairs_count h (pr_next n) (cnt + 1) })"

partial_function (option) pairs_store :: "iwn_pair heap \<Rightarrow> addr option \<Rightarrow> addr list \<Rightarrow> nat \<Rightarrow> addr list option" where
  "pairs_store h p ret cnt =
     (if p = None then Some ret
      else do { ret \<leftarrow> wr ret cnt (the p); n \<leftarrow> h (the p); pairs_store h (pr_next n) ret (cnt + 1) })"

definition iwn_pairs_to_array :: "bool \<Rightarrow> iwn_pair heap \<Rightarrow> chain \<Rightarrow> addr list option option" where
  "iwn_pairs_to_array alloc_ok h pairs = do {
     cnt \<leftarrow> pairs_count h (ch_first pairs) 0;
     if alloc_ok then do { ret \<leftarrow> pairs_store h (ch_first pairs) (replicate cnt 0) 0; Some (Some ret) }
     else Some None
   }"

partial_function (option) vals_count :: "iwn_val heap \<Rightarrow> addr option \<Rightarrow> nat \<Rightarrow> nat option" where
  "vals_count h p cnt =
     (if p = None then Some cnt
      else do { n \<leftarrow> h (the p); vals_count h (v_next n) (cnt + 1) })"

partial_function (option) vals_store :: "iwn_val heap \<Rightarrow> addr option \<Rightarrow> addr list \<Rightarrow> nat \<Rightarrow> addr list option" where
  "vals_store h p ret cnt =
     (if p = None then Some ret
      else do { ret \<leftarrow> wr ret cnt (the p); n \<leftarrow> h (the p); vals_store h (v_next n) ret (cnt + 1) })"

definition iwn_vals_to_array :: "bool \<Rightarrow> iwn_val heap \<Rightarrow> chain \<Rightarrow> addr list option option" where
  "iwn_vals_to_array alloc_ok h vals = do {
     cnt \<leftarrow> vals_count h (ch_first vals) 0;
     if alloc_ok then do { ret \<leftarrow> vals_store h (ch_first vals) (replicate cnt 0) 0; Some (Some ret) }
     else Some None
   }"

section \<open>The message queue\<close>

record wslay_queue_entry =
  qe_next :: "addr option"

text \<open>\<open>tail\<close> is the address of a pointer: of the queue's \<open>top\<close> or of an entry's \<open>next\<close>.\<close>

datatype link = Top | Next addr

record wslay_queue =
  q_top :: "addr option"
  q_tail :: link

type_synonym qstate = "wslay_queue_entry heap \<times> wslay_queue"

definition wslay_queue_init :: "wslay_queue" where
  "wslay_queue_init = \<lparr>q_top = None, q_tail = Top\<rparr>"

definition store_link :: "qstate \<Rightarrow> link \<Rightarrow> addr option \<Rightarrow> qstate option" where
  "store_link s l v =
     (case l of
        Top \<Rightarrow> Some (fst s, (snd s)\<lparr>q_top := v\<rparr>)
      | Next a \<Rightarrow> do { h \<leftarrow> upd (fst s) a (qe_next_update (\<lambda>_. v)); Some (h, snd s) })"

definition wslay_queue_push :: "qstate \<Rightarrow> addr \<Rightarrow> qstate option" where
  "wslay_queue_push s ent = do {
     h \<leftarrow> upd (fst s) ent (qe_next_update (\<lambda>_. None));
     (h, q) \<leftarrow> store_link (h, snd s) (q_tail (snd s)) (Some ent);
     Some (h, q\<lparr>q_tail := Next ent\<rparr>)
   }"

definition wslay_queue_push_front :: "qstate \<Rightarrow> addr \<Rightarrow> qstate option" where
  "wslay_queue_push_front s ent = do {
     let next = q_top (snd s);
     h \<leftarrow> upd (fst s) ent (qe_next_update (\<lambda>_. next));
     let q = (snd s)\<lparr>q_top := Some ent\<rparr>;
     Some (h, if next = None then q\<lparr>q_tail := Next ent\<rparr> else q)
   }"

text \<open>A failing \<open>assert\<close> is \<open>None\<close>.\<close>

definition wslay_queue_pop :: "qstate \<Rightarrow> qstate option" where
  "wslay_queue_pop s = do {
     top \<leftarrow> q_top (snd s);
     n \<leftarrow> fst s top;
     let q = (snd s)\<lparr>q_top := qe_next n\<rparr>;
     Some (fst s, if qe_next n = None then q\<lparr>q_tail := Top\<rparr> else q)
   }"

definition wslay_queue_top :: "qstate \<Rightarrow> addr option" where
  "wslay_queue_top s = q_top (snd s)"

text \<open>\<open>wslay_struct_of\<close> gives the entry around a \<open>next\<close> field; for the queue's own \<open>top\<close> there is none.\<close>

definition wslay_queue_tail :: "qstate \<Rightarrow> addr option" where
  "wslay_queue_tail s =
     (case q_top (snd s) of
        None \<Rightarrow> None
      | Some t \<Rightarrow> (case q_tail (snd s) of Top \<Rightarrow> None | Next a \<Rightarrow> Some a))"

definition wslay_queue_empty :: "qstate \<Rightarrow> bool option" where
  "wslay_queue_empty s =
     (if q_top (snd s) \<noteq> None \<or> q_tail (snd s) = Top then Some (q_top (snd s) = None) else None)"

section \<open>Chains refine lists\<close>

text \<open>The addresses from a pointer along the \<open>next\<close> pointers to the end.\<close>

fun path :: "(addr \<rightharpoonup> addr option) \<Rightarrow> addr option \<Rightarrow> addr list \<Rightarrow> bool" where
  "path nx p [] \<longleftrightarrow> p = None"
| "path nx p (a # as) \<longleftrightarrow> p = Some a \<and> (case nx a of None \<Rightarrow> False | Some q \<Rightarrow> path nx q as)"

lemma path_frame: "path nx p as \<Longrightarrow> \<forall>a\<in>set as. nx' a = nx a \<Longrightarrow> path nx' p as"
  by (induction as arbitrary: p) (auto split: option.splits)

lemma path_snoc:
  assumes "path nx p (as @ [a])" "b \<notin> set (as @ [a])" "nx b = Some None" "distinct (as @ [a])"
  shows "path (nx(a \<mapsto> Some b)) p (as @ [a, b])"
  using assms by (induction as arbitrary: p) (auto split: option.splits)

lemma path_next_dom: "path nx p as \<Longrightarrow> a \<in> set as \<Longrightarrow> nx a \<noteq> None"
  by (induction as arbitrary: p) (auto split: option.splits)

text \<open>What the users of a chain rely on: adding a new element puts it at the end of the list.\<close>

locale append_chain =
  fixes repr :: "'s \<Rightarrow> addr list \<Rightarrow> bool"
    and live :: "'s \<Rightarrow> addr \<Rightarrow> bool"
    and add :: "'s \<Rightarrow> addr \<Rightarrow> 's option"
  assumes add_last: "repr s as \<Longrightarrow> live s a \<Longrightarrow> a \<notin> set as \<Longrightarrow>
      \<exists>s'. add s a = Some s' \<and> repr s' (as @ [a]) \<and> (\<forall>b. live s b \<longrightarrow> live s' b)"
begin

lemma add_all:
  "repr s as \<Longrightarrow> \<forall>b\<in>set bs. live s b \<Longrightarrow> distinct bs \<Longrightarrow> set as \<inter> set bs = {} \<Longrightarrow>
     \<exists>s'. foldo add s bs = Some s' \<and> repr s' (as @ bs)"
proof (induction bs arbitrary: s as)
  case (Cons b bs)
  then obtain s1 where "add s b = Some s1" "repr s1 (as @ [b])" "\<forall>b. live s b \<longrightarrow> live s1 b"
    using add_last [of s as b] by auto
  with Cons.IH [of s1 "as @ [b]"] Cons.prems show ?case by auto
qed simp

end

definition chain_ok :: "(addr \<rightharpoonup> addr option) \<Rightarrow> chain \<Rightarrow> addr list \<Rightarrow> bool" where
  "chain_ok nx c as \<longleftrightarrow> path nx (ch_first c) as \<and> distinct as \<and> ch_last c = (if as = [] then None else Some (last as))"

lemma upd_Some: "upd h a f = Some h' \<longleftrightarrow> (\<exists>n. h a = Some n \<and> h' = h(a \<mapsto> f n))"
  by (auto simp: upd_def)

lemma upd_live: "h a \<noteq> None \<Longrightarrow> \<exists>h'. upd h a f = Some h' \<and> (\<forall>b. h b \<noteq> None \<longrightarrow> h' b \<noteq> None)"
  by (auto simp: upd_def)

lemma chain_ok_add:
  assumes "chain_ok nx c as" "a \<notin> set as"
  shows "chain_ok (case ch_last c of None \<Rightarrow> nx(a \<mapsto> None) | Some l \<Rightarrow> nx(a \<mapsto> None, l \<mapsto> Some a))
    (case ch_last c of None \<Rightarrow> \<lparr>ch_first = Some a, ch_last = Some a\<rparr> | Some l \<Rightarrow> c\<lparr>ch_last := Some a\<rparr>) (as @ [a])"
proof (cases as rule: rev_cases)
  case Nil
  then have "ch_last c = None" using assms by (simp add: chain_ok_def)
  then show ?thesis using Nil by (simp add: chain_ok_def)
next
  case (snoc bs b)
  then have c: "path nx (ch_first c) (bs @ [b])" "distinct (bs @ [b])" "ch_last c = Some b"
    using assms(1) by (simp_all add: chain_ok_def)
  then have "path (nx(a \<mapsto> None)) (ch_first c) (bs @ [b])"
    using assms(2) snoc by (intro path_frame [OF c(1)]) auto
  then have "path (nx(a \<mapsto> None, b \<mapsto> Some a)) (ch_first c) (bs @ [b, a])"
    using assms(2) snoc c(2) by (intro path_snoc) auto
  then show ?thesis using c assms(2) snoc by (simp add: chain_ok_def)
qed

text \<open>Both kinds of chains differ only in the node: \<open>get\<close> and \<open>set_next\<close> access its \<open>next\<close>.\<close>

definition chain_add ::
  "(addr option \<Rightarrow> 'n \<Rightarrow> 'n) \<Rightarrow> 'n heap \<times> chain \<Rightarrow> addr \<Rightarrow> ('n heap \<times> chain) option" where
  "chain_add set_next s v = do {
     h \<leftarrow> upd (fst s) v (set_next None);
     case ch_last (snd s) of
       Some l \<Rightarrow> do { h \<leftarrow> upd h l (set_next (Some v)); Some (h, (snd s)\<lparr>ch_last := Some v\<rparr>) }
     | None \<Rightarrow> Some (h, \<lparr>ch_first = Some v, ch_last = Some v\<rparr>)
   }"

lemma iwn_pair_add_chain: "iwn_pair_add = chain_add (\<lambda>p. pr_next_update (\<lambda>_. p))"
  by (auto simp: fun_eq_iff iwn_pair_add_def chain_add_def cong: option.case_cong)

lemma iwn_val_add_chain: "iwn_val_add = chain_add (\<lambda>p. v_next_update (\<lambda>_. p))"
  by (auto simp: fun_eq_iff iwn_val_add_def chain_add_def cong: option.case_cong)

definition chain_repr :: "('n \<Rightarrow> addr option) \<Rightarrow> 'n heap \<times> chain \<Rightarrow> addr list \<Rightarrow> bool" where
  "chain_repr get s as \<longleftrightarrow> chain_ok (\<lambda>a. map_option get (fst s a)) (snd s) as"

lemma chain_add_last:
  assumes get: "\<And>p n. get (set_next p n) = p"
    and s: "chain_repr get s as" "fst s a \<noteq> None" "a \<notin> set as"
  shows "\<exists>s'. chain_add set_next s a = Some s' \<and> chain_repr get s' (as @ [a]) \<and>
    (\<forall>b. fst s b \<noteq> None \<longrightarrow> fst s' b \<noteq> None)"
proof -
  obtain h c where hc: "s = (h, c)" by fastforce
  let ?nx = "\<lambda>h a. map_option get (h a)"
  have nx: "upd h a (set_next p) = Some h1 \<Longrightarrow> ?nx h1 = (?nx h)(a \<mapsto> p)" for h a p h1
    by (auto simp: upd_Some get)
  from upd_live [of h a] s hc obtain h1 where 1: "upd h a (set_next None) = Some h1"
    "\<forall>b. h b \<noteq> None \<longrightarrow> h1 b \<noteq> None" by fastforce
  have c: "chain_ok (?nx h) c as" using s(1) hc by (simp add: chain_repr_def)
  show ?thesis
  proof (cases "ch_last c")
    case None
    with chain_ok_add [OF c s(3)] 1 hc nx [OF 1(1)] show ?thesis by (simp add: chain_add_def chain_repr_def)
  next
    case (Some l)
    have "?nx h l \<noteq> None" using c Some path_next_dom [of "?nx h" "ch_first c" as l]
      by (auto simp: chain_ok_def split: if_splits)
    with 1(2) upd_live [of h1 l] obtain h2 where 2: "upd h1 l (set_next (Some a)) = Some h2"
      "\<forall>b. h1 b \<noteq> None \<longrightarrow> h2 b \<noteq> None" by fastforce
    from Some chain_ok_add [OF c s(3)] 1 2 hc nx [OF 1(1)] nx [OF 2(1)]
    show ?thesis by (simp add: chain_add_def chain_repr_def)
  qed
qed

interpretation pairs: append_chain "chain_repr pr_next" "\<lambda>s a. fst s a \<noteq> None" iwn_pair_add
  by unfold_locales (unfold iwn_pair_add_chain, rule chain_add_last, simp_all)

interpretation vals: append_chain "chain_repr v_next" "\<lambda>s a. fst s a \<noteq> None" iwn_val_add
  by unfold_locales (unfold iwn_val_add_chain, rule chain_add_last, simp_all)

section \<open>Lookup\<close>

definition pair_key :: "iwn_pair \<Rightarrow> string" where
  "pair_key n = take (pr_key_len n) (pr_key n)"

text \<open>A pair whose key buffer holds \<open>key_len\<close> bytes, none of them \<open>NUL\<close>.\<close>

definition pair_ok :: "iwn_pair \<Rightarrow> bool" where
  "pair_ok n \<longleftrightarrow> pr_key_len n \<le> length (pr_key n) \<and> NUL \<notin> set (pair_key n)"

lemma pair_test:
  assumes "pair_ok n" "pr_key_len n = length w"
  shows "strncmp_eq (pr_key n) (w @ t) (length w) = Some (pair_key n = w)"
proof -
  have "pr_key n = pair_key n @ drop (pr_key_len n) (pr_key n)" by (simp add: pair_key_def)
  moreover have "length (pair_key n) = length w" "NUL \<notin> set (pair_key n)"
    using assms by (auto simp: pair_ok_def pair_key_def)
  ultimately show ?thesis using strncmp_eq_same [of "pair_key n" w "drop (pr_key_len n) (pr_key n)" t] by metis
qed

lemma pair_find_loop_path:
  assumes "path (\<lambda>a. map_option pr_next (h a)) p as" "\<forall>a\<in>set as. \<exists>n. h a = Some n \<and> pair_ok n"
  shows "pair_find_loop h (w @ t) (length w) p = Some (List.find (\<lambda>a. pair_key (the (h a)) = w) as)"
  using assms
proof (induction as arbitrary: p)
  case Nil
  then show ?case by (subst pair_find_loop.simps) simp
next
  case (Cons a as)
  then obtain n where n: "h a = Some n" "pair_ok n" "p = Some a" "path (\<lambda>a. map_option pr_next (h a)) (pr_next n) as"
    by (auto split: option.splits)
  have "pr_key_len n \<noteq> length w \<Longrightarrow> pair_key n \<noteq> w"
    using n(2) by (auto simp: pair_key_def pair_ok_def)
  with n Cons pair_test [of n w t] show ?case by (subst pair_find_loop.simps) auto
qed

lemma iwn_pair_add_keys:
  "iwn_pair_add s a = Some s' \<Longrightarrow> map_option (\<lambda>n. (pr_key n, pr_key_len n)) (fst s' b) = map_option (\<lambda>n. (pr_key n, pr_key_len n)) (fst s b)"
  by (auto simp: iwn_pair_add_chain chain_add_def bind_eq_Some_conv upd_Some split: option.splits)

lemma foldo_keys:
  "foldo iwn_pair_add s as = Some s' \<Longrightarrow>
     map_option (\<lambda>n. (pr_key n, pr_key_len n)) (fst s' b) = map_option (\<lambda>n. (pr_key n, pr_key_len n)) (fst s b)"
proof (induction as arbitrary: s)
  case (Cons a as)
  then obtain s1 where 1: "iwn_pair_add s a = Some s1" "foldo iwn_pair_add s1 as = Some s'" by (auto simp: bind_eq_Some_conv)
  show ?case using Cons.IH [OF 1(2)] iwn_pair_add_keys [OF 1(1), of b] by (rule trans)
qed simp

definition empty_chain :: chain where
  "empty_chain = \<lparr>ch_first = None, ch_last = None\<rparr>"

lemma empty_repr: "chain_repr get (h, empty_chain) []"
  by (simp add: chain_repr_def chain_ok_def empty_chain_def)

text \<open>
  C8: Lookup in a chain finds the first match. Pairs added one after the other to an empty chain
  form the list of pairs in this order; \<open>iwn_pair_find\<close> always returns, with the first pair in
  it whose key is the wanted one, and with a null pointer when there is none.
\<close>

theorem pair_find_first:
  assumes "distinct ps" "\<forall>a\<in>set ps. \<exists>n. h a = Some n \<and> pair_ok n" "w \<noteq> []"
  shows "\<exists>h' pairs. foldo iwn_pair_add (h, empty_chain) ps = Some (h', pairs) \<and>
    iwn_pair_find h' (Some pairs) (Some (w @ t)) (int (length w)) =
      Some (List.find (\<lambda>a. pair_key (the (h a)) = w) ps)"
proof -
  have live: "\<forall>b\<in>set ps. fst (h, empty_chain) b \<noteq> None" using assms(2) by auto
  obtain h' pairs where 1: "foldo iwn_pair_add (h, empty_chain) ps = Some (h', pairs)" "chain_repr pr_next (h', pairs) ps"
    using pairs.add_all [OF empty_repr live assms(1)] by auto
  have same: "\<exists>n'. h' a = Some n' \<and> pair_ok n' \<and> pair_key n' = pair_key (the (h a))" if a: "a \<in> set ps" for a
  proof -
    obtain n where n: "h a = Some n" "pair_ok n" using assms(2) a by auto
    then obtain n' where "h' a = Some n'" "pr_key n' = pr_key n" "pr_key_len n' = pr_key_len n"
      using foldo_keys [OF 1(1), of a] by (cases "h' a") auto
    then show ?thesis using n by (simp add: pair_ok_def pair_key_def)
  qed
  have "pair_find_loop h' (w @ t) (length w) (ch_first pairs) = Some (List.find (\<lambda>a. pair_key (the (h' a)) = w) ps)"
    by (intro pair_find_loop_path) (use 1(2) same in \<open>auto simp: chain_repr_def chain_ok_def\<close>)
  moreover have "List.find (\<lambda>a. pair_key (the (h' a)) = w) ps = List.find (\<lambda>a. pair_key (the (h a)) = w) ps"
    by (rule find_cong) (auto dest: same)
  ultimately show ?thesis using 1(1) assms(3) by (simp add: iwn_pair_find_def)
qed

theorem pair_find_first_witness:
  "\<exists>h' pairs. foldo iwn_pair_add
      ([1 \<mapsto> \<lparr>pr_key = ''ab'', pr_val = None, pr_key_len = 1, pr_val_len = 0, pr_next = None\<rparr>,
        2 \<mapsto> \<lparr>pr_key = ''b'', pr_val = None, pr_key_len = 1, pr_val_len = 0, pr_next = None\<rparr>], empty_chain) [1, 2] =
      Some (h', pairs) \<and>
    iwn_pair_find h' (Some pairs) (Some (''b'' @ [NUL])) 1 = Some (Some 2)"
  using pair_find_first [of "[1, 2]"
      "[1 \<mapsto> \<lparr>pr_key = ''ab'', pr_val = None, pr_key_len = 1, pr_val_len = 0, pr_next = None\<rparr>,
        2 \<mapsto> \<lparr>pr_key = ''b'', pr_val = None, pr_key_len = 1, pr_val_len = 0, pr_next = None\<rparr>]" "''b''" "[NUL]"]
  by (simp add: pair_ok_def pair_key_def)

section \<open>Arrays\<close>

lemma pairs_count_path:
  "path (\<lambda>a. map_option pr_next (h a)) p as \<Longrightarrow> pairs_count h p cnt = Some (cnt + length as)"
  by (induction as arbitrary: p cnt) (subst pairs_count.simps, auto split: option.splits)+

lemma pairs_store_path:
  "path (\<lambda>a. map_option pr_next (h a)) p as \<Longrightarrow> cnt + length as = length ret \<Longrightarrow>
     pairs_store h p ret cnt = Some (take cnt ret @ as)"
proof (induction as arbitrary: p cnt ret)
  case Nil
  then show ?case by (subst pairs_store.simps) simp
next
  case (Cons a as)
  then have "cnt < length ret" by simp
  with Cons show ?case
    by (subst pairs_store.simps) (auto simp: wr_update take_Suc_update split: option.splits)
qed

text \<open>
  C9: The array \<open>iwn_pairs_to_array\<close> fills holds exactly the pairs of the chain in their order; it
  is allocated with the number of elements that are then stored, so no store is out of range.
\<close>

theorem pairs_to_array_elements:
  assumes "chain_repr pr_next (h, pairs) as"
  shows "iwn_pairs_to_array True h pairs = Some (Some as)"
  using assms pairs_count_path [of h "ch_first pairs" as 0] pairs_store_path [of h "ch_first pairs" as 0 "replicate (length as) 0"]
  by (simp add: iwn_pairs_to_array_def chain_repr_def chain_ok_def)

theorem pairs_to_array_elements_witness:
  "iwn_pairs_to_array True
     [7 \<mapsto> \<lparr>pr_key = ''a'', pr_val = None, pr_key_len = 1, pr_val_len = 0, pr_next = Some 3\<rparr>,
      3 \<mapsto> \<lparr>pr_key = ''b'', pr_val = None, pr_key_len = 1, pr_val_len = 0, pr_next = None\<rparr>]
     \<lparr>ch_first = Some 7, ch_last = Some 3\<rparr> = Some (Some [7, 3])"
  by (rule pairs_to_array_elements) (simp add: chain_repr_def chain_ok_def)

section \<open>The queue refines a list\<close>

definition queue_repr :: "qstate \<Rightarrow> addr list \<Rightarrow> bool" where
  "queue_repr s as \<longleftrightarrow> path (\<lambda>a. map_option qe_next (fst s a)) (q_top (snd s)) as \<and> distinct as \<and>
     q_tail (snd s) = (if as = [] then Top else Next (last as))"

lemma qe_upd: "upd h a (qe_next_update (\<lambda>_. p)) = Some h1 \<Longrightarrow>
    (\<lambda>a. map_option qe_next (h1 a)) = (\<lambda>a. map_option qe_next (h a))(a \<mapsto> p)"
  by (auto simp: upd_Some)

lemma qe_upd_at: "upd h a (qe_next_update (\<lambda>_. p)) = Some h1 \<Longrightarrow>
    map_option qe_next (h1 b) = (if b = a then Some p else map_option qe_next (h b))"
  by (auto simp: upd_Some)

lemma queue_push_last:
  assumes "queue_repr s as" "fst s a \<noteq> None" "a \<notin> set as"
  shows "\<exists>s'. wslay_queue_push s a = Some s' \<and> queue_repr s' (as @ [a]) \<and> (\<forall>b. fst s b \<noteq> None \<longrightarrow> fst s' b \<noteq> None)"
proof -
  let ?nx = "\<lambda>h a. map_option qe_next (h a)"
  obtain h q where hq: "s = (h, q)" by fastforce
  obtain h1 where 1: "upd h a (qe_next_update (\<lambda>_. None)) = Some h1" "\<forall>b. h b \<noteq> None \<longrightarrow> h1 b \<noteq> None"
    using upd_live [of h a "qe_next_update (\<lambda>_. None)"] assms(2) hq by auto
  have p: "path (?nx h) (q_top q) as" "distinct as" "q_tail q = (if as = [] then Top else Next (last as))"
    using assms(1) hq by (simp_all add: queue_repr_def)
  have p1: "path (?nx h1) (q_top q) as" using assms(3) qe_upd_at [OF 1(1)] by (intro path_frame [OF p(1)]) auto
  show ?thesis
  proof (cases as rule: rev_cases)
    case Nil
    obtain n where "h1 a = Some n" "qe_next n = None" using qe_upd_at [OF 1(1), of a] by auto
    then show ?thesis using 1 p hq Nil by (simp add: wslay_queue_push_def store_link_def queue_repr_def)
  next
    case (snoc bs b)
    have "h b \<noteq> None" using path_next_dom [OF p(1), of b] snoc by auto
    with 1(2) obtain h2 where 2: "upd h1 b (qe_next_update (\<lambda>_. Some a)) = Some h2" "\<forall>b. h1 b \<noteq> None \<longrightarrow> h2 b \<noteq> None"
      using upd_live [of h1 b "qe_next_update (\<lambda>_. Some a)"] by auto
    have "path ((?nx h1)(b \<mapsto> Some a)) (q_top q) (bs @ [b, a])"
      by (rule path_snoc) (use p1 p(2) snoc assms(3) qe_upd_at [OF 1(1)] in auto)
    then show ?thesis using 1 2 p qe_upd [OF 2(1)] hq snoc assms(3)
      by (simp add: wslay_queue_push_def store_link_def queue_repr_def)
  qed
qed

interpretation queue: append_chain queue_repr "\<lambda>s a. fst s a \<noteq> None" wslay_queue_push
  by unfold_locales (rule queue_push_last, simp_all)

lemma queue_push_front_first:
  assumes "queue_repr s as" "fst s a \<noteq> None" "a \<notin> set as"
  shows "\<exists>s'. wslay_queue_push_front s a = Some s' \<and> queue_repr s' (a # as) \<and> (\<forall>b. fst s b \<noteq> None \<longrightarrow> fst s' b \<noteq> None)"
proof -
  obtain h q where hq: "s = (h, q)" by fastforce
  have p: "path (\<lambda>a. map_option qe_next (h a)) (q_top q) as" "distinct as" "q_tail q = (if as = [] then Top else Next (last as))"
    using assms(1) hq by (simp_all add: queue_repr_def)
  obtain h1 where 1: "upd h a (qe_next_update (\<lambda>_. q_top q)) = Some h1" "\<forall>b. h b \<noteq> None \<longrightarrow> h1 b \<noteq> None"
    using upd_live [of h a "qe_next_update (\<lambda>_. q_top q)"] assms(2) hq by auto
  have p1: "path (\<lambda>a. map_option qe_next (h1 a)) (q_top q) as"
    using assms(3) qe_upd_at [OF 1(1)] by (intro path_frame [OF p(1)]) auto
  have "q_top q = None \<longleftrightarrow> as = []" using p(1) by (cases as) auto
  moreover obtain n where "h1 a = Some n" "qe_next n = q_top q" using qe_upd_at [OF 1(1), of a] by auto
  ultimately show ?thesis using p p1 1 assms(3) hq by (simp add: wslay_queue_push_front_def queue_repr_def)
qed

lemma queue_pop_first:
  assumes "queue_repr s (a # as)"
  shows "\<exists>s'. wslay_queue_pop s = Some s' \<and> queue_repr s' as \<and> fst s' = fst s"
proof -
  obtain n where n: "fst s a = Some n" "path (\<lambda>a. map_option qe_next (fst s a)) (qe_next n) as"
      "q_top (snd s) = Some a" "distinct as" "q_tail (snd s) = Next (last (a # as))"
    using assms by (auto simp: queue_repr_def split: option.splits)
  have "qe_next n = None \<longleftrightarrow> as = []" using n(2) by (cases as) auto
  then show ?thesis using n by (simp add: wslay_queue_pop_def queue_repr_def)
qed

lemma queue_ends:
  "queue_repr s (a # as) \<Longrightarrow> wslay_queue_top s = Some a"
  "queue_repr s (a # as) \<Longrightarrow> wslay_queue_tail s = Some (last (a # as))"
  "queue_repr s as \<Longrightarrow> wslay_queue_empty s = Some (as = [])"
  by (cases as; auto simp: queue_repr_def wslay_queue_top_def wslay_queue_tail_def wslay_queue_empty_def)+

text \<open>Sequences of operations, on the store and on lists.\<close>

datatype qop = Push addr | Push_front addr | Pop

fun run_qop :: "qstate \<Rightarrow> qop \<Rightarrow> qstate option" where
  "run_qop s (Push a) = wslay_queue_push s a"
| "run_qop s (Push_front a) = wslay_queue_push_front s a"
| "run_qop s Pop = wslay_queue_pop s"

fun list_qop :: "addr list \<Rightarrow> qop \<Rightarrow> addr list option" where
  "list_qop as (Push a) = (if a \<in> set as then None else Some (as @ [a]))"
| "list_qop as (Push_front a) = (if a \<in> set as then None else Some (a # as))"
| "list_qop as Pop = (case as of [] \<Rightarrow> None | a # as \<Rightarrow> Some as)"

fun qop_addrs :: "qop \<Rightarrow> addr set" where
  "qop_addrs (Push a) = {a}"
| "qop_addrs (Push_front a) = {a}"
| "qop_addrs Pop = {}"

lemma run_qop_refines:
  assumes "queue_repr s as" "list_qop as op = Some as'" "\<forall>a\<in>qop_addrs op. fst s a \<noteq> None"
  shows "\<exists>s'. run_qop s op = Some s' \<and> queue_repr s' as' \<and> (\<forall>b. fst s b \<noteq> None \<longrightarrow> fst s' b \<noteq> None)"
proof (cases op)
  case (Push a)
  then show ?thesis using assms queue_push_last [OF assms(1), of a] by (auto split: if_splits)
next
  case (Push_front a)
  then show ?thesis using assms queue_push_front_first [OF assms(1), of a] by (auto split: if_splits)
next
  case Pop
  then obtain a where "as = a # as'" using assms(2) by (auto split: list.splits)
  then show ?thesis using Pop queue_pop_first [of s a as'] assms(1) by auto
qed

lemma foldo_qop_refines:
  "queue_repr s bs \<Longrightarrow> foldo list_qop bs ops = Some bs' \<Longrightarrow>
     \<forall>op\<in>set ops. \<forall>a\<in>qop_addrs op. fst s a \<noteq> None \<Longrightarrow>
     \<exists>s'. foldo run_qop s ops = Some s' \<and> queue_repr s' bs'"
proof (induction ops arbitrary: s bs)
  case (Cons op ops)
  then obtain cs where cs: "list_qop bs op = Some cs" "foldo list_qop cs ops = Some bs'"
    by (auto simp: bind_eq_Some_conv)
  obtain s1 where 1: "run_qop s op = Some s1" "queue_repr s1 cs" "\<forall>b. fst s b \<noteq> None \<longrightarrow> fst s1 b \<noteq> None"
    using run_qop_refines [OF Cons.prems(1) cs(1)] Cons.prems(3) by auto
  have "\<forall>op\<in>set ops. \<forall>a\<in>qop_addrs op. fst s1 a \<noteq> None" using 1(3) Cons.prems(3) by simp
  from Cons.IH [OF 1(2) cs(2) this] 1(1) show ?case by simp
qed simp

text \<open>
  C10: The message queue implements a list. Any sequence of pushes to the back or to the front and
  of pops that never pops an empty list and never inserts an entry that is still queued runs
  without touching an invalid pointer or failing an assertion, and afterwards top, tail and the
  test for emptiness are the head, the last element and the emptiness of the list.
\<close>

theorem wslay_queue_refines_list:
  assumes "\<forall>op\<in>set ops. \<forall>a\<in>qop_addrs op. h a \<noteq> None" "foldo list_qop [] ops = Some as"
  shows "\<exists>s. foldo run_qop (h, wslay_queue_init) ops = Some s \<and> queue_repr s as \<and>
    wslay_queue_empty s = Some (as = []) \<and>
    (as \<noteq> [] \<longrightarrow> wslay_queue_top s = Some (hd as) \<and> wslay_queue_tail s = Some (last as))"
proof -
  have "queue_repr (h, wslay_queue_init) []" by (simp add: queue_repr_def wslay_queue_init_def)
  from foldo_qop_refines [OF this assms(2)] assms(1)
  obtain s where s: "foldo run_qop (h, wslay_queue_init) ops = Some s" "queue_repr s as" by auto
  show ?thesis
  proof (cases as)
    case Nil
    with s queue_ends(3) [OF s(2)] show ?thesis by auto
  next
    case (Cons a bs)
    with s queue_ends(3) [OF s(2)] queue_ends(1,2) [OF s(2) [unfolded Cons]] show ?thesis by auto
  qed
qed

theorem wslay_queue_refines_list_witness:
  "\<exists>s. foldo run_qop ([1 \<mapsto> \<lparr>qe_next = None\<rparr>, 2 \<mapsto> \<lparr>qe_next = None\<rparr>], wslay_queue_init)
      [Push 1, Push_front 2, Pop] = Some s \<and> queue_repr s [1] \<and> wslay_queue_empty s = Some ([1 :: addr] = []) \<and>
    ([1 :: addr] \<noteq> [] \<longrightarrow> wslay_queue_top s = Some (hd [1]) \<and> wslay_queue_tail s = Some (last [1]))"
  by (rule wslay_queue_refines_list) simp_all

end
