(* ===== verification/Url.thy ===== *)
theory Url
  imports Iwn_Prelude
begin

text \<open>
  The URL parser of \<open>src/src/utils/iwn_url.c\<close>. It cuts the text in place: the parts of the URL are
  offsets into the buffer, which the parser terminates by overwriting the separators with \<open>NUL\<close>.
  A null pointer is \<open>None\<close>.
\<close>

section \<open>The parser\<close>

definition c_strchr :: "string \<Rightarrow> nat \<Rightarrow> char \<Rightarrow> nat option option" where
  "c_strchr buf off c = do {
     s \<leftarrow> c_str buf off;
     Some (if c \<in> set s then Some (off + length (takeWhile (\<lambda>d. d \<noteq> c) s)) else None)
   }"

text \<open>The C library's \<open>atoi\<close>; a number that is no \<open>int\<close> is undefined.\<close>

definition c_isspace :: "char \<Rightarrow> bool" where
  "c_isspace c \<longleftrightarrow> c = CHR '' '' \<or> (9 \<le> cval c \<and> cval c \<le> 13)"

definition c_isdigit :: "char \<Rightarrow> bool" where
  "c_isdigit c \<longleftrightarrow> cval (CHR ''0'') \<le> cval c \<and> cval c \<le> cval (CHR ''9'')"

definition dec_val :: "string \<Rightarrow> int" where
  "dec_val s = foldl (\<lambda>r c. r * 10 + (cval c - cval (CHR ''0''))) 0 s"

definition c_atoi :: "string \<Rightarrow> nat \<Rightarrow> int option" where
  "c_atoi buf off = do {
     s \<leftarrow> c_str buf off;
     let s = dropWhile c_isspace s;
     let (sign, s) = (case s of
         [] \<Rightarrow> (1, s)
       | c # t \<Rightarrow> if c = CHR ''-'' then (-1, t) else if c = CHR ''+'' then (1, t) else (1, s));
     let v = sign * dec_val (takeWhile c_isdigit s);
     if - (2 ^ 31) \<le> v \<and> v < 2 ^ 31 then Some v else None
   }"

fun natoi_loop :: "string \<Rightarrow> nat \<Rightarrow> nat \<Rightarrow> int \<Rightarrow> int option" where
  "natoi_loop buf off 0 r = Some r"
| "natoi_loop buf off (Suc len) r = do {
     c \<leftarrow> rd buf off;
     natoi_loop buf (off + 1) len (s32 (s32 (r * 10) + (cval c - cval (CHR ''0''))))
   }"

definition natoi :: "string \<Rightarrow> nat \<Rightarrow> nat \<Rightarrow> int option" where
  "natoi buf str len = natoi_loop buf str len 0"

definition is_relative :: "string \<Rightarrow> nat \<Rightarrow> bool option" where
  "is_relative buf url = do { c \<leftarrow> rd buf url; Some (c = CHR ''/'') }"

definition parse_scheme :: "string \<Rightarrow> nat \<Rightarrow> (nat option \<times> string) option" where
  "parse_scheme buf str = do {
     s \<leftarrow> c_strchr buf str (CHR '':'');
     case s of
       None \<Rightarrow> Some (None, buf)
     | Some s \<Rightarrow>
         if s = str then Some (None, buf)
         else do {
           c1 \<leftarrow> rd buf (s + 1);
           if c1 \<noteq> CHR ''/'' then Some (None, buf)
           else do {
             c2 \<leftarrow> rd buf (s + 2);
             if c2 = NUL \<or> c2 \<noteq> CHR ''/'' then Some (None, buf)
             else do { buf \<leftarrow> wr buf s NUL; Some (Some (s + 3), buf) }
           }
         }
   }"

definition find_and_terminate :: "string \<Rightarrow> nat \<Rightarrow> char \<Rightarrow> (nat option \<times> string) option" where
  "find_and_terminate buf str c = do {
     p \<leftarrow> c_strchr buf str c;
     case p of
       None \<Rightarrow> Some (None, buf)
     | Some p \<Rightarrow> do { buf \<leftarrow> wr buf p NUL; Some (Some (p + 1), buf) }
   }"

definition find_fragment :: "string \<Rightarrow> nat \<Rightarrow> (nat option \<times> string) option" where
  "find_fragment buf str = find_and_terminate buf str (CHR ''#'')"

definition find_query :: "string \<Rightarrow> nat \<Rightarrow> (nat option \<times> string) option" where
  "find_query buf str = find_and_terminate buf str (CHR ''?'')"

definition find_path :: "string \<Rightarrow> nat \<Rightarrow> (nat option \<times> string) option" where
  "find_path buf str = find_and_terminate buf str (CHR ''/'')"

record iwn_url =
  u_scheme :: "nat option"
  u_username :: "nat option"
  u_password :: "nat option"
  u_host :: "nat option"
  u_path :: "nat option"
  u_query :: "nat option"
  u_fragment :: "nat option"
  u_port :: int

definition iwn_url0 :: iwn_url where
  "iwn_url0 = \<lparr>u_scheme = None, u_username = None, u_password = None, u_host = None, u_path = None,
               u_query = None, u_fragment = None, u_port = 0\<rparr>"

text \<open>The credentials of an absolute URL whose host text starts at \<open>host\<close>; \<open>Inl\<close> is the early return.\<close>

definition url_credentials :: "iwn_url \<Rightarrow> nat \<Rightarrow> string \<Rightarrow> (iwn_url \<times> string + iwn_url \<times> nat \<times> string) option" where
  "url_credentials url host buf = do {
     u \<leftarrow> c_strchr buf host (CHR ''@'');
     case u of
       None \<Rightarrow> Some (Inr (url, host, buf))
     | Some u \<Rightarrow>
         if u = host then Some (Inl (url, buf))
         else do {
           let url = url\<lparr>u_username := Some host, u_host := Some (u + 1)\<rparr>;
           buf \<leftarrow> wr buf u NUL;
           p \<leftarrow> c_strchr buf host (CHR '':'');
           case p of
             None \<Rightarrow> Some (Inl (url, buf))
           | Some p \<Rightarrow> do {
               let url = url\<lparr>u_password := Some (p + 1)\<rparr>;
               buf \<leftarrow> wr buf p NUL;
               Some (Inr (url, u + 1, buf))
             }
         }
   }"

definition url_port :: "iwn_url \<Rightarrow> nat \<Rightarrow> string \<Rightarrow> (iwn_url \<times> string + iwn_url \<times> string) option" where
  "url_port url host buf = do {
     u \<leftarrow> c_strchr buf host (CHR '':'');
     case u of
       None \<Rightarrow> Some (Inr (url, buf))
     | Some u \<Rightarrow>
         if (case u_path url of None \<Rightarrow> True | Some p \<Rightarrow> u < p) then do {
           buf \<leftarrow> wr buf u NUL;
           c \<leftarrow> rd buf (u + 1);
           if c = NUL then Some (Inl (url, buf))
           else do {
             port \<leftarrow> (case u_path url of
                 Some p \<Rightarrow> natoi buf (u + 1) (p - (u + 1) - 1)
               | None \<Rightarrow> c_atoi buf (u + 1));
             Some (Inr (url\<lparr>u_port := port\<rparr>, buf))
           }
         }
         else Some (Inr (url, buf))
   }"

definition url_absolute :: "iwn_url \<Rightarrow> string \<Rightarrow> (int \<times> iwn_url \<times> string) option" where
  "url_absolute url buf = do {
     let url = url\<lparr>u_scheme := Some 0\<rparr>;
     (u, buf) \<leftarrow> parse_scheme buf 0;
     case u of
       None \<Rightarrow> Some (-1, url, buf)
     | Some u \<Rightarrow> do {
         c \<leftarrow> rd buf u;
         if c = NUL then Some (-1, url, buf)
         else do {
           (path, buf) \<leftarrow> find_path buf u;
           let url = url\<lparr>u_host := Some u, u_path := path\<rparr>;
           cred \<leftarrow> url_credentials url u buf;
           case cred of
             Inl (url, buf) \<Rightarrow> Some (-1, url, buf)
           | Inr (url, host, buf) \<Rightarrow> do {
               c \<leftarrow> rd buf host;
               if c = NUL then Some (-1, url, buf)
               else do {
                 r \<leftarrow> url_port url host buf;
                 case r of
                   Inl (url, buf) \<Rightarrow> Some (-1, url, buf)
                 | Inr (url, buf) \<Rightarrow> do {
                     c \<leftarrow> rd buf host;
                     Some (if c = NUL then -1 else 0, url, buf)
                   }
               }
             }
         }
       }
   }"

text \<open>
  \<open>iwn_url_parse\<close>: the text starts at offset 0 of \<open>buf\<close>; \<open>None\<close> for \<open>u\<close> is a null pointer.
\<close>

definition iwn_url_parse :: "string option \<Rightarrow> (int \<times> iwn_url \<times> string) option" where
  "iwn_url_parse u =
     (case u of
        None \<Rightarrow> Some (-1, iwn_url0, [])
      | Some buf \<Rightarrow> do {
          (fragment, buf) \<leftarrow> find_fragment buf 0;
          (query, buf) \<leftarrow> find_query buf 0;
          let url = iwn_url0\<lparr>u_fragment := fragment, u_query := query\<rparr>;
          relative \<leftarrow> is_relative buf 0;
          if \<not> relative then url_absolute url buf
          else do {
            (path, buf) \<leftarrow> find_path buf 0;
            Some (0, url\<lparr>u_path := path\<rparr>, buf)
          }
        })"

section \<open>Cutting a text\<close>

lemma c_strchr_found:
  assumes "NUL \<notin> set s" "c \<notin> set s" "c \<noteq> NUL" "NUL \<in> set t"
  shows "c_strchr (A @ s @ c # t) (length A) c = Some (Some (length A + length s))"
proof -
  have "takeWhile (\<lambda>d. d \<noteq> NUL) (s @ c # t) = s @ c # takeWhile (\<lambda>d. d \<noteq> NUL) t"
    using assms(1,3) by (subst takeWhile_append2) auto
  moreover have "takeWhile (\<lambda>d. d \<noteq> c) (s @ c # x) = s" for x
    using assms(2) by (subst takeWhile_append2) auto
  ultimately show ?thesis using assms(4) by (simp add: c_strchr_def c_str_def)
qed

lemma c_strchr_none:
  assumes "NUL \<notin> set s" "c \<notin> set s"
  shows "c_strchr (A @ s @ NUL # t) (length A) c = Some None"
  using assms c_str_at [of "length A" "A @ s @ NUL # t" s t] by (simp add: c_strchr_def)

lemma wr_at: "wr (A @ s @ c # t) (length A + length s) d = Some (A @ s @ d # t)"
  by (simp add: wr_def list_update_append)

lemma terminate_found:
  assumes "NUL \<notin> set s" "c \<notin> set s" "c \<noteq> NUL" "NUL \<in> set t"
  shows "find_and_terminate (A @ s @ c # t) (length A) c = Some (Some (length A + length s + 1), A @ s @ NUL # t)"
  using c_strchr_found [OF assms] by (simp add: find_and_terminate_def wr_at)

lemma terminate_none:
  "NUL \<notin> set s \<Longrightarrow> c \<notin> set s \<Longrightarrow>
     find_and_terminate (A @ s @ NUL # t) (length A) c = Some (None, A @ s @ NUL # t)"
  by (simp add: find_and_terminate_def c_strchr_none)

text \<open>An optional part of a URL behind its separator, and a pointer to it.\<close>

fun opt_part :: "char \<Rightarrow> string option \<Rightarrow> string" where
  "opt_part c None = []"
| "opt_part c (Some s) = c # s"

definition points :: "nat \<Rightarrow> string \<Rightarrow> nat option \<Rightarrow> string option \<Rightarrow> bool" where
  "points n R p part = (case part of None \<Rightarrow> p = None | Some s \<Rightarrow> \<exists>k. p = Some (n + k) \<and> c_str R k = Some s)"

lemma points_shift: "points (n + length X) R p part \<Longrightarrow> points n (X @ R) p part"
  by (auto simp: points_def c_str_def split: option.splits)

lemma points_here: "NUL \<notin> set s \<Longrightarrow> points n (s @ NUL # R) (Some n) (Some s)"
  using c_str_append [of s R] by (auto simp: points_def intro: exI [of _ 0])

lemma cut_part:
  assumes "NUL \<notin> set s" "c \<notin> set s" "c \<noteq> NUL" "\<forall>x\<in>set_option part. NUL \<notin> set x"
  shows "\<exists>R' p. find_and_terminate (A @ s @ opt_part c part @ NUL # R) (length A) c = Some (p, A @ s @ NUL # R') \<and>
    points (length A + length s + 1) R' p part \<and> (p = None \<or> p = Some (length A + length s + 1)) \<and>
    (\<forall>q part'. points (length A + length s + length (opt_part c part) + 1) R q part' \<longrightarrow>
       points (length A + length s + 1) R' q part')"
proof (cases part)
  case None
  then show ?thesis using terminate_none [OF assms(1,2), of A R] by (auto simp: points_def)
next
  case (Some x)
  have "find_and_terminate (A @ s @ c # (x @ NUL # R)) (length A) c =
      Some (Some (length A + length s + 1), A @ s @ NUL # (x @ NUL # R))"
    by (rule terminate_found) (use assms in auto)
  moreover have "points (length A + length s + length (opt_part c part) + 1) R q part' \<Longrightarrow>
      points (length A + length s + 1) (x @ NUL # R) q part'" for q part'
    using points_shift [of "length A + length s + 1" "x @ [NUL]" R q part'] Some by (simp add: add_ac)
  ultimately show ?thesis using Some assms(4) points_here [of x "length A + length s + 1" R] by auto
qed

section \<open>Numbers\<close>

lemma dec_val_snoc: "dec_val (s @ [c]) = dec_val s * 10 + (cval c - cval (CHR ''0''))"
  by (simp add: dec_val_def)

lemma digit_cval: "c_isdigit c \<Longrightarrow> 0 \<le> cval c - cval (CHR ''0'')" "c_isdigit c \<Longrightarrow> cval c - cval (CHR ''0'') \<le> 9"
proof -
  have "cval (CHR ''9'') = cval (CHR ''0'') + 9" by (simp add: cval_def)
  then show "c_isdigit c \<Longrightarrow> 0 \<le> cval c - cval (CHR ''0'')" "c_isdigit c \<Longrightarrow> cval c - cval (CHR ''0'') \<le> 9"
    by (auto simp: c_isdigit_def)
qed

lemma foldl_dec_mono:
  "list_all c_isdigit s \<Longrightarrow> 0 \<le> r \<Longrightarrow> r \<le> foldl (\<lambda>r c. r * 10 + (cval c - cval (CHR ''0''))) r s"
proof (induction s arbitrary: r)
  case (Cons c s)
  have "r \<le> r * 10 + (cval c - cval (CHR ''0''))" "0 \<le> r * 10 + (cval c - cval (CHR ''0''))"
    using Cons.prems digit_cval(1) [of c] by auto
  with Cons show ?case by fastforce
qed simp

lemma natoi_loop_digits:
  assumes "list_all c_isdigit s" "0 \<le> r" "foldl (\<lambda>r c. r * 10 + (cval c - cval (CHR ''0''))) r s < 2 ^ 31"
  shows "natoi_loop (A @ s @ t) (length A) (length s) r = Some (foldl (\<lambda>r c. r * 10 + (cval c - cval (CHR ''0''))) r s)"
  using assms
proof (induction s arbitrary: A r)
  case (Cons c s)
  let ?v = "r * 10 + (cval c - cval (CHR ''0''))"
  have d: "0 \<le> cval c - cval (CHR ''0'')" "cval c - cval (CHR ''0'') \<le> 9" using Cons.prems(1) digit_cval [of c] by auto
  have "?v \<le> foldl (\<lambda>r c. r * 10 + (cval c - cval (CHR ''0''))) ?v s"
    using Cons.prems d by (intro foldl_dec_mono) auto
  with Cons.prems d have "?v < 2 ^ 31" by simp
  then have "s32 (s32 (r * 10) + (cval c - cval (CHR ''0''))) = ?v"
    using Cons.prems(2) d by (simp add: s32_id)
  then show ?case using Cons.IH [of ?v "A @ [c]"] Cons.prems d by (simp add: rd_def nth_append)
qed simp

lemma natoi_digits:
  "list_all c_isdigit s \<Longrightarrow> dec_val s < 2 ^ 31 \<Longrightarrow> natoi (A @ s @ t) (length A) (length s) = Some (dec_val s)"
  using natoi_loop_digits [of s 0 A t] by (simp add: natoi_def dec_val_def)

lemma c_atoi_digits:
  assumes "list_all c_isdigit s" "s \<noteq> []" "dec_val s < 2 ^ 31"
  shows "c_atoi (A @ s @ NUL # t) (length A) = Some (dec_val s)"
proof -
  obtain c r where s: "s = c # r" using assms(2) by (cases s) auto
  have c: "c_isdigit c" using assms(1) s by simp
  have n: "cval (CHR ''0'') = 48" "cval (CHR ''9'') = 57" "cval (CHR ''-'') = 45" "cval (CHR ''+'') = 43" "cval (CHR '' '') = 32"
    "cval NUL = 0" by (simp_all add: cval_def)
  have "\<not> c_isspace c" "c \<noteq> CHR ''-''" "c \<noteq> CHR ''+''"
    using c n by (auto simp: c_isspace_def c_isdigit_def)
  moreover have "NUL \<notin> set s" using assms(1) n by (auto simp: c_isdigit_def list_all_iff)
  moreover have "takeWhile c_isdigit s = s" using assms(1) by (simp add: takeWhile_eq_all_conv list_all_iff)
  moreover have "0 \<le> dec_val s" using foldl_dec_mono [OF assms(1), of 0] by (simp add: dec_val_def)
  ultimately show ?thesis using assms(3) s c_str_at [of "length A" "A @ s @ NUL # t" s t]
    by (simp add: c_atoi_def)
qed

section \<open>Printing and parsing\<close>

record url_parts =
  up_scheme :: string
  up_cred :: "(string \<times> string) option"
  up_host :: string
  up_port :: "string option"
  up_path :: "string option"
  up_query :: "string option"
  up_fragment :: "string option"

definition host_port :: "url_parts \<Rightarrow> string" where
  "host_port u = up_host u @ opt_part (CHR '':'') (up_port u)"

definition print_url :: "url_parts \<Rightarrow> string" where
  "print_url u = up_scheme u @ ''://'' @ (case up_cred u of None \<Rightarrow> [] | Some (n, p) \<Rightarrow> n @ CHR '':'' # p @ ''@'') @
     host_port u @ opt_part (CHR ''/'') (up_path u) @ opt_part (CHR ''?'') (up_query u) @ opt_part (CHR ''#'') (up_fragment u)"

definition no_chars :: "string \<Rightarrow> string \<Rightarrow> bool" where
  "no_chars cs s \<longleftrightarrow> list_all (\<lambda>c. c \<noteq> NUL \<and> c \<notin> set cs) s"

definition wf_url :: "url_parts \<Rightarrow> bool" where
  "wf_url u \<longleftrightarrow>
     no_chars '':?#'' (up_scheme u) \<and> up_scheme u \<noteq> [] \<and> hd (up_scheme u) \<noteq> CHR ''/'' \<and>
     (case up_cred u of None \<Rightarrow> True | Some (n, p) \<Rightarrow> n \<noteq> [] \<and> no_chars '':@/?#'' n \<and> no_chars ''@/?#'' p) \<and>
     no_chars '':@/?#'' (up_host u) \<and> up_host u \<noteq> [] \<and>
     (case up_port u of None \<Rightarrow> True | Some s \<Rightarrow> s \<noteq> [] \<and> list_all c_isdigit s \<and> dec_val s < 2 ^ 31) \<and>
     (case up_path u of None \<Rightarrow> True | Some s \<Rightarrow> no_chars ''?#'' s) \<and>
     (case up_query u of None \<Rightarrow> True | Some s \<Rightarrow> no_chars ''#'' s) \<and>
     (case up_fragment u of None \<Rightarrow> True | Some s \<Rightarrow> no_chars [] s)"

lemma no_chars_simps:
  "no_chars cs (s @ t) \<longleftrightarrow> no_chars cs s \<and> no_chars cs t"
  "no_chars cs (c # s) \<longleftrightarrow> c \<noteq> NUL \<and> c \<notin> set cs \<and> no_chars cs s" "no_chars cs []"
  by (auto simp: no_chars_def)

lemma no_chars_iff: "no_chars cs s \<longleftrightarrow> NUL \<notin> set s \<and> (\<forall>c\<in>set cs. c \<notin> set s)"
  by (auto simp: no_chars_def list_all_iff)

lemma digits_no_chars: "list_all c_isdigit s \<Longrightarrow> no_chars '':@/?#'' s"
proof -
  have "cval (CHR ''0'') = 48" "cval (CHR ''9'') = 57" "cval (CHR '':'') = 58" "cval (CHR ''@'') = 64" "cval (CHR ''/'') = 47"
    "cval (CHR ''?'') = 63" "cval (CHR ''#'') = 35" "cval NUL = 0" by (simp_all add: cval_def)
  then show "list_all c_isdigit s \<Longrightarrow> ?thesis" by (auto simp: no_chars_def list_all_iff c_isdigit_def)
qed

text \<open>The scheme.\<close>

lemma parse_scheme_found:
  assumes "no_chars '':'' s" "s \<noteq> []" "NUL \<in> set t"
  shows "parse_scheme (s @ CHR '':'' # CHR ''/'' # CHR ''/'' # t) 0 =
    Some (Some (length s + 3), s @ NUL # CHR ''/'' # CHR ''/'' # t)"
proof -
  have "c_strchr ([] @ s @ CHR '':'' # CHR ''/'' # CHR ''/'' # t) (length ([] :: string)) (CHR '':'') =
      Some (Some (length ([] :: string) + length s))"
    by (rule c_strchr_found) (use assms in \<open>auto simp: no_chars_iff\<close>)
  then show ?thesis using assms(2) by (simp add: parse_scheme_def rd_def nth_append wr_def list_update_append)
qed

text \<open>The credentials.\<close>

lemma url_credentials_none:
  "no_chars ''@'' s \<Longrightarrow> url_credentials url (length A) (A @ s @ NUL # R) = Some (Inr (url, length A, A @ s @ NUL # R))"
  by (simp add: url_credentials_def c_strchr_none no_chars_iff)

lemma url_credentials_some:
  assumes "no_chars '':@'' n" "n \<noteq> []" "no_chars ''@'' p"
  shows "url_credentials url (length A) (A @ n @ CHR '':'' # p @ CHR ''@'' # s @ NUL # R) =
    Some (Inr (url\<lparr>u_username := Some (length A), u_host := Some (length A + length n + length p + 2),
                   u_password := Some (length A + length n + 1)\<rparr>,
          length A + length n + length p + 2, A @ n @ NUL # p @ NUL # s @ NUL # R))"
proof -
  have 1: "c_strchr (A @ (n @ CHR '':'' # p) @ CHR ''@'' # s @ NUL # R) (length A) (CHR ''@'') =
      Some (Some (length A + length (n @ CHR '':'' # p)))"
    by (rule c_strchr_found) (use assms in \<open>auto simp: no_chars_iff\<close>)
  have 2: "c_strchr (A @ n @ CHR '':'' # p @ NUL # s @ NUL # R) (length A) (CHR '':'') = Some (Some (length A + length n))"
    by (rule c_strchr_found) (use assms in \<open>auto simp: no_chars_iff\<close>)
  have 3: "wr (A @ (n @ CHR '':'' # p) @ CHR ''@'' # s @ NUL # R) (length A + length (n @ CHR '':'' # p)) NUL =
      Some (A @ (n @ CHR '':'' # p) @ NUL # s @ NUL # R)" by (rule wr_at)
  have 4: "wr (A @ n @ CHR '':'' # p @ NUL # s @ NUL # R) (length A + length n) NUL = Some (A @ n @ NUL # p @ NUL # s @ NUL # R)"
    by (rule wr_at)
  show ?thesis using 1 2 3 4 by (simp add: url_credentials_def add_ac)
qed

text \<open>The port.\<close>

lemma url_port_none:
  "no_chars '':'' s \<Longrightarrow> url_port url (length A) (A @ s @ NUL # R) = Some (Inr (url, A @ s @ NUL # R))"
  by (simp add: url_port_def c_strchr_none no_chars_iff)

lemma url_port_some:
  assumes "no_chars '':'' s" "ds \<noteq> []" "list_all c_isdigit ds" "dec_val ds < 2 ^ 31"
    and "u_path url = None \<or> u_path url = Some (length A + length s + length ds + 2)"
  shows "url_port url (length A) (A @ s @ CHR '':'' # ds @ NUL # R) =
    Some (Inr (url\<lparr>u_port := dec_val ds\<rparr>, A @ s @ NUL # ds @ NUL # R))"
proof -
  have 1: "c_strchr (A @ s @ CHR '':'' # ds @ NUL # R) (length A) (CHR '':'') = Some (Some (length A + length s))"
    by (rule c_strchr_found) (use assms in \<open>auto simp: no_chars_iff\<close>)
  have 2: "wr (A @ s @ CHR '':'' # ds @ NUL # R) (length A + length s) NUL = Some (A @ s @ NUL # ds @ NUL # R)"
    by (rule wr_at)
  obtain d ds' where ds: "ds = d # ds'" using assms(2) by (cases ds) auto
  have 3: "rd (A @ s @ NUL # ds @ NUL # R) (length A + length s + 1) = Some d" "d \<noteq> NUL"
    using digits_no_chars [OF assms(3)] by (auto simp: ds rd_def nth_append no_chars_def)
  have 4: "natoi (A @ s @ NUL # ds @ NUL # R) (length A + length s + 1) (length ds) = Some (dec_val ds)"
    using natoi_digits [OF assms(3,4), of "A @ s @ [NUL]" "NUL # R"] by simp
  have 5: "c_atoi (A @ s @ NUL # ds @ NUL # R) (length A + length s + 1) = Some (dec_val ds)"
    using c_atoi_digits [OF assms(3,2,4), of "A @ s @ [NUL]" R] by simp
  show ?thesis using 1 2 3 4 5 assms(5) unfolding url_port_def by (auto simp: add_ac)
qed

definition field_text :: "string \<Rightarrow> nat option \<Rightarrow> string option" where
  "field_text buf p = (case p of None \<Rightarrow> None | Some off \<Rightarrow> c_str buf off)"

lemma points_text: "points (length X) R p part \<Longrightarrow> field_text (X @ R) p = part"
  by (auto simp: points_def field_text_def c_str_def split: option.splits)

lemma text_at: "NUL \<notin> set s \<Longrightarrow> field_text (A @ s @ NUL # t) (Some (length A)) = Some s"
  using c_str_at [of "length A" "A @ s @ NUL # t" s t] by (simp add: field_text_def)

definition cred_text :: "(string \<times> string) option \<Rightarrow> string" where
  "cred_text c = (case c of None \<Rightarrow> [] | Some (n, p) \<Rightarrow> n @ CHR '':'' # p @ ''@'')"

definition url_reads :: "url_parts \<Rightarrow> iwn_url \<Rightarrow> string \<Rightarrow> bool" where
  "url_reads u url buf \<longleftrightarrow>
     field_text buf (u_scheme url) = Some (up_scheme u) \<and>
     field_text buf (u_username url) = map_option fst (up_cred u) \<and>
     field_text buf (u_password url) = map_option snd (up_cred u) \<and>
     field_text buf (u_host url) = Some (up_host u) \<and>
     u_port url = (case up_port u of None \<Rightarrow> 0 | Some s \<Rightarrow> dec_val s) \<and>
     field_text buf (u_path url) = up_path u \<and>
     field_text buf (u_query url) = up_query u \<and>
     field_text buf (u_fragment url) = up_fragment u"

text \<open>Host and port behind a prefix \<open>A\<close> that already holds the scheme and the credentials.\<close>

lemma url_port_host_port:
  assumes "wf_url u" "u_path url = None \<or> u_path url = Some (length A + length (host_port u) + 1)" "u_port url = 0"
  shows "\<exists>X. url_port url (length A) (A @ host_port u @ NUL # R) =
      Some (Inr (url\<lparr>u_port := (case up_port u of None \<Rightarrow> 0 | Some s \<Rightarrow> dec_val s)\<rparr>, A @ up_host u @ NUL # X @ R)) \<and>
    length X = length (opt_part (CHR '':'') (up_port u))"
proof (cases "up_port u")
  case None
  moreover have "url\<lparr>u_port := 0\<rparr> = url" using assms(3) by (cases url) simp
  ultimately show ?thesis using assms(1) url_port_none [of "up_host u" url A R]
    by (intro exI [of _ "[]"]) (auto simp: host_port_def wf_url_def no_chars_iff)
next
  case (Some ds)
  then have "url_port url (length A) (A @ up_host u @ CHR '':'' # ds @ NUL # R) =
      Some (Inr (url\<lparr>u_port := dec_val ds\<rparr>, A @ up_host u @ NUL # ds @ NUL # R))"
    using assms by (intro url_port_some) (auto simp: host_port_def wf_url_def no_chars_iff)
  then show ?thesis using Some by (intro exI [of _ "ds @ [NUL]"]) (simp add: host_port_def)
qed

lemma host_port_no_chars: "wf_url u \<Longrightarrow> no_chars ''@/?#'' (host_port u)"
proof -
  assume wf: "wf_url u"
  show ?thesis
  proof (cases "up_port u")
    case (Some ds)
    with wf digits_no_chars [of ds] show ?thesis by (auto simp: host_port_def wf_url_def no_chars_iff)
  qed (use wf in \<open>auto simp: host_port_def wf_url_def no_chars_iff\<close>)
qed

lemma cred_no_chars: "wf_url u \<Longrightarrow> no_chars ''/?#'' (cred_text (up_cred u))"
  by (auto simp: wf_url_def cred_text_def no_chars_iff split: option.splits)

text \<open>The credentials, host and port together.\<close>

lemma url_authority:
  assumes wf: "wf_url u"
    and path: "u_path url = None \<or> u_path url = Some (length P + length (cred_text (up_cred u) @ host_port u) + 1)"
    and url: "u_host url = Some (length P)" "u_username url = None" "u_password url = None" "u_port url = 0"
  shows "\<exists>url1 host buf1 url2 buf2 X.
    url_credentials url (length P) (P @ (cred_text (up_cred u) @ host_port u) @ NUL # R) = Some (Inr (url1, host, buf1)) \<and>
    (\<exists>c. rd buf1 host = Some c \<and> c \<noteq> NUL) \<and> url_port url1 host buf1 = Some (Inr (url2, buf2)) \<and>
    (\<exists>c. rd buf2 host = Some c \<and> c \<noteq> NUL) \<and> buf2 = P @ X @ R \<and>
    length X = length (cred_text (up_cred u) @ host_port u) + 1 \<and>
    field_text buf2 (u_username url2) = map_option fst (up_cred u) \<and>
    field_text buf2 (u_password url2) = map_option snd (up_cred u) \<and>
    field_text buf2 (u_host url2) = Some (up_host u) \<and>
    u_port url2 = (case up_port u of None \<Rightarrow> 0 | Some s \<Rightarrow> dec_val s) \<and>
    u_scheme url2 = u_scheme url \<and> u_path url2 = u_path url \<and> u_query url2 = u_query url \<and> u_fragment url2 = u_fragment url"
proof -
  obtain h hs where h: "up_host u = h # hs" "h \<noteq> NUL" "NUL \<notin> set hs"
    using wf by (cases "up_host u") (auto simp: wf_url_def no_chars_iff)
  have host: "rd (A @ up_host u @ Y) (length A) = Some h" "rd (A @ host_port u @ Y) (length A) = Some h" for A Y
    by (simp_all add: rd_def nth_append h host_port_def)
  show ?thesis
  proof (cases "up_cred u")
    case None
    have 1: "url_credentials url (length P) (P @ host_port u @ NUL # R) = Some (Inr (url, length P, P @ host_port u @ NUL # R))"
      using host_port_no_chars [OF wf] by (intro url_credentials_none) (simp add: no_chars_iff)
    obtain X where X: "url_port url (length P) (P @ host_port u @ NUL # R) =
        Some (Inr (url\<lparr>u_port := (case up_port u of None \<Rightarrow> 0 | Some s \<Rightarrow> dec_val s)\<rparr>, P @ up_host u @ NUL # X @ R))"
        "length X = length (opt_part (CHR '':'') (up_port u))"
      using url_port_host_port [OF wf, of url P R] path url(4) None by (auto simp: cred_text_def)
    show ?thesis
      using None 1 X host [of P] h url text_at [of "up_host u" P "X @ R"]
      by (intro exI [of _ url] exI [of _ "length P"] exI [of _ "P @ host_port u @ NUL # R"]
            exI [of _ "url\<lparr>u_port := (case up_port u of None \<Rightarrow> 0 | Some s \<Rightarrow> dec_val s)\<rparr>"]
            exI [of _ "P @ up_host u @ NUL # X @ R"] exI [of _ "up_host u @ NUL # X"])
        (simp add: cred_text_def field_text_def host_port_def)
  next
    case (Some np)
    obtain n p where np: "np = (n, p)" by fastforce
    let ?A = "P @ n @ NUL # p @ [NUL]"
    let ?url1 = "url\<lparr>u_username := Some (length P), u_host := Some (length ?A), u_password := Some (length P + length n + 1)\<rparr>"
    let ?url2 = "?url1\<lparr>u_port := (case up_port u of None \<Rightarrow> 0 | Some s \<Rightarrow> dec_val s)\<rparr>"
    have c: "no_chars '':@'' n" "n \<noteq> []" "no_chars ''@'' p" "NUL \<notin> set n" "NUL \<notin> set p"
      using wf Some np by (auto simp: wf_url_def no_chars_iff)
    have 1: "url_credentials url (length P) (P @ cred_text (up_cred u) @ host_port u @ NUL # R) =
        Some (Inr (?url1, length ?A, ?A @ host_port u @ NUL # R))"
      using url_credentials_some [OF c(1-3), of url P "host_port u" R] Some np by (simp add: cred_text_def add_ac)
    obtain X where X: "url_port ?url1 (length ?A) (?A @ host_port u @ NUL # R) = Some (Inr (?url2, ?A @ up_host u @ NUL # X @ R))"
        "length X = length (opt_part (CHR '':'') (up_port u))"
      using url_port_host_port [OF wf, of ?url1 ?A R] path url(4) Some np by (auto simp: cred_text_def add_ac)
    have t: "field_text (?A @ up_host u @ NUL # X @ R) (Some (length P)) = Some n"
      "field_text (?A @ up_host u @ NUL # X @ R) (Some (length P + length n + 1)) = Some p"
      "field_text (?A @ up_host u @ NUL # X @ R) (Some (length ?A)) = Some (up_host u)"
      using text_at [OF c(4), of P "p @ [NUL] @ up_host u @ NUL # X @ R"]
        text_at [OF c(5), of "P @ n @ [NUL]" "up_host u @ NUL # X @ R"] text_at [of "up_host u" ?A "X @ R"] h by simp_all
    show ?thesis
      using Some np 1 X host [of ?A] h url t
      by (intro exI [of _ ?url1] exI [of _ "length ?A"] exI [of _ "?A @ host_port u @ NUL # R"] exI [of _ ?url2]
            exI [of _ "?A @ up_host u @ NUL # X @ R"] exI [of _ "n @ NUL # p @ NUL # up_host u @ NUL # X"])
        (simp add: cred_text_def host_port_def)
  qed
qed

text \<open>
  C18: The URL parser gives back the parts of a URL. For every absolute URL put together from a
  scheme, optional credentials, a host, an optional decimal port, path, query and fragment, none
  of which contains a character that ends it, the parser returns 0, the pointers it stores lead to
  exactly these parts, terminated in place, missing parts are null and the port has its value.
\<close>

theorem url_parse_print:
  assumes "wf_url u"
  shows "\<exists>url buf. iwn_url_parse (Some (print_url u @ [NUL])) = Some (0, url, buf) \<and> url_reads u url buf"
proof -
  define a where "a = cred_text (up_cred u) @ host_port u"
  define m where "m = up_scheme u @ ''://'' @ a @ opt_part (CHR ''/'') (up_path u)"
  define P where "P = up_scheme u @ NUL # ''//''"
  define q where "q = opt_part (CHR ''?'') (up_query u)"
  note parts = assms [unfolded wf_url_def]
  have a: "NUL \<notin> set a" "CHR ''/'' \<notin> set a" "no_chars ''?#'' a"
    using cred_no_chars [OF assms] host_port_no_chars [OF assms] by (auto simp: a_def no_chars_iff)
  have m: "no_chars ''?#'' m" using a(3) parts by (cases "up_path u") (auto simp: m_def no_chars_iff)
  have q: "no_chars ''#'' q" using parts by (cases "up_query u") (auto simp: q_def no_chars_iff)
  have 1: "NUL \<notin> set (m @ q)" "CHR ''#'' \<notin> set (m @ q)" "CHR ''#'' \<noteq> NUL" "\<forall>x\<in>set_option (up_fragment u). NUL \<notin> set x"
    using m q parts by (auto simp: no_chars_iff)
  have 2: "NUL \<notin> set m" "CHR ''?'' \<notin> set m" "CHR ''?'' \<noteq> NUL" "\<forall>x\<in>set_option (up_query u). NUL \<notin> set x"
    using m parts by (auto simp: no_chars_iff)
  have 3: "CHR ''/'' \<noteq> NUL" "\<forall>x\<in>set_option (up_path u). NUL \<notin> set x" using parts by (auto simp: no_chars_iff)
  obtain R1 fo where f: "find_fragment (print_url u @ [NUL]) 0 = Some (fo, m @ q @ NUL # R1)"
      "points (length (m @ q) + 1) R1 fo (up_fragment u)"
    using cut_part [OF 1, of "[]" "[]"]
    by (auto simp: find_fragment_def print_url_def m_def q_def a_def cred_text_def)
  obtain R2 qo where qu: "find_query (m @ q @ NUL # R1) 0 = Some (qo, m @ NUL # R2)"
      "points (length m + 1) R2 qo (up_query u)" "points (length m + 1) R2 fo (up_fragment u)"
    using cut_part [OF 2, of "[]" R1] f(2) by (auto simp: find_query_def q_def)
  have rel: "is_relative (m @ NUL # R2) 0 = Some False"
    using parts by (cases "up_scheme u") (auto simp: is_relative_def rd_def m_def)
  have sch: "parse_scheme (m @ NUL # R2) 0 = Some (Some (length P), P @ a @ opt_part (CHR ''/'') (up_path u) @ NUL # R2)"
    using parse_scheme_found [of "up_scheme u" "a @ opt_part (CHR ''/'') (up_path u) @ NUL # R2"] parts
    by (auto simp: m_def P_def no_chars_iff)
  have len: "length m = length P + length a + length (opt_part (CHR ''/'') (up_path u))" by (simp add: m_def P_def)
  obtain R3 po where pa: "find_path (P @ a @ opt_part (CHR ''/'') (up_path u) @ NUL # R2) (length P) = Some (po, P @ a @ NUL # R3)"
      "points (length P + length a + 1) R3 po (up_path u)" "points (length P + length a + 1) R3 qo (up_query u)"
      "points (length P + length a + 1) R3 fo (up_fragment u)" "po = None \<or> po = Some (length P + length a + 1)"
    using cut_part [OF a(1,2) 3, of P R2] qu(2,3) unfolding len find_path_def by blast
  let ?url = "iwn_url0\<lparr>u_fragment := fo, u_query := qo, u_scheme := Some 0, u_host := Some (length P), u_path := po\<rparr>"
  obtain url1 host buf1 url2 buf2 X where au:
      "url_credentials ?url (length P) (P @ a @ NUL # R3) = Some (Inr (url1, host, buf1))"
      "\<exists>c. rd buf1 host = Some c \<and> c \<noteq> NUL" "url_port url1 host buf1 = Some (Inr (url2, buf2))"
      "\<exists>c. rd buf2 host = Some c \<and> c \<noteq> NUL" "buf2 = P @ X @ R3" "length X = length a + 1"
      "field_text buf2 (u_username url2) = map_option fst (up_cred u)"
      "field_text buf2 (u_password url2) = map_option snd (up_cred u)"
      "field_text buf2 (u_host url2) = Some (up_host u)"
      "u_port url2 = (case up_port u of None \<Rightarrow> 0 | Some s \<Rightarrow> dec_val s)"
      "u_scheme url2 = u_scheme ?url" "u_path url2 = u_path ?url" "u_query url2 = u_query ?url" "u_fragment url2 = u_fragment ?url"
  proof -
    have "u_path ?url = None \<or> u_path ?url = Some (length P + length a + 1)" "u_host ?url = Some (length P)"
      "u_username ?url = None" "u_password ?url = None" "u_port ?url = 0"
      using pa(5) by (simp_all add: iwn_url0_def)
    from url_authority [OF assms, folded a_def, OF this, of R3] that show thesis by metis
  qed
  have start: "\<exists>c. rd (P @ a @ opt_part (CHR ''/'') (up_path u) @ NUL # R2) (length P) = Some c \<and> c \<noteq> NUL"
  proof -
    have "a \<noteq> []" using parts by (simp add: a_def host_port_def)
    then obtain c r where "a = c # r" by (cases a) auto
    then show ?thesis using a(1) by (auto simp: rd_def nth_append)
  qed
  have X: "points (length (P @ X)) R3 po (up_path u)" "points (length (P @ X)) R3 qo (up_query u)"
    "points (length (P @ X)) R3 fo (up_fragment u)"
    using pa(2-4) au(6) by (simp_all add: add_ac)
  have "url_reads u url2 buf2"
    using au(7-14) points_text [OF X(1)] points_text [OF X(2)] points_text [OF X(3)]
      text_at [of "up_scheme u" "[]" "''//'' @ X @ R3"] parts
    by (simp add: url_reads_def au(5) P_def no_chars_iff)
  moreover have "iwn_url_parse (Some (print_url u @ [NUL])) = Some (0, url2, buf2)"
    using f(1) qu(1) rel sch start pa(1) au(1-4)
    by (auto simp: iwn_url_parse_def url_absolute_def)
  ultimately show ?thesis by blast
qed

theorem url_parse_print_witness:
  "\<exists>url buf. iwn_url_parse (Some (print_url
       \<lparr>up_scheme = ''http'', up_cred = Some (''u'', ''p:w''), up_host = ''h.org'', up_port = Some ''8080'',
        up_path = Some ''a/b'', up_query = Some ''q=/'', up_fragment = None\<rparr> @ [NUL])) = Some (0, url, buf) \<and>
    url_reads \<lparr>up_scheme = ''http'', up_cred = Some (''u'', ''p:w''), up_host = ''h.org'', up_port = Some ''8080'',
        up_path = Some ''a/b'', up_query = Some ''q=/'', up_fragment = None\<rparr> url buf"
  by (rule url_parse_print)
    (simp add: wf_url_def no_chars_def c_isdigit_def dec_val_def cval_def)

end
