(* ===== verification/Http_Parser.thy ===== *)
theory Http_Parser
  imports Iwn_Prelude
begin

text \<open>
  The incremental HTTP request parser of \<open>src/http/iwn_http_server.c\<close>: the receive stream
  (\<open>_stream_*\<close>), the two table-driven automata (\<open>_transitions\<close>, \<open>_meta_transitions\<close>),
  \<open>_meta_emit_token\<close>, \<open>_transition\<close> and \<open>_token_parse\<close>.

  The tables are the arrays of the source, read with a checked index, so that a state without a
  row (\<open>BR\<close> in the first table, \<open>M_ERR\<close> in the second) gives an out-of-range access. The parts of
  \<open>struct client\<close> the parser touches are the record \<open>pclient\<close>, which the client theory extends.
  \<open>_token_parse\<close> calls the proxy check of the server when the headers end; here the check is an
  argument. Arithmetic wraps at the width the source gives the variable.
\<close>

section \<open>Enumerations and tables\<close>

datatype token_e =
  HS_TOK_NONE | HS_TOK_METHOD | HS_TOK_TARGET | HS_TOK_VERSION
| HS_TOK_HEADER_KEY | HS_TOK_HEADER_VAL | HS_TOK_CHUNK_BODY | HS_TOK_BODY
| HS_TOK_BODY_STREAM | HS_TOK_REQ_END | HS_TOK_EOF | HS_TOK_ERROR

datatype char_type_e =
  HS_SPC | HS_NL | HS_CR | HS_COLN | HS_TAB | HS_SCOLN
| HS_DIGIT | HS_HEX | HS_ALPHA | HS_TCHAR | HS_VCHAR | HS_ETC

datatype meta_state_e =
  M_WFK | M_ANY | M_MTE | M_MCL | M_CLV | M_MCK | M_SML | M_CHK | M_BIG | M_ZER | M_CSZ
| M_CBD | M_LST | M_STR | M_SEN | M_BDY | M_END | M_ERR

datatype state_e =
  S_ST | S_MT | S_MS | S_TR | S_TS | S_VN | S_RR | S_RN | S_HK | S_HS | S_HV | S_HR | S_HE
| S_ER | S_HN | S_BD | S_CS | S_CB | S_CE | S_CR | S_CN | S_CD | S_C1 | S_C2 | S_BR

fun char_type_num :: "char_type_e \<Rightarrow> nat" where
  "char_type_num HS_SPC = 0" | "char_type_num HS_NL = 1" | "char_type_num HS_CR = 2"
| "char_type_num HS_COLN = 3" | "char_type_num HS_TAB = 4" | "char_type_num HS_SCOLN = 5"
| "char_type_num HS_DIGIT = 6" | "char_type_num HS_HEX = 7" | "char_type_num HS_ALPHA = 8"
| "char_type_num HS_TCHAR = 9" | "char_type_num HS_VCHAR = 10" | "char_type_num HS_ETC = 11"

fun meta_num :: "meta_state_e \<Rightarrow> nat" where
  "meta_num M_WFK = 0" | "meta_num M_ANY = 1" | "meta_num M_MTE = 2" | "meta_num M_MCL = 3"
| "meta_num M_CLV = 4" | "meta_num M_MCK = 5" | "meta_num M_SML = 6" | "meta_num M_CHK = 7"
| "meta_num M_BIG = 8" | "meta_num M_ZER = 9" | "meta_num M_CSZ = 10" | "meta_num M_CBD = 11"
| "meta_num M_LST = 12" | "meta_num M_STR = 13" | "meta_num M_SEN = 14" | "meta_num M_BDY = 15"
| "meta_num M_END = 16" | "meta_num M_ERR = 17"

fun state_num :: "state_e \<Rightarrow> nat" where
  "state_num S_ST = 0" | "state_num S_MT = 1" | "state_num S_MS = 2" | "state_num S_TR = 3"
| "state_num S_TS = 4" | "state_num S_VN = 5" | "state_num S_RR = 6" | "state_num S_RN = 7"
| "state_num S_HK = 8" | "state_num S_HS = 9" | "state_num S_HV = 10" | "state_num S_HR = 11"
| "state_num S_HE = 12" | "state_num S_ER = 13" | "state_num S_HN = 14" | "state_num S_BD = 15"
| "state_num S_CS = 16" | "state_num S_CB = 17" | "state_num S_CE = 18" | "state_num S_CR = 19"
| "state_num S_CN = 20" | "state_num S_CD = 21" | "state_num S_C1 = 22" | "state_num S_C2 = 23"
| "state_num S_BR = 24"

text \<open>The values of \<open>enum meta_type_e\<close> and of the event macros that share its numbers.\<close>

datatype meta_type_e =
  HS_META_NOT_CONTENT_LEN | HS_META_NOT_TRANSFER_ENC | HS_META_END_KEY
| HS_META_END_VALUE | HS_META_END_HEADERS | HS_META_LARGE_BODY

fun meta_type_num :: "meta_type_e \<Rightarrow> nat" where
  "meta_type_num HS_META_NOT_CONTENT_LEN = 0"
| "meta_type_num HS_META_NOT_TRANSFER_ENC = 1"
| "meta_type_num HS_META_END_KEY = 2"
| "meta_type_num HS_META_END_VALUE = 3"
| "meta_type_num HS_META_END_HEADERS = 4"
| "meta_type_num HS_META_LARGE_BODY = 5"

abbreviation HS_META_NOT_CHUNKED :: meta_type_e where
  "HS_META_NOT_CHUNKED \<equiv> HS_META_NOT_CONTENT_LEN"

abbreviation HS_META_NON_ZERO :: meta_type_e where
  "HS_META_NON_ZERO \<equiv> HS_META_NOT_CONTENT_LEN"

abbreviation HS_META_END_CHK_SIZE :: meta_type_e where
  "HS_META_END_CHK_SIZE \<equiv> HS_META_NOT_TRANSFER_ENC"

abbreviation HS_META_END_CHUNK :: meta_type_e where
  "HS_META_END_CHUNK \<equiv> HS_META_END_KEY"

abbreviation HS_META_NEXT :: meta_type_e where
  "HS_META_NEXT \<equiv> HS_META_NOT_CONTENT_LEN"

definition transition_rows :: "state_e list list" where
  "transition_rows = [
   [S_BR, S_BR, S_BR, S_BR, S_BR, S_BR, S_BR, S_MT, S_MT, S_MT, S_BR, S_BR],
   [S_MS, S_BR, S_BR, S_BR, S_BR, S_BR, S_MT, S_MT, S_MT, S_MT, S_BR, S_BR],
   [S_BR, S_BR, S_BR, S_BR, S_BR, S_BR, S_TR, S_TR, S_TR, S_TR, S_TR, S_BR],
   [S_TS, S_BR, S_BR, S_TR, S_BR, S_TR, S_TR, S_TR, S_TR, S_TR, S_TR, S_BR],
   [S_BR, S_BR, S_BR, S_BR, S_BR, S_BR, S_VN, S_VN, S_VN, S_VN, S_VN, S_BR],
   [S_BR, S_BR, S_RR, S_BR, S_BR, S_BR, S_VN, S_VN, S_VN, S_VN, S_VN, S_BR],
   [S_BR, S_RN, S_BR, S_BR, S_BR, S_BR, S_BR, S_BR, S_BR, S_BR, S_BR, S_BR],
   [S_BR, S_BR, S_BR, S_BR, S_BR, S_BR, S_HK, S_HK, S_HK, S_HK, S_BR, S_BR],
   [S_BR, S_BR, S_BR, S_HS, S_BR, S_BR, S_HK, S_HK, S_HK, S_HK, S_BR, S_BR],
   [S_HS, S_HS, S_HS, S_HV, S_HS, S_HV, S_HV, S_HV, S_HV, S_HV, S_HV, S_BR],
   [S_HV, S_BR, S_HR, S_HV, S_HV, S_HV, S_HV, S_HV, S_HV, S_HV, S_HV, S_BR],
   [S_BR, S_HE, S_BR, S_BR, S_BR, S_BR, S_BR, S_BR, S_BR, S_BR, S_BR, S_BR],
   [S_BR, S_BR, S_ER, S_BR, S_BR, S_BR, S_HK, S_HK, S_HK, S_HK, S_BR, S_BR],
   [S_BR, S_HN, S_BR, S_BR, S_BR, S_BR, S_BR, S_BR, S_BR, S_BR, S_BR, S_BR],
   [S_BD, S_BD, S_BD, S_BD, S_BD, S_BD, S_BD, S_BD, S_BD, S_BD, S_BD, S_BD],
   [S_BD, S_BD, S_BD, S_BD, S_BD, S_BD, S_BD, S_BD, S_BD, S_BD, S_BD, S_BD],
   [S_BR, S_BR, S_CR, S_BR, S_BR, S_CE, S_CS, S_CS, S_BR, S_BR, S_BR, S_BR],
   [S_CB, S_CB, S_CB, S_CB, S_CB, S_CB, S_CB, S_CB, S_CB, S_CB, S_CB, S_CB],
   [S_BR, S_BR, S_CR, S_CE, S_CE, S_CE, S_CE, S_CE, S_CE, S_CE, S_CE, S_BR],
   [S_BR, S_CN, S_BR, S_BR, S_BR, S_BR, S_BR, S_BR, S_BR, S_BR, S_BR, S_BR],
   [S_CB, S_CB, S_CB, S_CB, S_CB, S_CB, S_CB, S_CB, S_CB, S_CB, S_CB, S_CB],
   [S_BR, S_BR, S_C1, S_BR, S_BR, S_BR, S_BR, S_BR, S_BR, S_BR, S_BR, S_BR],
   [S_BR, S_C2, S_BR, S_BR, S_BR, S_BR, S_BR, S_BR, S_BR, S_BR, S_BR, S_BR],
   [S_BR, S_BR, S_BR, S_BR, S_BR, S_BR, S_CS, S_CS, S_BR, S_BR, S_BR, S_BR]]"

definition transitions :: "state_e list" where
  "transitions = concat transition_rows"

definition meta_transition_rows :: "meta_state_e list list" where
  "meta_transition_rows = [
   [M_WFK, M_WFK, M_WFK, M_ANY, M_END, M_ERR],
   [M_MTE, M_MCL, M_WFK, M_ERR, M_END, M_ERR],
   [M_MTE, M_WFK, M_MCK, M_ERR, M_ERR, M_ERR],
   [M_WFK, M_MCL, M_CLV, M_ERR, M_ERR, M_ERR],
   [M_ERR, M_ERR, M_ERR, M_SML, M_ERR, M_ERR],
   [M_WFK, M_ERR, M_ERR, M_CHK, M_ERR, M_ERR],
   [M_SML, M_SML, M_SML, M_SML, M_BDY, M_BIG],
   [M_CHK, M_CHK, M_CHK, M_CHK, M_ZER, M_ERR],
   [M_BIG, M_BIG, M_BIG, M_BIG, M_STR, M_ERR],
   [M_CSZ, M_LST, M_ERR, M_ERR, M_ERR, M_ERR],
   [M_CSZ, M_CBD, M_ERR, M_ERR, M_ERR, M_ERR],
   [M_CBD, M_CBD, M_ZER, M_ERR, M_ERR, M_ERR],
   [M_LST, M_END, M_END, M_ERR, M_ERR, M_ERR],
   [M_SEN, M_ERR, M_ERR, M_ERR, M_ERR, M_ERR],
   [M_END, M_ERR, M_ERR, M_ERR, M_ERR, M_ERR],
   [M_END, M_ERR, M_ERR, M_ERR, M_ERR, M_ERR],
   [M_WFK, M_ERR, M_ERR, M_ERR, M_ERR, M_ERR]]"

definition meta_transitions :: "meta_state_e list" where
  "meta_transitions = concat meta_transition_rows"

definition ctype :: "char_type_e list" where
  "ctype = [
   HS_ETC, HS_ETC, HS_ETC, HS_ETC, HS_ETC, HS_ETC, HS_ETC,
   HS_ETC, HS_ETC, HS_TAB, HS_NL, HS_ETC, HS_ETC, HS_CR,
   HS_ETC, HS_ETC, HS_ETC, HS_ETC, HS_ETC, HS_ETC, HS_ETC,
   HS_ETC, HS_ETC, HS_ETC, HS_ETC, HS_ETC, HS_ETC, HS_ETC,
   HS_ETC, HS_ETC, HS_ETC, HS_ETC, HS_SPC, HS_TCHAR, HS_VCHAR,
   HS_TCHAR, HS_TCHAR, HS_TCHAR, HS_TCHAR, HS_TCHAR, HS_VCHAR, HS_VCHAR,
   HS_TCHAR, HS_TCHAR, HS_TCHAR, HS_TCHAR, HS_TCHAR, HS_VCHAR, HS_DIGIT,
   HS_DIGIT, HS_DIGIT, HS_DIGIT, HS_DIGIT, HS_DIGIT, HS_DIGIT, HS_DIGIT,
   HS_DIGIT, HS_DIGIT, HS_COLN, HS_SCOLN, HS_VCHAR, HS_VCHAR, HS_VCHAR,
   HS_VCHAR, HS_VCHAR, HS_HEX, HS_HEX, HS_HEX, HS_HEX, HS_HEX,
   HS_HEX, HS_ALPHA, HS_ALPHA, HS_ALPHA, HS_ALPHA, HS_ALPHA, HS_ALPHA,
   HS_ALPHA, HS_ALPHA, HS_ALPHA, HS_ALPHA, HS_ALPHA, HS_ALPHA, HS_ALPHA,
   HS_ALPHA, HS_ALPHA, HS_ALPHA, HS_ALPHA, HS_ALPHA, HS_ALPHA, HS_ALPHA,
   HS_VCHAR, HS_VCHAR, HS_VCHAR, HS_TCHAR, HS_TCHAR, HS_TCHAR, HS_HEX,
   HS_HEX, HS_HEX, HS_HEX, HS_HEX, HS_HEX, HS_ALPHA, HS_ALPHA,
   HS_ALPHA, HS_ALPHA, HS_ALPHA, HS_ALPHA, HS_ALPHA, HS_ALPHA, HS_ALPHA,
   HS_ALPHA, HS_ALPHA, HS_ALPHA, HS_ALPHA, HS_ALPHA, HS_ALPHA, HS_ALPHA,
   HS_ALPHA, HS_ALPHA, HS_ALPHA, HS_ALPHA, HS_VCHAR, HS_TCHAR, HS_VCHAR,
   HS_TCHAR, HS_ETC]"

definition token_start_states :: "token_e list" where
  "token_start_states = [
   HS_TOK_NONE, HS_TOK_METHOD, HS_TOK_NONE, HS_TOK_TARGET, HS_TOK_NONE,
   HS_TOK_VERSION, HS_TOK_NONE, HS_TOK_NONE, HS_TOK_HEADER_KEY, HS_TOK_NONE,
   HS_TOK_HEADER_VAL, HS_TOK_NONE, HS_TOK_NONE, HS_TOK_NONE, HS_TOK_NONE,
   HS_TOK_BODY, HS_TOK_NONE, HS_TOK_CHUNK_BODY, HS_TOK_NONE, HS_TOK_NONE,
   HS_TOK_NONE, HS_TOK_NONE, HS_TOK_NONE, HS_TOK_NONE, HS_TOK_NONE]"

text \<open>The lookups \<open>_token_parse\<close> and \<open>_meta_trigger\<close> make in the tables.\<close>

definition char_type :: "char \<Rightarrow> char_type_e option" where
  "char_type c = (if cval c < 0 then Some HS_ETC else rd ctype (nat (cval c)))"

definition next_state :: "state_e \<Rightarrow> char_type_e \<Rightarrow> state_e option" where
  "next_state s t = rd transitions (state_num s * 12 + char_type_num t)"

definition next_meta :: "meta_state_e \<Rightarrow> meta_type_e \<Rightarrow> meta_state_e option" where
  "next_meta m e = rd meta_transitions (meta_num m * 6 + meta_type_num e)"

definition start_token :: "state_e \<Rightarrow> token_e option" where
  "start_token s = rd token_start_states (state_num s)"

section \<open>The receive stream\<close>

record token =
  tk_index :: int
  tk_len :: int
  tk_type :: token_e

definition token0 :: token where
  "token0 = \<lparr>tk_index = 0, tk_len = 0, tk_type = HS_TOK_NONE\<rparr>"

text \<open>
  A null \<open>buf\<close> is the empty list; an allocated one has \<open>capacity + 1\<close> bytes. The stream has one
  flag, \<open>HS_SF_CONSUMED\<close>.
\<close>

record stream =
  st_buf :: string
  st_token :: token
  st_bytes_total :: int
  st_capacity :: int
  st_length :: int
  st_index :: int
  st_anchor :: int
  st_consumed :: bool

definition stream_next :: "stream \<Rightarrow> (char option \<times> stream) option" where
  "stream_next st =
     (let st = st\<lparr>st_consumed := False\<rparr> in
      if st_index st \<ge> st_length st then Some (None, st)
      else do {
        c \<leftarrow> rdi (st_buf st) (st_index st);
        Some (Some c, st)
      })"

definition stream_consume :: "stream \<Rightarrow> stream" where
  "stream_consume st =
     (if st_consumed st then st
      else st\<lparr>st_consumed := True,
              st_index := s64 (st_index st + 1),
              st_token := (st_token st)\<lparr>tk_len :=
                if tk_type (st_token st) \<noteq> HS_TOK_NONE then s32 (tk_len (st_token st) + 1) else 0\<rparr>\<rparr>)"

text \<open>
  \<open>memcpy\<close> inside one buffer. The C standard leaves a copy between overlapping regions undefined.
\<close>

definition memcpy_in :: "'a list \<Rightarrow> int \<Rightarrow> int \<Rightarrow> int \<Rightarrow> 'a list option" where
  "memcpy_in buf dst src n =
     (if 0 \<le> dst \<and> 0 \<le> src \<and> 0 \<le> n \<and> dst + n \<le> int (length buf) \<and> src + n \<le> int (length buf)
         \<and> (dst + n \<le> src \<or> src + n \<le> dst)
      then Some (take (nat dst) buf @ take (nat n) (drop (nat src) buf) @ drop (nat (dst + n)) buf)
      else None)"

definition stream_shift :: "stream \<Rightarrow> stream option" where
  "stream_shift st =
     (let tk = st_token st in
      if tk_index tk = st_anchor st then Some st
      else do {
        buf \<leftarrow> (if tk_len tk > 0
               then memcpy_in (st_buf st) (st_anchor st) (tk_index tk) (st_length st - tk_index tk)
               else Some (st_buf st));
        Some (st\<lparr>st_buf := buf,
                 st_token := tk\<lparr>tk_index := s32 (st_anchor st)\<rparr>,
                 st_index := st_anchor st + tk_len tk,
                 st_length := st_anchor st + tk_len tk\<rparr>)
      })"

definition stream_anchor :: "stream \<Rightarrow> stream" where
  "stream_anchor st = st\<lparr>st_anchor := st_index st\<rparr>"

definition stream_begin_token :: "stream \<Rightarrow> token_e \<Rightarrow> stream" where
  "stream_begin_token st type =
     st\<lparr>st_token := (st_token st)\<lparr>tk_type := type, tk_index := s32 (st_index st)\<rparr>\<rparr>"

definition stream_emit :: "stream \<Rightarrow> token \<times> stream" where
  "stream_emit st = (st_token st, st\<lparr>st_token := token0\<rparr>)"

definition stream_jump :: "stream \<Rightarrow> int \<Rightarrow> bool \<times> stream" where
  "stream_jump st offset =
     (let st = st\<lparr>st_consumed := True\<rparr> in
      if st_index st + offset > st_length st then (False, st)
      else (True, st\<lparr>st_index := st_index st + offset,
                     st_token := (st_token st)\<lparr>tk_len :=
                       if tk_type (st_token st) = HS_TOK_NONE then 0
                       else s32 (tk_len (st_token st) + offset)\<rparr>\<rparr>))"

definition stream_jumpall :: "stream \<Rightarrow> int \<times> stream" where
  "stream_jumpall st =
     (let offset = st_length st - st_index st in
      (offset,
       st\<lparr>st_consumed := True,
          st_index := st_index st + offset,
          st_token := (st_token st)\<lparr>tk_len :=
            if tk_type (st_token st) = HS_TOK_NONE then 0
            else s32 (tk_len (st_token st) + offset)\<rparr>\<rparr>))"

section \<open>The parser\<close>

text \<open>The limits of \<open>struct iwn_http_server_spec\<close> that the server and the parser consult.\<close>

record server_spec =
  sp_request_buf_max_size :: int
  sp_request_buf_size :: int
  sp_request_timeout_keepalive_sec :: int
  sp_request_timeout_sec :: int
  sp_request_token_max_len :: int
  sp_request_max_headers_count :: int

text \<open>The limits \<open>iwn_http_server_create\<close> puts in the place of missing or too small ones.\<close>

definition spec_defaults :: "server_spec \<Rightarrow> server_spec" where
  "spec_defaults spec =
     \<lparr>sp_request_buf_max_size =
        (if sp_request_buf_max_size spec < 1024 * 1024 then 8 * 1024 * 1024 else sp_request_buf_max_size spec),
      sp_request_buf_size = (if sp_request_buf_size spec < 1023 then 1023 else sp_request_buf_size spec),
      sp_request_timeout_keepalive_sec =
        (if sp_request_timeout_keepalive_sec spec = 0 then 120 else sp_request_timeout_keepalive_sec spec),
      sp_request_timeout_sec = (if sp_request_timeout_sec spec = 0 then 20 else sp_request_timeout_sec spec),
      sp_request_token_max_len =
        (if sp_request_token_max_len spec < 8191 then 8191 else sp_request_token_max_len spec),
      sp_request_max_headers_count =
        (if sp_request_max_headers_count spec < 1 then 127 else sp_request_max_headers_count spec)\<rparr>"

record parser =
  p_content_length :: int
  p_body_consumed :: int
  p_match_index :: int
  p_header_count :: int
  p_state :: state_e
  p_meta :: meta_state_e

definition parser0 :: parser where
  "parser0 = \<lparr>p_content_length = 0, p_body_consumed = 0, p_match_index = 0, p_header_count = 0,
              p_state = S_ST, p_meta = M_WFK\<rparr>"

definition stream_can_contain :: "server_spec \<Rightarrow> stream \<Rightarrow> int \<Rightarrow> bool" where
  "stream_can_contain spec st sz \<longleftrightarrow> sp_request_buf_max_size spec - st_index st + 1 \<ge> sz"

definition meta_trigger :: "meta_type_e \<Rightarrow> parser \<Rightarrow> parser option" where
  "meta_trigger event ps = do {
     to \<leftarrow> next_meta (p_meta ps) event;
     Some (ps\<lparr>p_meta := to\<rparr>)
   }"

definition meta_emit_token :: "parser \<Rightarrow> (token \<times> parser) option" where
  "meta_emit_token ps =
     (case p_meta ps of
        M_SEN \<Rightarrow> do {
          ps \<leftarrow> meta_trigger HS_META_NEXT ps;
          Some (token0\<lparr>tk_type := HS_TOK_CHUNK_BODY\<rparr>, ps)
        }
      | M_END \<Rightarrow> Some (token0\<lparr>tk_type := HS_TOK_REQ_END\<rparr>, parser0)
      | _ \<Rightarrow> Some (token0, ps))"

text \<open>The part of \<open>_transition\<close> before its \<open>switch\<close>.\<close>

definition transition_enter ::
  "server_spec \<Rightarrow> state_e \<Rightarrow> state_e \<Rightarrow> parser \<Rightarrow> stream \<Rightarrow> (token \<times> parser \<times> stream) option" where
  "transition_enter spec from to ps st =
     (let st = (if from = S_HN then stream_anchor st else st) in
      if from = to then Some (token0, ps, st)
      else do {
        type \<leftarrow> start_token to;
        let st = (if type \<noteq> HS_TOK_NONE then stream_begin_token st type else st);
        ps \<leftarrow> (if from = S_CS then meta_trigger HS_META_END_CHK_SIZE ps else Some ps);
        (emitted, ps, st) \<leftarrow>
          (if to = S_HK then
             (let ps = ps\<lparr>p_header_count := s16 (p_header_count ps + 1)\<rparr> in
              Some (if p_header_count ps > sp_request_max_headers_count spec
                    then token0\<lparr>tk_type := HS_TOK_ERROR\<rparr> else token0, ps, st))
           else if to = S_HS then do {
             ps \<leftarrow> meta_trigger HS_META_END_KEY ps;
             let (emitted, st) = stream_emit st;
             Some (emitted, ps, st)
           } else Some (token0, ps, st));
        Some (emitted, ps\<lparr>p_match_index := 0\<rparr>, st)
      })"

text \<open>The macro \<open>MATCH\<close>; \<open>m\<close> keeps its value when the index has left the word.\<close>

definition ascii_low :: "char \<Rightarrow> char" where
  "ascii_low c = (if cval c \<ge> cval CHR ''A'' \<and> cval c \<le> cval CHR ''Z'' then char_of_int (cval c + 32) else c)"

definition MATCH :: "string \<Rightarrow> meta_type_e \<Rightarrow> char \<Rightarrow> char \<Rightarrow> parser \<Rightarrow> (char \<times> parser) option" where
  "MATCH str event c m ps = do {
     m \<leftarrow> (if p_match_index ps < int (length str) then rdi str (p_match_index ps) else Some m);
     ps \<leftarrow> (if ascii_low c \<noteq> m then meta_trigger event ps else Some ps);
     Some (m, ps)
   }"

definition match_incr :: "parser \<Rightarrow> parser" where
  "match_incr ps = ps\<lparr>p_match_index := s16 (p_match_index ps + 1)\<rparr>"

text \<open>The \<open>switch\<close> of \<open>_transition\<close>, case by case.\<close>

definition transition_HK :: "char \<Rightarrow> parser \<Rightarrow> parser option" where
  "transition_HK c ps = do {
     (m, ps) \<leftarrow> MATCH ''transfer-encoding'' HS_META_NOT_TRANSFER_ENC c NUL ps;
     (m, ps) \<leftarrow> MATCH ''content-length'' HS_META_NOT_CONTENT_LEN c m ps;
     Some (match_incr ps)
   }"

definition transition_HV :: "char \<Rightarrow> parser \<Rightarrow> parser option" where
  "transition_HV c ps =
     (if p_meta ps = M_MCK then do {
        (m, ps) \<leftarrow> MATCH ''chunked'' HS_META_NOT_CHUNKED c NUL ps;
        Some (match_incr ps)
      } else if p_meta ps = M_CLV then
        Some (ps\<lparr>p_content_length := s64 (s64 (p_content_length ps * 10) + (cval c - cval CHR ''0''))\<rparr>)
      else Some ps)"

definition transition_HN ::
  "server_spec \<Rightarrow> token \<Rightarrow> parser \<Rightarrow> stream \<Rightarrow> (token \<times> parser) option" where
  "transition_HN spec emitted ps st = do {
     ps \<leftarrow> (if p_meta ps = M_SML \<and> \<not> stream_can_contain spec st (p_content_length ps)
           then meta_trigger HS_META_LARGE_BODY ps else Some ps);
     let emitted = (if p_meta ps = M_BIG \<or> p_meta ps = M_CHK
                    then emitted\<lparr>tk_type := HS_TOK_BODY_STREAM\<rparr> else emitted);
     ps \<leftarrow> meta_trigger HS_META_END_HEADERS ps;
     let ps = (if p_content_length ps = 0 \<and> p_meta ps = M_BDY then ps\<lparr>p_meta := M_END\<rparr> else ps);
     Some (if p_meta ps = M_END then emitted\<lparr>tk_type := HS_TOK_BODY\<rparr> else emitted, ps)
   }"

definition transition_CS :: "char \<Rightarrow> parser \<Rightarrow> parser option" where
  "transition_CS c ps = do {
     ps \<leftarrow> (if c \<noteq> CHR ''0'' then meta_trigger HS_META_NON_ZERO ps else Some ps);
     let add = (\<lambda>d. ps\<lparr>p_content_length := s64 (s64 (p_content_length ps * 16) + d)\<rparr>);
     Some (if cval c \<ge> cval CHR ''A'' \<and> cval c \<le> cval CHR ''F'' then add (cval c - 55)
           else if cval c \<ge> cval CHR ''a'' \<and> cval c \<le> cval CHR ''f'' then add (cval c - 87)
           else if cval c \<ge> cval CHR ''0'' \<and> cval c \<le> cval CHR ''9'' then add (cval c - cval CHR ''0'')
           else ps)
   }"

definition transition_body ::
  "state_e \<Rightarrow> token \<Rightarrow> parser \<Rightarrow> stream \<Rightarrow> (token \<times> parser \<times> stream) option" where
  "transition_body to emitted ps st =
     (let st = (if p_meta ps = M_STR then stream_begin_token st HS_TOK_CHUNK_BODY else st);
          body_left = p_content_length ps - p_body_consumed ps;
          (jumped, st) = stream_jump st (s32 body_left)
      in if jumped then do {
           let (emitted, st) = stream_emit st;
           ps \<leftarrow> meta_trigger HS_META_NEXT ps;
           Some (emitted,
                 ps\<lparr>p_state := (if to = S_CB then S_CD else p_state ps),
                    p_content_length := 0, p_body_consumed := 0\<rparr>, st)
         } else do {
           let (offset, st) = stream_jumpall st;
           let ps = ps\<lparr>p_body_consumed := p_body_consumed ps + offset\<rparr>;
           if p_meta ps = M_STR then do {
             let (emitted, st) = stream_emit st;
             st \<leftarrow> stream_shift st;
             Some (emitted, ps, st)
           } else Some (emitted, ps, st)
         })"

definition transition ::
  "server_spec \<Rightarrow> char \<Rightarrow> state_e \<Rightarrow> state_e \<Rightarrow> parser \<Rightarrow> stream \<Rightarrow>
   (token \<times> parser \<times> stream) option" where
  "transition spec c from to ps st = do {
     (emitted, ps, st) \<leftarrow> transition_enter spec from to ps st;
     case to of
       S_MS \<Rightarrow> (let (emitted, st) = stream_emit st in Some (emitted, ps, st))
     | S_TS \<Rightarrow> (let (emitted, st) = stream_emit st in Some (emitted, ps, st))
     | S_RR \<Rightarrow> do {
         ps \<leftarrow> meta_trigger HS_META_END_VALUE ps;
         let (emitted, st) = stream_emit st;
         Some (emitted, ps, st)
       }
     | S_HR \<Rightarrow> do {
         ps \<leftarrow> meta_trigger HS_META_END_VALUE ps;
         let (emitted, st) = stream_emit st;
         Some (emitted, ps, st)
       }
     | S_HK \<Rightarrow> do { ps \<leftarrow> transition_HK c ps; Some (emitted, ps, st) }
     | S_HV \<Rightarrow> do { ps \<leftarrow> transition_HV c ps; Some (emitted, ps, st) }
     | S_HN \<Rightarrow> do { (emitted, ps) \<leftarrow> transition_HN spec emitted ps st; Some (emitted, ps, st) }
     | S_CS \<Rightarrow> do { ps \<leftarrow> transition_CS c ps; Some (emitted, ps, st) }
     | S_CB \<Rightarrow> transition_body to emitted ps st
     | S_BD \<Rightarrow> transition_body to emitted ps st
     | S_C2 \<Rightarrow> do { ps \<leftarrow> meta_trigger HS_META_END_CHUNK ps; Some (emitted, ps, st) }
     | S_BR \<Rightarrow> Some (emitted\<lparr>tk_type := HS_TOK_ERROR\<rparr>, ps, st)
     | _ \<Rightarrow> Some (emitted, ps, st)
   }"

section \<open>Reading a token\<close>

record pclient =
  cl_parser :: parser
  cl_stream :: stream

text \<open>
  One pass of the loop of \<open>_token_parse\<close> on the byte \<open>c\<close>. \<open>Inl\<close> is the token the function
  returns, \<open>Inr\<close> means that the loop goes on. A proxy that takes over ends the call with an
  empty token.
\<close>

definition token_step ::
  "server_spec \<Rightarrow> ('a pclient_scheme \<Rightarrow> bool \<times> 'a pclient_scheme) \<Rightarrow> char \<Rightarrow> 'a pclient_scheme \<Rightarrow>
   ((token + unit) \<times> 'a pclient_scheme) option" where
  "token_step spec proxy_check c cl = do {
     type \<leftarrow> char_type c;
     to \<leftarrow> next_state (p_state (cl_parser cl)) type;
     let (proxied, cl) = (if to = S_HN then proxy_check cl else (False, cl));
     if proxied then Some (Inl token0, cl)
     else do {
       let from = p_state (cl_parser cl);
       let to = (if to = S_BD \<and> from = S_HN \<and> p_meta (cl_parser cl) = M_ZER then S_CS else to);
       (emitted, ps, st) \<leftarrow> transition spec c from to ((cl_parser cl)\<lparr>p_state := to\<rparr>) (cl_stream cl);
       let st = stream_consume st;
       let cl = cl\<lparr>cl_parser := ps, cl_stream := st\<rparr>;
       Some (if tk_type emitted \<noteq> HS_TOK_NONE then Inl emitted else Inr (), cl)
     }
   }"

text \<open>
  The loop. Its value is \<open>None\<close> also when it does not end. The first component of the result is
  the token returned from inside the loop, if any.
\<close>

partial_function (option) token_loop ::
  "server_spec \<Rightarrow> ('a pclient_scheme \<Rightarrow> bool \<times> 'a pclient_scheme) \<Rightarrow> 'a pclient_scheme \<Rightarrow>
   (token option \<times> 'a pclient_scheme) option" where
  "token_loop spec proxy_check cl =
     (case stream_next (cl_stream cl) of
        None \<Rightarrow> None
      | Some (None, st) \<Rightarrow> Some (None, cl\<lparr>cl_stream := st\<rparr>)
      | Some (Some c, st) \<Rightarrow>
          (case token_step spec proxy_check c (cl\<lparr>cl_stream := st\<rparr>) of
             None \<Rightarrow> None
           | Some (Inl tok, cl) \<Rightarrow> Some (Some tok, cl)
           | Some (Inr u, cl) \<Rightarrow> token_loop spec proxy_check cl))"

definition token_parse_end ::
  "server_spec \<Rightarrow> 'a pclient_scheme \<Rightarrow> (token \<times> 'a pclient_scheme) option" where
  "token_parse_end spec cl = do {
     st \<leftarrow> (if p_state (cl_parser cl) = S_CB then stream_shift (cl_stream cl) else Some (cl_stream cl));
     (token, ps) \<leftarrow> meta_emit_token (cl_parser cl);
     let ct = st_token st;
     let token = (if tk_type ct \<noteq> HS_TOK_CHUNK_BODY \<and> tk_type ct \<noteq> HS_TOK_BODY
                     \<and> tk_len ct > sp_request_token_max_len spec
                  then token\<lparr>tk_type := HS_TOK_ERROR\<rparr> else token);
     Some (token, cl\<lparr>cl_parser := ps, cl_stream := st\<rparr>)
   }"

definition token_parse ::
  "server_spec \<Rightarrow> ('a pclient_scheme \<Rightarrow> bool \<times> 'a pclient_scheme) \<Rightarrow> 'a pclient_scheme \<Rightarrow>
   (token \<times> 'a pclient_scheme) option" where
  "token_parse spec proxy_check cl = do {
     (token, ps) \<leftarrow> meta_emit_token (cl_parser cl);
     let cl = cl\<lparr>cl_parser := ps\<rparr>;
     if tk_type token \<noteq> HS_TOK_NONE then Some (token, cl)
     else do {
       (res, cl) \<leftarrow> token_loop spec proxy_check cl;
       case res of
         Some token \<Rightarrow> Some (token, cl)
       | None \<Rightarrow> token_parse_end spec cl
     }
   }"

section \<open>The tables row by row\<close>

lemma transition_rows_shape: "length transition_rows = 24" "\<forall>r\<in>set transition_rows. length r = 12"
  by (simp_all add: transition_rows_def)

lemma meta_transition_rows_shape:
  "length meta_transition_rows = 17" "\<forall>r\<in>set meta_transition_rows. length r = 6"
  by (simp_all add: meta_transition_rows_def)

lemma next_state_row:
  "s \<noteq> S_BR \<Longrightarrow> next_state s t = rd (transition_rows ! state_num s) (char_type_num t)"
  unfolding next_state_def transitions_def
  by (rule rd_concat_rows [OF transition_rows_shape(2)]) (cases s; cases t; simp add: transition_rows_shape(1))+

lemma next_meta_row:
  "m \<noteq> M_ERR \<Longrightarrow> next_meta m e = rd (meta_transition_rows ! meta_num m) (meta_type_num e)"
  unfolding next_meta_def meta_transitions_def
  by (rule rd_concat_rows [OF meta_transition_rows_shape(2)]) (cases m; cases e; simp add: meta_transition_rows_shape(1))+

lemma next_state_BR: "next_state S_BR t = None"
  using transition_rows_shape by (simp add: next_state_def transitions_def rd_def length_concat
      sum_list_const_rows [OF transition_rows_shape(2)])

lemma next_meta_ERR: "next_meta M_ERR e = None"
  using meta_transition_rows_shape by (simp add: next_meta_def meta_transitions_def rd_def length_concat
      sum_list_const_rows [OF meta_transition_rows_shape(2)])

lemma next_state_simps [simp]:
  "next_state S_ST t = Some (case t of HS_HEX \<Rightarrow> S_MT | HS_ALPHA \<Rightarrow> S_MT | HS_TCHAR \<Rightarrow> S_MT | _ \<Rightarrow> S_BR)"
  "next_state S_MT t = Some (case t of HS_SPC \<Rightarrow> S_MS | HS_DIGIT \<Rightarrow> S_MT | HS_HEX \<Rightarrow> S_MT | HS_ALPHA \<Rightarrow> S_MT | HS_TCHAR \<Rightarrow> S_MT | _ \<Rightarrow> S_BR)"
  "next_state S_MS t = Some (case t of HS_DIGIT \<Rightarrow> S_TR | HS_HEX \<Rightarrow> S_TR | HS_ALPHA \<Rightarrow> S_TR | HS_TCHAR \<Rightarrow> S_TR | HS_VCHAR \<Rightarrow> S_TR | _ \<Rightarrow> S_BR)"
  "next_state S_TR t = Some (case t of HS_SPC \<Rightarrow> S_TS | HS_NL \<Rightarrow> S_BR | HS_CR \<Rightarrow> S_BR | HS_TAB \<Rightarrow> S_BR | HS_ETC \<Rightarrow> S_BR | _ \<Rightarrow> S_TR)"
  "next_state S_TS t = Some (case t of HS_DIGIT \<Rightarrow> S_VN | HS_HEX \<Rightarrow> S_VN | HS_ALPHA \<Rightarrow> S_VN | HS_TCHAR \<Rightarrow> S_VN | HS_VCHAR \<Rightarrow> S_VN | _ \<Rightarrow> S_BR)"
  "next_state S_VN t = Some (case t of HS_CR \<Rightarrow> S_RR | HS_DIGIT \<Rightarrow> S_VN | HS_HEX \<Rightarrow> S_VN | HS_ALPHA \<Rightarrow> S_VN | HS_TCHAR \<Rightarrow> S_VN | HS_VCHAR \<Rightarrow> S_VN | _ \<Rightarrow> S_BR)"
  "next_state S_RR t = Some (case t of HS_NL \<Rightarrow> S_RN | _ \<Rightarrow> S_BR)"
  "next_state S_RN t = Some (case t of HS_DIGIT \<Rightarrow> S_HK | HS_HEX \<Rightarrow> S_HK | HS_ALPHA \<Rightarrow> S_HK | HS_TCHAR \<Rightarrow> S_HK | _ \<Rightarrow> S_BR)"
  "next_state S_HK t = Some (case t of HS_COLN \<Rightarrow> S_HS | HS_DIGIT \<Rightarrow> S_HK | HS_HEX \<Rightarrow> S_HK | HS_ALPHA \<Rightarrow> S_HK | HS_TCHAR \<Rightarrow> S_HK | _ \<Rightarrow> S_BR)"
  "next_state S_HS t = Some (case t of HS_SPC \<Rightarrow> S_HS | HS_NL \<Rightarrow> S_HS | HS_CR \<Rightarrow> S_HS | HS_TAB \<Rightarrow> S_HS | HS_ETC \<Rightarrow> S_BR | _ \<Rightarrow> S_HV)"
  "next_state S_HV t = Some (case t of HS_NL \<Rightarrow> S_BR | HS_CR \<Rightarrow> S_HR | HS_ETC \<Rightarrow> S_BR | _ \<Rightarrow> S_HV)"
  "next_state S_HR t = Some (case t of HS_NL \<Rightarrow> S_HE | _ \<Rightarrow> S_BR)"
  "next_state S_HE t = Some (case t of HS_CR \<Rightarrow> S_ER | HS_DIGIT \<Rightarrow> S_HK | HS_HEX \<Rightarrow> S_HK | HS_ALPHA \<Rightarrow> S_HK | HS_TCHAR \<Rightarrow> S_HK | _ \<Rightarrow> S_BR)"
  "next_state S_ER t = Some (case t of HS_NL \<Rightarrow> S_HN | _ \<Rightarrow> S_BR)"
  "next_state S_HN t = Some S_BD"
  "next_state S_BD t = Some S_BD"
  "next_state S_CS t = Some (case t of HS_CR \<Rightarrow> S_CR | HS_SCOLN \<Rightarrow> S_CE | HS_DIGIT \<Rightarrow> S_CS | HS_HEX \<Rightarrow> S_CS | _ \<Rightarrow> S_BR)"
  "next_state S_CB t = Some S_CB"
  "next_state S_CE t = Some (case t of HS_SPC \<Rightarrow> S_BR | HS_NL \<Rightarrow> S_BR | HS_CR \<Rightarrow> S_CR | HS_ETC \<Rightarrow> S_BR | _ \<Rightarrow> S_CE)"
  "next_state S_CR t = Some (case t of HS_NL \<Rightarrow> S_CN | _ \<Rightarrow> S_BR)"
  "next_state S_CN t = Some S_CB"
  "next_state S_CD t = Some (case t of HS_CR \<Rightarrow> S_C1 | _ \<Rightarrow> S_BR)"
  "next_state S_C1 t = Some (case t of HS_NL \<Rightarrow> S_C2 | _ \<Rightarrow> S_BR)"
  "next_state S_C2 t = Some (case t of HS_DIGIT \<Rightarrow> S_CS | HS_HEX \<Rightarrow> S_CS | _ \<Rightarrow> S_BR)"
  by (cases t; simp add: next_state_row transition_rows_def rd_def)+

lemma next_meta_simps [simp]:
  "next_meta M_WFK e = Some (case e of HS_META_END_VALUE \<Rightarrow> M_ANY | HS_META_END_HEADERS \<Rightarrow> M_END | HS_META_LARGE_BODY \<Rightarrow> M_ERR | _ \<Rightarrow> M_WFK)"
  "next_meta M_ANY e = Some (case e of HS_META_NOT_CONTENT_LEN \<Rightarrow> M_MTE | HS_META_NOT_TRANSFER_ENC \<Rightarrow> M_MCL | HS_META_END_KEY \<Rightarrow> M_WFK | HS_META_END_HEADERS \<Rightarrow> M_END | _ \<Rightarrow> M_ERR)"
  "next_meta M_MTE e = Some (case e of HS_META_NOT_CONTENT_LEN \<Rightarrow> M_MTE | HS_META_NOT_TRANSFER_ENC \<Rightarrow> M_WFK | HS_META_END_KEY \<Rightarrow> M_MCK | _ \<Rightarrow> M_ERR)"
  "next_meta M_MCL e = Some (case e of HS_META_NOT_CONTENT_LEN \<Rightarrow> M_WFK | HS_META_NOT_TRANSFER_ENC \<Rightarrow> M_MCL | HS_META_END_KEY \<Rightarrow> M_CLV | _ \<Rightarrow> M_ERR)"
  "next_meta M_CLV e = Some (case e of HS_META_END_VALUE \<Rightarrow> M_SML | _ \<Rightarrow> M_ERR)"
  "next_meta M_MCK e = Some (case e of HS_META_NOT_CONTENT_LEN \<Rightarrow> M_WFK | HS_META_END_VALUE \<Rightarrow> M_CHK | _ \<Rightarrow> M_ERR)"
  "next_meta M_SML e = Some (case e of HS_META_END_HEADERS \<Rightarrow> M_BDY | HS_META_LARGE_BODY \<Rightarrow> M_BIG | _ \<Rightarrow> M_SML)"
  "next_meta M_CHK e = Some (case e of HS_META_END_HEADERS \<Rightarrow> M_ZER | HS_META_LARGE_BODY \<Rightarrow> M_ERR | _ \<Rightarrow> M_CHK)"
  "next_meta M_BIG e = Some (case e of HS_META_END_HEADERS \<Rightarrow> M_STR | HS_META_LARGE_BODY \<Rightarrow> M_ERR | _ \<Rightarrow> M_BIG)"
  "next_meta M_ZER e = Some (case e of HS_META_NOT_CONTENT_LEN \<Rightarrow> M_CSZ | HS_META_NOT_TRANSFER_ENC \<Rightarrow> M_LST | _ \<Rightarrow> M_ERR)"
  "next_meta M_CSZ e = Some (case e of HS_META_NOT_CONTENT_LEN \<Rightarrow> M_CSZ | HS_META_NOT_TRANSFER_ENC \<Rightarrow> M_CBD | _ \<Rightarrow> M_ERR)"
  "next_meta M_CBD e = Some (case e of HS_META_NOT_CONTENT_LEN \<Rightarrow> M_CBD | HS_META_NOT_TRANSFER_ENC \<Rightarrow> M_CBD | HS_META_END_KEY \<Rightarrow> M_ZER | _ \<Rightarrow> M_ERR)"
  "next_meta M_LST e = Some (case e of HS_META_NOT_CONTENT_LEN \<Rightarrow> M_LST | HS_META_NOT_TRANSFER_ENC \<Rightarrow> M_END | HS_META_END_KEY \<Rightarrow> M_END | _ \<Rightarrow> M_ERR)"
  "next_meta M_STR e = Some (case e of HS_META_NOT_CONTENT_LEN \<Rightarrow> M_SEN | _ \<Rightarrow> M_ERR)"
  "next_meta M_SEN e = Some (case e of HS_META_NOT_CONTENT_LEN \<Rightarrow> M_END | _ \<Rightarrow> M_ERR)"
  "next_meta M_BDY e = Some (case e of HS_META_NOT_CONTENT_LEN \<Rightarrow> M_END | _ \<Rightarrow> M_ERR)"
  "next_meta M_END e = Some (case e of HS_META_NOT_CONTENT_LEN \<Rightarrow> M_WFK | _ \<Rightarrow> M_ERR)"
  by (cases e; simp add: next_meta_row meta_transition_rows_def rd_def)+

lemma start_token_simps [simp]:
  "start_token S_ST = Some HS_TOK_NONE"
  "start_token S_MT = Some HS_TOK_METHOD"
  "start_token S_MS = Some HS_TOK_NONE"
  "start_token S_TR = Some HS_TOK_TARGET"
  "start_token S_TS = Some HS_TOK_NONE"
  "start_token S_VN = Some HS_TOK_VERSION"
  "start_token S_RR = Some HS_TOK_NONE"
  "start_token S_RN = Some HS_TOK_NONE"
  "start_token S_HK = Some HS_TOK_HEADER_KEY"
  "start_token S_HS = Some HS_TOK_NONE"
  "start_token S_HV = Some HS_TOK_HEADER_VAL"
  "start_token S_HR = Some HS_TOK_NONE"
  "start_token S_HE = Some HS_TOK_NONE"
  "start_token S_ER = Some HS_TOK_NONE"
  "start_token S_HN = Some HS_TOK_NONE"
  "start_token S_BD = Some HS_TOK_BODY"
  "start_token S_CS = Some HS_TOK_NONE"
  "start_token S_CB = Some HS_TOK_CHUNK_BODY"
  "start_token S_CE = Some HS_TOK_NONE"
  "start_token S_CR = Some HS_TOK_NONE"
  "start_token S_CN = Some HS_TOK_NONE"
  "start_token S_CD = Some HS_TOK_NONE"
  "start_token S_C1 = Some HS_TOK_NONE"
  "start_token S_C2 = Some HS_TOK_NONE"
  "start_token S_BR = Some HS_TOK_NONE"
  by (simp_all add: start_token_def token_start_states_def rd_def)

section \<open>Character classes\<close>

text \<open>
  The character table classifies bytes by their code. The token characters are those of RFC 7230
  and the comma.
\<close>

definition code_class :: "nat \<Rightarrow> char_type_e" where
  "code_class n =
     (if n = 0x20 then HS_SPC else if n = 0x0A then HS_NL else if n = 0x0D then HS_CR
      else if n = 0x3A then HS_COLN else if n = 0x09 then HS_TAB else if n = 0x3B then HS_SCOLN
      else if 0x30 \<le> n \<and> n \<le> 0x39 then HS_DIGIT
      else if 0x41 \<le> n \<and> n \<le> 0x46 \<or> 0x61 \<le> n \<and> n \<le> 0x66 then HS_HEX
      else if 0x41 \<le> n \<and> n \<le> 0x5A \<or> 0x61 \<le> n \<and> n \<le> 0x7A then HS_ALPHA
      else if n \<in> {0x21, 0x23, 0x24, 0x25, 0x26, 0x27, 0x2A, 0x2B, 0x2C, 0x2D, 0x2E, 0x5E, 0x5F, 0x60, 0x7C, 0x7E}
      then HS_TCHAR
      else if 0x21 \<le> n \<and> n \<le> 0x7E then HS_VCHAR else HS_ETC)"

definition char_class :: "char \<Rightarrow> char_type_e" where
  "char_class c = code_class (of_char c)"

lemma ctype_table: "ctype = map code_class [0..<128]"
  by (simp add: ctype_def code_class_def upt_rec)

lemma char_type_eq [simp]: "char_type c = Some (char_class c)"
proof (cases "(of_char c :: nat) < 128")
  case True
  then show ?thesis by (simp add: char_type_def cval_nat rd_def ctype_table char_class_def)
next
  case False
  then have "code_class (of_char c) = HS_ETC" by (simp add: code_class_def)
  moreover have "cval c < 0" using of_char_int_bounds [of c] False by (simp add: cval_nat)
  ultimately show ?thesis by (simp add: char_type_def char_class_def)
qed

lemma char_class_special [simp]:
  "char_class (CHR '' '') = HS_SPC" "char_class LF = HS_NL" "char_class CR = HS_CR"
  "char_class (CHR '':'') = HS_COLN" "char_class TAB = HS_TAB" "char_class (CHR '';'') = HS_SCOLN"
  by (simp_all add: char_class_def code_class_def)

definition is_tchar :: "char \<Rightarrow> bool" where
  "is_tchar c \<longleftrightarrow> char_class c \<in> {HS_DIGIT, HS_HEX, HS_ALPHA, HS_TCHAR}"

definition is_vchar :: "char \<Rightarrow> bool" where
  "is_vchar c \<longleftrightarrow> char_class c \<in> {HS_DIGIT, HS_HEX, HS_ALPHA, HS_TCHAR, HS_VCHAR}"

lemma is_tchar_cval: "is_tchar c \<Longrightarrow> 33 \<le> cval c"
proof -
  have "n < 33 \<Longrightarrow> code_class n \<notin> {HS_DIGIT, HS_HEX, HS_ALPHA, HS_TCHAR}"
    and "128 \<le> n \<Longrightarrow> code_class n = HS_ETC" for n
    by (simp_all add: code_class_def)
  then show "is_tchar c \<Longrightarrow> 33 \<le> cval c"
    by (cases "(of_char c :: nat) < 33"; cases "128 \<le> (of_char c :: nat)")
      (simp_all add: is_tchar_def char_class_def cval_nat)
qed

lemma is_tchar_nonzero:
  assumes "is_tchar c"
  shows "ascii_low c \<noteq> NUL"
proof -
  have "cval (ascii_low c) \<noteq> 0"
    using is_tchar_cval [OF assms] cval_char_of_int [of "cval c + 32"]
    unfolding ascii_low_def cval_nat [of "CHR ''Z''"] by simp
  then show ?thesis by (auto simp: cval_nat)
qed

section \<open>The stream as the unread input\<close>

definition stream_ok :: "stream \<Rightarrow> bool" where
  "stream_ok st \<longleftrightarrow> 0 \<le> st_index st \<and> st_index st \<le> st_length st \<and>
     st_length st \<le> int (length (st_buf st)) \<and> st_length st < 2 ^ 31"

definition unread :: "stream \<Rightarrow> string" where
  "unread st = drop (nat (st_index st)) (take (nat (st_length st)) (st_buf st))"

text \<open>The stream after \<open>n\<close> more bytes, with \<open>tk\<close> as its open token.\<close>

definition st_run :: "stream \<Rightarrow> nat \<Rightarrow> token \<Rightarrow> stream" where
  "st_run st n tk = st\<lparr>st_index := st_index st + int n, st_token := tk, st_consumed := True\<rparr>"

lemma st_run_simps [simp]:
  "st_buf (st_run st n tk) = st_buf st" "st_length (st_run st n tk) = st_length st"
  "st_index (st_run st n tk) = st_index st + int n" "st_token (st_run st n tk) = tk"
  "st_anchor (st_run st n tk) = st_anchor st" "st_capacity (st_run st n tk) = st_capacity st"
  "st_run (st_run st n tk) m tk' = st_run st (n + m) tk'"
  "st_run (st\<lparr>st_token := tk0\<rparr>) n tk = st_run st n tk"
  "st_run (st\<lparr>st_consumed := b\<rparr>) n tk = st_run st n tk"
  by (simp_all add: st_run_def)

lemma unread_consumed [simp]:
  "unread (st\<lparr>st_consumed := b\<rparr>) = unread st" "stream_ok (st\<lparr>st_consumed := b\<rparr>) = stream_ok st"
  by (simp_all add: unread_def stream_ok_def)

lemma unread_length: "stream_ok st \<Longrightarrow> int (length (unread st)) = st_length st - st_index st"
  by (auto simp: stream_ok_def unread_def)

lemma unread_st_run:
  assumes "stream_ok st" and "unread st = cs @ r"
  shows "unread (st_run st (length cs) tk) = r" and "stream_ok (st_run st (length cs) tk)"
proof -
  have "nat (st_index st + int (length cs)) = length cs + nat (st_index st)"
    using assms(1) by (simp add: stream_ok_def nat_add_distrib)
  then have "unread (st_run st (length cs) tk) = drop (length cs) (unread st)"
    by (simp add: unread_def)
  then show "unread (st_run st (length cs) tk) = r" using assms(2) by simp
  have "int (length cs) \<le> st_length st - st_index st"
    using unread_length [OF assms(1)] assms(2) by simp
  then show "stream_ok (st_run st (length cs) tk)" using assms(1) by (simp add: stream_ok_def)
qed

lemma unread_st_run_Cons:
  assumes "stream_ok st" and "unread st = c # r"
  shows "unread (st_run st (Suc 0) tk) = r" and "stream_ok (st_run st (Suc 0) tk)"
  using unread_st_run [of st "[c]" r tk] assms by simp_all

lemma stream_next_Cons:
  assumes "stream_ok st" and "unread st = c # r"
  shows "stream_next st = Some (Some c, st\<lparr>st_consumed := False\<rparr>)"
proof -
  have "nat (st_index st) < length (take (nat (st_length st)) (st_buf st)) \<and>
      take (nat (st_length st)) (st_buf st) ! nat (st_index st) = c"
    using assms(2) drop_eq_Cons unfolding unread_def by fastforce
  with assms(1) show ?thesis
    by (auto simp: stream_next_def stream_ok_def rdi_def rd_def)
qed

lemma stream_next_Nil:
  assumes "stream_ok st" and "unread st = []"
  shows "stream_next st = Some (None, st\<lparr>st_consumed := False\<rparr>)"
  using unread_length [OF assms(1)] assms(2) by (simp add: stream_next_def)

lemma stream_consume_run:
  assumes "stream_ok st" and "unread st = c # r" and "\<not> st_consumed st"
    and "tk_type (st_token st) \<noteq> HS_TOK_NONE \<Longrightarrow> 0 \<le> tk_len (st_token st) \<and> tk_len (st_token st) \<le> st_index st"
  shows "stream_consume st = st_run st (Suc 0) ((st_token st)\<lparr>tk_len :=
     if tk_type (st_token st) \<noteq> HS_TOK_NONE then tk_len (st_token st) + 1 else 0\<rparr>)"
proof -
  have "st_index st < st_length st" using unread_length [OF assms(1)] assms(2) by simp
  with assms show ?thesis
    by (auto simp: stream_consume_def st_run_def stream_ok_def s64_id s32_id)
qed

section \<open>Running the loop\<close>

lemma token_loop_Cons:
  assumes "stream_ok st" and "unread st = c # r"
  shows "token_loop spec pc (cl\<lparr>cl_parser := ps, cl_stream := st\<rparr>) =
    (case token_step spec pc c (cl\<lparr>cl_parser := ps, cl_stream := st\<lparr>st_consumed := False\<rparr>\<rparr>) of
       None \<Rightarrow> None
     | Some (Inl tok, cl) \<Rightarrow> Some (Some tok, cl)
     | Some (Inr u, cl) \<Rightarrow> token_loop spec pc cl)"
  using stream_next_Cons [OF assms] by (subst token_loop.simps) simp

lemma token_loop_Nil:
  assumes "stream_ok st" and "unread st = []"
  shows "token_loop spec pc (cl\<lparr>cl_parser := ps, cl_stream := st\<rparr>) =
    Some (None, cl\<lparr>cl_parser := ps, cl_stream := st\<lparr>st_consumed := False\<rparr>\<rparr>)"
  using stream_next_Nil [OF assms] by (subst token_loop.simps) simp

lemma token_loop_consumed:
  "token_loop spec pc (cl\<lparr>cl_parser := ps, cl_stream := st\<lparr>st_consumed := b\<rparr>\<rparr>) =
     token_loop spec pc (cl\<lparr>cl_parser := ps, cl_stream := st\<rparr>)"
  by (subst (1 2) token_loop.simps) (simp add: stream_next_def Let_def split: option.split)

text \<open>
  What a byte that keeps the parser inside a token does to the parser record: header names and
  values are matched on the way, the other tokens have no effect.
\<close>

definition trans_eff :: "state_e \<Rightarrow> char \<Rightarrow> parser \<Rightarrow> parser option" where
  "trans_eff s c ps =
     (if s = S_HK then transition_HK c ps else if s = S_HV then transition_HV c ps else Some ps)"

fun trans_effs :: "state_e \<Rightarrow> string \<Rightarrow> parser \<Rightarrow> parser option" where
  "trans_effs s [] ps = Some ps"
| "trans_effs s (c # cs) ps = do { ps \<leftarrow> trans_eff s c ps; trans_effs s cs ps }"

lemma meta_trigger_Some: "meta_trigger e ps = Some ps' \<longleftrightarrow> (\<exists>m. next_meta (p_meta ps) e = Some m \<and> ps' = ps\<lparr>p_meta := m\<rparr>)"
  by (auto simp: meta_trigger_def bind_eq_Some_conv)

lemma MATCH_fields:
  "MATCH str e c m ps = Some (m', ps') \<Longrightarrow>
     \<exists>x. ps' = ps\<lparr>p_meta := x\<rparr>"
  by (auto simp: MATCH_def bind_eq_Some_conv meta_trigger_Some split: if_splits
      intro: exI [of _ "p_meta ps"])

lemma trans_eff_state: "trans_eff s c ps = Some ps' \<Longrightarrow> p_state ps' = p_state ps"
  by (auto simp: trans_eff_def transition_HK_def transition_HV_def bind_eq_Some_conv match_incr_def
      dest!: MATCH_fields split: if_splits)

lemma trans_effs_state: "trans_effs s w ps = Some ps' \<Longrightarrow> p_state ps' = p_state ps"
  by (induction w arbitrary: ps) (auto simp: bind_eq_Some_conv dest!: trans_eff_state)

lemmas transition_defs = transition_def transition_enter_def stream_emit_def stream_begin_token_def Let_def

lemma token_loop_stay:
  assumes st: "stream_ok st" "unread st = c # r"
    and s: "p_state ps = s" "s \<in> {S_MT, S_TR, S_VN, S_HK, S_HS, S_HV}"
      "next_state s (char_class c) = Some s"
    and eff: "trans_eff s c ps = Some ps'"
    and tk: "tk_type (st_token st) \<noteq> HS_TOK_NONE \<Longrightarrow> 0 \<le> tk_len (st_token st) \<and> tk_len (st_token st) \<le> st_index st"
  shows "token_loop spec pc (cl\<lparr>cl_parser := ps, cl_stream := st\<rparr>) =
    token_loop spec pc (cl\<lparr>cl_parser := ps', cl_stream := st_run st (Suc 0) ((st_token st)\<lparr>tk_len :=
      if tk_type (st_token st) \<noteq> HS_TOK_NONE then tk_len (st_token st) + 1 else 0\<rparr>)\<rparr>)"
proof -
  let ?st = "st\<lparr>st_consumed := False\<rparr>"
  have ps: "ps\<lparr>p_state := s\<rparr> = ps" using s(1) by simp
  have ne: "s \<noteq> S_HN" "s \<noteq> S_BD" using s(2) by auto
  have "transition spec c s s (ps\<lparr>p_state := s\<rparr>) ?st = Some (token0, ps', ?st)"
    unfolding ps using s(2) eff by (auto simp: transition_defs trans_eff_def split: if_splits)
  then have "token_step spec pc c (cl\<lparr>cl_parser := ps, cl_stream := ?st\<rparr>) =
      Some (Inr (), cl\<lparr>cl_parser := ps', cl_stream := stream_consume ?st\<rparr>)"
    using s(1,3) ne by (simp add: token_step_def token0_def)
  then show ?thesis
    using stream_consume_run [of ?st c r] st tk by (simp add: token_loop_Cons)
qed

lemma token_loop_scan:
  assumes "stream_ok st" "unread st = cs @ r"
    and "p_state ps = s" "s \<in> {S_MT, S_TR, S_VN, S_HK, S_HV}"
      "\<forall>c\<in>set cs. next_state s (char_class c) = Some s"
    and "trans_effs s cs ps = Some ps'"
    and "tk_type (st_token st) \<noteq> HS_TOK_NONE" "0 \<le> tk_len (st_token st)" "tk_len (st_token st) \<le> st_index st"
  shows "token_loop spec pc (cl\<lparr>cl_parser := ps, cl_stream := st\<rparr>) =
    token_loop spec pc (cl\<lparr>cl_parser := ps', cl_stream := st_run st (length cs)
      ((st_token st)\<lparr>tk_len := tk_len (st_token st) + int (length cs)\<rparr>)\<rparr>)"
  using assms
proof (induction cs arbitrary: st ps)
  case Nil
  then show ?case by (simp add: st_run_def token_loop_consumed)
next
  case (Cons c cs)
  obtain ps1 where ps1: "trans_eff s c ps = Some ps1" "trans_effs s cs ps1 = Some ps'"
    using Cons.prems(6) by (auto simp: bind_eq_Some_conv)
  let ?st = "st_run st (Suc 0) ((st_token st)\<lparr>tk_len := tk_len (st_token st) + 1\<rparr>)"
  have "token_loop spec pc (cl\<lparr>cl_parser := ps, cl_stream := st\<rparr>) =
      token_loop spec pc (cl\<lparr>cl_parser := ps1, cl_stream := ?st\<rparr>)"
    using token_loop_stay [of st c "cs @ r" ps s ps1 spec pc cl, OF _ _ _ _ _ ps1(1)] Cons.prems by auto
  also have "\<dots> = token_loop spec pc (cl\<lparr>cl_parser := ps', cl_stream := st_run ?st (length cs)
      ((st_token ?st)\<lparr>tk_len := tk_len (st_token ?st) + int (length cs)\<rparr>)\<rparr>)"
    using Cons.prems ps1 trans_eff_state [OF ps1(1)] unread_st_run_Cons [of st c "cs @ r"]
    by (intro Cons.IH) auto
  finally show ?case by (simp add: algebra_simps)
qed

lemma token_step_eq:
  assumes "next_state (p_state ps) (char_class c) = Some to" "to \<notin> {S_HN, S_BD}"
    and "transition spec c (p_state ps) to (ps\<lparr>p_state := to\<rparr>) st = Some (emitted, ps', st')"
  shows "token_step spec pc c (cl\<lparr>cl_parser := ps, cl_stream := st\<rparr>) =
    Some (if tk_type emitted \<noteq> HS_TOK_NONE then Inl emitted else Inr (),
          cl\<lparr>cl_parser := ps', cl_stream := stream_consume st'\<rparr>)"
  using assms by (auto simp: token_step_def)

definition open_token :: "stream \<Rightarrow> token_e \<Rightarrow> nat \<Rightarrow> token" where
  "open_token st ty n = \<lparr>tk_index = st_index st, tk_len = int n, tk_type = ty\<rparr>"

lemma open_token_simps [simp]:
  "tk_type (open_token st ty n) = ty" "tk_len (open_token st ty n) = int n"
  "tk_index (open_token st ty n) = st_index st"
  "(open_token st ty n)\<lparr>tk_len := int m\<rparr> = open_token st ty m"
  by (simp_all add: open_token_def)

lemma token0_simps [simp]: "tk_type token0 = HS_TOK_NONE" "tk_len token0 = 0" "tk_index token0 = 0"
  by (simp_all add: token0_def)

text \<open>A byte that starts a token other than a header name.\<close>

lemma token_loop_enter:
  assumes st: "stream_ok st" "unread st = c # r" "st_token st = token0"
    and s: "next_state (p_state ps) (char_class c) = Some s" "p_state ps \<in> {S_ST, S_MS, S_TS, S_HS}"
      "s \<in> {S_MT, S_TR, S_VN, S_HV}" "start_token s = Some ty"
    and eff: "trans_eff s c (ps\<lparr>p_state := s, p_match_index := 0\<rparr>) = Some ps'"
  shows "token_loop spec pc (cl\<lparr>cl_parser := ps, cl_stream := st\<rparr>) =
    token_loop spec pc (cl\<lparr>cl_parser := ps', cl_stream := st_run st (Suc 0) (open_token st ty 1)\<rparr>)"
proof -
  let ?st = "stream_begin_token (st\<lparr>st_consumed := False\<rparr>) ty"
  have ix: "s32 (st_index st) = st_index st" "0 \<le> st_index st"
    using st(1) by (auto simp: stream_ok_def s32_id)
  have ty: "ty \<noteq> HS_TOK_NONE" using s(3,4) by auto
  have "transition spec c (p_state ps) s (ps\<lparr>p_state := s\<rparr>) (st\<lparr>st_consumed := False\<rparr>) =
      Some (token0, ps', ?st)"
    using s(2,3,4) eff ty by (auto simp: transition_def transition_enter_def trans_eff_def Let_def)
  then have "token_step spec pc c (cl\<lparr>cl_parser := ps, cl_stream := st\<lparr>st_consumed := False\<rparr>\<rparr>) =
      Some (Inr (), cl\<lparr>cl_parser := ps', cl_stream := stream_consume ?st\<rparr>)"
    using s(3) by (subst token_step_eq [OF s(1)]) auto
  moreover have "stream_ok ?st" "unread ?st = c # r"
    using st by (simp_all add: stream_begin_token_def stream_ok_def unread_def)
  ultimately show ?thesis
    using stream_consume_run [of ?st c r] st ix ty
    by (simp add: token_loop_Cons) (simp add: stream_begin_token_def st_run_def token0_def open_token_def)
qed

text \<open>The first byte of a header name.\<close>

lemma token_loop_enter_key:
  assumes st: "stream_ok st" "unread st = c # r" "st_token st = token0"
    and s: "is_tchar c" "p_state ps \<in> {S_RN, S_HE}"
    and hc: "0 \<le> p_header_count ps" "p_header_count ps < sp_request_max_headers_count spec"
      "p_header_count ps < 32767"
    and eff: "transition_HK c (ps\<lparr>p_state := S_HK, p_match_index := 0,
      p_header_count := p_header_count ps + 1\<rparr>) = Some ps'"
  shows "token_loop spec pc (cl\<lparr>cl_parser := ps, cl_stream := st\<rparr>) =
    token_loop spec pc (cl\<lparr>cl_parser := ps',
      cl_stream := st_run st (Suc 0) (open_token st HS_TOK_HEADER_KEY 1)\<rparr>)"
proof -
  let ?st = "stream_begin_token (st\<lparr>st_consumed := False\<rparr>) HS_TOK_HEADER_KEY"
  have ix: "s32 (st_index st) = st_index st" "0 \<le> st_index st"
    using st(1) by (auto simp: stream_ok_def s32_id)
  have hc': "s16 (p_header_count ps + 1) = p_header_count ps + 1" using hc by (intro s16_id) auto
  have nx: "next_state (p_state ps) (char_class c) = Some S_HK" using s by (auto simp: is_tchar_def)
  have eq: "ps\<lparr>p_state := S_HK, p_header_count := p_header_count ps + 1, p_match_index := 0\<rparr> =
      ps\<lparr>p_state := S_HK, p_match_index := 0, p_header_count := p_header_count ps + 1\<rparr>" by simp
  have "transition spec c (p_state ps) S_HK (ps\<lparr>p_state := S_HK\<rparr>) (st\<lparr>st_consumed := False\<rparr>) =
      Some (token0, ps', ?st)"
    using s(2) eff hc by (auto simp: transition_def transition_enter_def Let_def hc' eq)
  then have "token_step spec pc c (cl\<lparr>cl_parser := ps, cl_stream := st\<lparr>st_consumed := False\<rparr>\<rparr>) =
      Some (Inr (), cl\<lparr>cl_parser := ps', cl_stream := stream_consume ?st\<rparr>)"
    by (subst token_step_eq [OF nx]) auto
  moreover have "stream_ok ?st" "unread ?st = c # r"
    using st by (simp_all add: stream_begin_token_def stream_ok_def unread_def)
  ultimately show ?thesis
    using stream_consume_run [of ?st c r] st ix
    by (simp add: token_loop_Cons) (simp add: stream_begin_token_def st_run_def token0_def open_token_def)
qed

text \<open>The byte behind a token: the open token is returned.\<close>

definition leave_event :: "state_e \<Rightarrow> meta_type_e option" where
  "leave_event to = (if to = S_HS then Some HS_META_END_KEY
     else if to \<in> {S_RR, S_HR} then Some HS_META_END_VALUE else None)"

lemma token_loop_leave:
  assumes st: "stream_ok st" "unread st = c # r"
    and s: "next_state (p_state ps) (char_class c) = Some to" "p_state ps \<in> {S_MT, S_TR, S_VN, S_HK, S_HV}"
      "to \<in> {S_MS, S_TS, S_RR, S_HS, S_HR}"
    and m: "(case leave_event to of None \<Rightarrow> Some (p_meta ps) | Some e \<Rightarrow> next_meta (p_meta ps) e) = Some m"
    and tk: "tk_type (st_token st) \<noteq> HS_TOK_NONE"
  shows "token_loop spec pc (cl\<lparr>cl_parser := ps, cl_stream := st\<rparr>) =
    Some (Some (st_token st), cl\<lparr>cl_parser := ps\<lparr>p_state := to, p_match_index := 0, p_meta := m\<rparr>,
      cl_stream := st_run st (Suc 0) token0\<rparr>)"
proof -
  let ?st = "st\<lparr>st_consumed := False, st_token := token0\<rparr>"
  have "transition spec c (p_state ps) to (ps\<lparr>p_state := to\<rparr>) (st\<lparr>st_consumed := False\<rparr>) =
      Some (st_token st, ps\<lparr>p_state := to, p_match_index := 0, p_meta := m\<rparr>, ?st)"
    using s(2,3) m by (auto simp: transition_defs meta_trigger_def leave_event_def)
  then have "token_step spec pc c (cl\<lparr>cl_parser := ps, cl_stream := st\<lparr>st_consumed := False\<rparr>\<rparr>) =
      Some (Inl (st_token st), cl\<lparr>cl_parser := ps\<lparr>p_state := to, p_match_index := 0, p_meta := m\<rparr>,
        cl_stream := stream_consume ?st\<rparr>)"
    using s(3) tk by (subst token_step_eq [OF s(1)]) auto
  moreover have "stream_ok ?st" "unread ?st = c # r"
    using st by (simp_all add: stream_ok_def unread_def)
  ultimately show ?thesis
    using stream_consume_run [of ?st c r] st by (simp add: token_loop_Cons token0_def st_run_def)
qed

text \<open>A byte between tokens.\<close>

lemma token_loop_skip:
  assumes st: "stream_ok st" "unread st = c # r" "st_token st = token0"
    and s: "next_state (p_state ps) (char_class c) = Some to"
      "(p_state ps, to) \<in> {(S_RR, S_RN), (S_HR, S_HE), (S_HE, S_ER), (S_HS, S_HS)}"
  shows "token_loop spec pc (cl\<lparr>cl_parser := ps, cl_stream := st\<rparr>) =
    token_loop spec pc (cl\<lparr>cl_parser := ps\<lparr>p_state := to,
      p_match_index := if to = p_state ps then p_match_index ps else 0\<rparr>,
      cl_stream := st_run st (Suc 0) token0\<rparr>)"
proof -
  let ?st = "st\<lparr>st_consumed := False\<rparr>"
  let ?ps = "ps\<lparr>p_state := to, p_match_index := if to = p_state ps then p_match_index ps else 0\<rparr>"
  have "transition spec c (p_state ps) to (ps\<lparr>p_state := to\<rparr>) ?st = Some (token0, ?ps, ?st)"
    using s(2) by (auto simp: transition_defs)
  then have "token_step spec pc c (cl\<lparr>cl_parser := ps, cl_stream := ?st\<rparr>) =
      Some (Inr (), cl\<lparr>cl_parser := ?ps, cl_stream := stream_consume ?st\<rparr>)"
    using s(2) by (subst token_step_eq [OF s(1)]) auto
  then show ?thesis
    using stream_consume_run [of ?st c r] st by (simp add: token_loop_Cons token0_def)
qed

end
