(* ===== verification/Http_Grammar.thy ===== *)
theory Http_Grammar
  imports Http_Parser
begin

text \<open>
  What the parser of \<open>Http_Parser\<close> makes of the parts of a request: how header names and values
  steer the second automaton, and which tokens the request line, a header field, the end of the
  headers and the body give. The byte strings are described by predicates on character classes
  and every lemma is about \<open>token_loop\<close> or \<open>token_parse\<close> on a stream whose unread input starts with
  such a string.
\<close>

section \<open>How header names and values steer the second automaton\<close>

text \<open>The words a name is matched with, as far as the matcher really compares.\<close>

definition te_word :: string where
  "te_word = ''transfer-encoding''"

definition cl_word :: string where
  "cl_word = ''content-lengthing''"

definition low_prefix :: "string \<Rightarrow> string \<Rightarrow> bool" where
  "low_prefix w word \<longleftrightarrow> take (length w) word = map ascii_low w"

lemma low_prefix_snoc:
  "low_prefix (w @ [c]) word \<longleftrightarrow>
     low_prefix w word \<and> length w < length word \<and> word ! length w = ascii_low c"
proof (cases "length w < length word")
  case True
  then have "take (Suc (length w)) word = take (length w) word @ [word ! length w]"
    by (simp add: take_Suc_conv_app_nth)
  then show ?thesis using True by (auto simp: low_prefix_def)
next
  case False
  then have "length (take (Suc (length w)) word) \<le> length w" by simp
  then show ?thesis using False
    by (auto simp: low_prefix_def dest: arg_cong [of _ _ length])
qed

definition key_class :: "string \<Rightarrow> meta_state_e" where
  "key_class w = (if low_prefix w te_word then M_MTE else if low_prefix w cl_word then M_MCL else M_WFK)"

lemma MATCH_eq:
  assumes "p_match_index ps = int i"
  shows "MATCH str e c m ps =
    (let m' = (if i < length str then str ! i else m) in
     case (if ascii_low c \<noteq> m' then next_meta (p_meta ps) e else Some (p_meta ps)) of
       None \<Rightarrow> None | Some x \<Rightarrow> Some (m', ps\<lparr>p_meta := x\<rparr>))"
  using assms by (auto simp: MATCH_def rd_def meta_trigger_def Let_def split: option.splits)

text \<open>One byte of a name at position \<open>i\<close>, on the second automaton alone.\<close>

definition key_meta_step :: "nat \<Rightarrow> char \<Rightarrow> meta_state_e \<Rightarrow> meta_state_e option" where
  "key_meta_step i c m =
     (let a = (if i < 17 then te_word ! i else NUL);
          b = (if i < 17 then cl_word ! i else NUL)
      in do {
        m \<leftarrow> (if ascii_low c \<noteq> a then next_meta m HS_META_NOT_TRANSFER_ENC else Some m);
        if ascii_low c \<noteq> b then next_meta m HS_META_NOT_CONTENT_LEN else Some m
      })"

lemma cl_word_nth:
  "i < 14 \<Longrightarrow> cl_word ! i = ''content-length'' ! i"
  "14 \<le> i \<Longrightarrow> i < 17 \<Longrightarrow> cl_word ! i = te_word ! i"
proof -
  have c: "cl_word = ''content-length'' @ ''ing''" and e: "te_word = ''transfer-encod'' @ ''ing''"
    by (simp_all add: cl_word_def te_word_def)
  show "i < 14 \<Longrightarrow> cl_word ! i = ''content-length'' ! i"
    unfolding c nth_append by simp
  show "14 \<le> i \<Longrightarrow> i < 17 \<Longrightarrow> cl_word ! i = te_word ! i"
    unfolding c e nth_append by simp
qed

lemma transition_HK_eq:
  assumes "p_match_index ps = int i" and "i < 32767"
  shows "transition_HK c ps =
    map_option (\<lambda>m. ps\<lparr>p_meta := m, p_match_index := int (Suc i)\<rparr>) (key_meta_step i c (p_meta ps))"
proof -
  have *: "s16 (int i + 1) = int (Suc i)" using assms(2) by (simp add: s16_id)
  have len: "length ''transfer-encoding'' = 17" "length ''content-length'' = 14" by simp_all
  consider "i < 14" | "14 \<le> i" "i < 17" | "17 \<le> i" by linarith
  then show ?thesis
    by cases (use assms(1) * in \<open>simp_all add: transition_HK_def MATCH_eq [OF assms(1)] MATCH_eq
      key_meta_step_def cl_word_nth te_word_def Let_def match_incr_def split: option.splits\<close>)
qed

lemma trans_effs_append:
  "trans_effs s (a @ b) ps = do { ps \<leftarrow> trans_effs s a ps; trans_effs s b ps }"
proof (induction a arbitrary: ps)
  case (Cons c a)
  then show ?case by (cases "trans_eff s c ps") auto
qed simp

lemma trans_effs_plain: "s \<notin> {S_HK, S_HV} \<Longrightarrow> trans_effs s w ps = Some ps"
  by (induction w) (auto simp: trans_eff_def)

lemma words_disjoint: "w \<noteq> [] \<Longrightarrow> low_prefix w te_word \<Longrightarrow> \<not> low_prefix w cl_word"
proof
  assume w: "w \<noteq> []" and "low_prefix w te_word" "low_prefix w cl_word"
  then have "hd (take (length w) te_word) = hd (take (length w) cl_word)" by (simp add: low_prefix_def)
  with w show False by (simp add: te_word_def cl_word_def)
qed

lemma word_lengths [simp]: "length te_word = 17" "length cl_word = 17"
  by (simp_all add: te_word_def cl_word_def)

lemma key_meta_step_first: "key_meta_step 0 c M_ANY = Some (key_class [c])"
proof -
  have "low_prefix [c] te_word \<longleftrightarrow> ascii_low c = CHR ''t''" "low_prefix [c] cl_word \<longleftrightarrow> ascii_low c = CHR ''c''"
    "te_word ! 0 = CHR ''t''" "cl_word ! 0 = CHR ''c''"
    by (auto simp: low_prefix_def te_word_def cl_word_def)
  then show ?thesis by (auto simp: key_meta_step_def key_class_def Let_def)
qed

lemma key_meta_step_class:
  assumes "w \<noteq> []" and "is_tchar c"
  shows "key_meta_step (length w) c (key_class w) = Some (key_class (w @ [c]))"
  using words_disjoint [OF assms(1)] is_tchar_nonzero [OF assms(2)]
  by (auto simp: key_meta_step_def key_class_def Let_def low_prefix_snoc)

lemma key_meta_step_fixed: "m \<in> {M_WFK, M_SML, M_CHK} \<Longrightarrow> key_meta_step i c m = Some m"
  by (auto simp: key_meta_step_def Let_def)

lemma trans_effs_key_any:
  assumes "p_meta ps = M_ANY" "p_match_index ps = 0" "w \<noteq> []" "\<forall>c\<in>set w. is_tchar c" "length w < 32768"
  shows "trans_effs S_HK w ps = Some (ps\<lparr>p_meta := key_class w, p_match_index := int (length w)\<rparr>)"
  using assms(3-)
proof (induction w rule: rev_induct)
  case (snoc c w)
  show ?case
  proof (cases "w = []")
    case True
    then show ?thesis
      using assms(1,2) by (simp add: trans_eff_def transition_HK_eq [of _ 0] key_meta_step_first)
  next
    case False
    then show ?thesis
      using snoc key_meta_step_class [of w c]
      by (simp add: trans_effs_append trans_eff_def transition_HK_eq [of _ "length w"])
  qed
qed simp

lemma trans_effs_key_fixed:
  assumes "p_meta ps \<in> {M_WFK, M_SML, M_CHK}" "p_match_index ps = 0" "length w < 32768"
  shows "trans_effs S_HK w ps = Some (ps\<lparr>p_match_index := int (length w)\<rparr>)"
  using assms(3)
proof (induction w rule: rev_induct)
  case (snoc c w)
  then show ?case
    using key_meta_step_fixed [OF assms(1)]
    by (simp add: trans_effs_append trans_eff_def transition_HK_eq [of _ "length w"])
qed (use assms(2) in simp)

lemma trans_effs_value_plain: "p_meta ps \<notin> {M_MCK, M_CLV} \<Longrightarrow> trans_effs S_HV w ps = Some ps"
  by (induction w) (auto simp: trans_eff_def transition_HV_def)

definition dec_acc :: "int \<Rightarrow> string \<Rightarrow> int" where
  "dec_acc a w = foldl (\<lambda>a c. a * 10 + (cval c - 48)) a w"

definition is_digit :: "char \<Rightarrow> bool" where
  "is_digit c \<longleftrightarrow> 48 \<le> cval c \<and> cval c \<le> 57"

lemma dec_acc_simps [simp]:
  "dec_acc a [] = a" "dec_acc a (c # w) = dec_acc (a * 10 + (cval c - 48)) w"
  by (simp_all add: dec_acc_def)

lemma dec_acc_mono: "0 \<le> a \<Longrightarrow> \<forall>c\<in>set w. is_digit c \<Longrightarrow> a \<le> dec_acc a w"
proof (induction w arbitrary: a)
  case (Cons c w)
  then have "0 \<le> cval c - 48" by (simp add: is_digit_def)
  with Cons.prems Cons.IH [of "a * 10 + (cval c - 48)"] show ?case by simp
qed simp

lemma trans_effs_value_length:
  assumes "p_meta ps = M_CLV" "\<forall>c\<in>set w. is_digit c" "0 \<le> p_content_length ps"
    "dec_acc (p_content_length ps) w < 2 ^ 63"
  shows "trans_effs S_HV w ps = Some (ps\<lparr>p_content_length := dec_acc (p_content_length ps) w\<rparr>)"
  using assms
proof (induction w arbitrary: ps)
  case (Cons c w)
  let ?a = "p_content_length ps * 10 + (cval c - 48)"
  have d: "0 \<le> cval c - 48" "cval c - 48 \<le> 9" using Cons.prems(2) by (simp_all add: is_digit_def)
  moreover have "?a \<le> dec_acc ?a w" using d Cons.prems by (intro dec_acc_mono) auto
  ultimately have "s64 (s64 (p_content_length ps * 10) + (cval c - 48)) = ?a"
    using Cons.prems(3,4) by (simp add: s64_id)
  moreover have "cval CHR ''0'' = 48" by (simp add: cval_def)
  ultimately have "trans_eff S_HV c ps = Some (ps\<lparr>p_content_length := ?a\<rparr>)"
    using Cons.prems(1) by (simp add: trans_eff_def transition_HV_def)
  then show ?case
    using Cons.IH [of "ps\<lparr>p_content_length := ?a\<rparr>"] Cons.prems d by simp
qed simp

lemma trans_effs_value_chunked:
  assumes "p_meta ps = M_MCK" "p_match_index ps = 0" "\<forall>c\<in>set w. ascii_low c \<noteq> NUL" "length w < 32768"
  shows "\<exists>k. trans_effs S_HV w ps =
    Some (ps\<lparr>p_meta := if low_prefix w ''chunked'' then M_MCK else M_WFK, p_match_index := k\<rparr>) \<and>
    (low_prefix w ''chunked'' \<longrightarrow> k = int (length w))"
  using assms(3,4)
proof (induction w rule: rev_induct)
  case Nil
  show ?case using assms(1,2) by (auto simp: low_prefix_def)
next
  case (snoc c w)
  then obtain k where k: "trans_effs S_HV w ps =
      Some (ps\<lparr>p_meta := if low_prefix w ''chunked'' then M_MCK else M_WFK, p_match_index := k\<rparr>)"
    "low_prefix w ''chunked'' \<longrightarrow> k = int (length w)" by auto
  have "s16 (int (length w) + 1) = int (Suc (length w))" using snoc.prems by (simp add: s16_id)
  with k snoc.prems show ?case
    by (auto simp: trans_effs_append trans_eff_def transition_HV_def MATCH_eq [of _ "length w"]
        match_incr_def low_prefix_snoc Let_def)
qed

section \<open>Reading the parts of a request\<close>

lemma cl_update_order:
  "cl\<lparr>cl_stream := st, cl_parser := ps\<rparr> = cl\<lparr>cl_parser := ps, cl_stream := st\<rparr>"
  by simp

lemma token_parse_returns:
  assumes "p_meta ps \<notin> {M_SEN, M_END}"
    and "token_loop spec pc (cl\<lparr>cl_parser := ps, cl_stream := st\<rparr>) = Some (Some tok, cl')"
  shows "token_parse spec pc (cl\<lparr>cl_parser := ps, cl_stream := st\<rparr>) = Some (tok, cl')"
proof -
  have "meta_emit_token ps = Some (token0, ps)"
    using assms(1) by (cases "p_meta ps") (auto simp: meta_emit_token_def)
  then show ?thesis using assms(2) by (simp add: token_parse_def cl_update_order)
qed

lemma token_loop_word:
  assumes st: "stream_ok st" "unread st = c # cs @ d # r" "st_token st = token0"
    and s: "p_state ps \<in> {S_ST, S_MS, S_TS, S_HS}" "next_state (p_state ps) (char_class c) = Some s"
      "s \<in> {S_MT, S_TR, S_VN, S_HV}" "start_token s = Some ty"
      "\<forall>x\<in>set cs. next_state s (char_class x) = Some s"
    and l: "next_state s (char_class d) = Some to" "to \<in> {S_MS, S_TS, S_RR, S_HR}"
    and eff: "trans_effs s (c # cs) (ps\<lparr>p_state := s, p_match_index := 0\<rparr>) = Some ps'"
    and m: "(case leave_event to of None \<Rightarrow> Some (p_meta ps') | Some e \<Rightarrow> next_meta (p_meta ps') e) = Some m"
  shows "token_loop spec pc (cl\<lparr>cl_parser := ps, cl_stream := st\<rparr>) =
    Some (Some (open_token st ty (Suc (length cs))),
      cl\<lparr>cl_parser := ps'\<lparr>p_state := to, p_match_index := 0, p_meta := m\<rparr>,
         cl_stream := st_run st (length cs + 2) token0\<rparr>)"
proof -
  obtain ps1 where ps1: "trans_eff s c (ps\<lparr>p_state := s, p_match_index := 0\<rparr>) = Some ps1"
      "trans_effs s cs ps1 = Some ps'"
    using eff by (auto simp: bind_eq_Some_conv)
  have state: "p_state ps1 = s" "p_state ps' = s"
    using trans_eff_state [OF ps1(1)] trans_effs_state [OF eff] by simp_all
  have ty: "ty \<noteq> HS_TOK_NONE" using s(3,4) by auto
  let ?st1 = "st_run st (Suc 0) (open_token st ty 1)"
  let ?st2 = "st_run st (Suc (length cs)) (open_token st ty (Suc (length cs)))"
  have st1: "stream_ok ?st1" "unread ?st1 = cs @ d # r"
    using unread_st_run_Cons [OF st(1,2)] by simp_all
  have st2: "stream_ok ?st2" "unread ?st2 = d # r"
    using unread_st_run [OF st1] by simp_all
  have ix: "0 \<le> st_index st" using st(1) by (simp add: stream_ok_def)
  have "token_loop spec pc (cl\<lparr>cl_parser := ps, cl_stream := st\<rparr>) =
      token_loop spec pc (cl\<lparr>cl_parser := ps1, cl_stream := ?st1\<rparr>)"
    using s by (intro token_loop_enter [OF st s(2,1,3,4) ps1(1)])
  also have "\<dots> = token_loop spec pc (cl\<lparr>cl_parser := ps', cl_stream := ?st2\<rparr>)"
    using token_loop_scan [OF st1 state(1) _ s(5) ps1(2), of spec pc cl] s(3) ty ix
    by (auto simp: open_token_def)
  also have "\<dots> = Some (Some (open_token st ty (Suc (length cs))),
      cl\<lparr>cl_parser := ps'\<lparr>p_state := to, p_match_index := 0, p_meta := m\<rparr>,
         cl_stream := st_run ?st2 (Suc 0) token0\<rparr>)"
    using token_loop_leave [OF st2 _ _ _ m, of spec pc cl] l s(3) state(2) ty by auto
  finally show ?thesis by simp
qed

lemma token_loop_key:
  assumes st: "stream_ok st" "unread st = k @ CHR '':'' # r" "st_token st = token0"
    and k: "k \<noteq> []" "\<forall>c\<in>set k. is_tchar c"
    and s: "p_state ps \<in> {S_RN, S_HE}"
    and hc: "0 \<le> p_header_count ps" "p_header_count ps < sp_request_max_headers_count spec"
      "p_header_count ps < 32767"
    and eff: "trans_effs S_HK k (ps\<lparr>p_state := S_HK, p_match_index := 0,
      p_header_count := p_header_count ps + 1\<rparr>) = Some ps'"
    and m: "next_meta (p_meta ps') HS_META_END_KEY = Some m"
  shows "token_loop spec pc (cl\<lparr>cl_parser := ps, cl_stream := st\<rparr>) =
    Some (Some (open_token st HS_TOK_HEADER_KEY (length k)),
      cl\<lparr>cl_parser := ps'\<lparr>p_state := S_HS, p_match_index := 0, p_meta := m\<rparr>,
         cl_stream := st_run st (length k + 1) token0\<rparr>)"
proof -
  obtain c cs where k_eq: "k = c # cs" using k(1) by (cases k) auto
  obtain ps1 where ps1: "transition_HK c (ps\<lparr>p_state := S_HK, p_match_index := 0,
      p_header_count := p_header_count ps + 1\<rparr>) = Some ps1" "trans_effs S_HK cs ps1 = Some ps'"
    using eff unfolding k_eq by (auto simp: bind_eq_Some_conv trans_eff_def)
  have state: "p_state ps1 = S_HK" "p_state ps' = S_HK"
    using trans_eff_state [of S_HK c _ ps1] ps1(1) trans_effs_state [OF eff] by (simp_all add: trans_eff_def)
  let ?ty = HS_TOK_HEADER_KEY
  let ?st1 = "st_run st (Suc 0) (open_token st ?ty 1)"
  let ?st2 = "st_run st (length k) (open_token st ?ty (length k))"
  have st1: "stream_ok ?st1" "unread ?st1 = cs @ CHR '':'' # r"
    using unread_st_run_Cons [of st c "cs @ CHR '':'' # r"] st k_eq by simp_all
  have st2: "stream_ok ?st2" "unread ?st2 = CHR '':'' # r"
    using unread_st_run [OF st(1,2)] by simp_all
  have ix: "0 \<le> st_index st" using st(1) by (simp add: stream_ok_def)
  have tc: "is_tchar c" "\<forall>x\<in>set cs. next_state S_HK (char_class x) = Some S_HK"
    using k(2) by (auto simp: k_eq is_tchar_def)
  have "token_loop spec pc (cl\<lparr>cl_parser := ps, cl_stream := st\<rparr>) =
      token_loop spec pc (cl\<lparr>cl_parser := ps1, cl_stream := ?st1\<rparr>)"
    using st(2) k_eq by (intro token_loop_enter_key [OF st(1) _ st(3) tc(1) s hc ps1(1)]) simp
  also have "\<dots> = token_loop spec pc (cl\<lparr>cl_parser := ps', cl_stream := ?st2\<rparr>)"
    using token_loop_scan [OF st1 state(1) _ tc(2) ps1(2), of spec pc cl] ix
    by (simp add: open_token_def k_eq)
  also have "\<dots> = Some (Some (open_token st ?ty (length k)),
      cl\<lparr>cl_parser := ps'\<lparr>p_state := S_HS, p_match_index := 0, p_meta := m\<rparr>,
         cl_stream := st_run ?st2 (Suc 0) token0\<rparr>)"
    using token_loop_leave [OF st2, of ps' S_HS m spec pc cl] state(2) m by (simp add: leave_event_def)
  finally show ?thesis by simp
qed

text \<open>
  What a header field makes of the second automaton and the content length, for a parser that
  has the automaton state \<open>m\<close> between two fields.
\<close>

fun hdr_eff :: "meta_state_e \<times> int \<Rightarrow> string \<times> string \<Rightarrow> meta_state_e \<times> int" where
  "hdr_eff (m, n) (k, v) =
     (if m \<noteq> M_ANY then (m, n)
      else if key_class k = M_MTE then (if low_prefix v ''chunked'' then M_CHK else M_ANY, n)
      else if key_class k = M_MCL then (M_SML, dec_acc n v)
      else (M_ANY, n))"

definition wf_key :: "string \<Rightarrow> bool" where
  "wf_key k \<longleftrightarrow> k \<noteq> [] \<and> length k < 32768 \<and> list_all is_tchar k"

text \<open>A field value: it starts with a visible character and stays on its line.\<close>

definition is_value_start :: "char \<Rightarrow> bool" where
  "is_value_start c \<longleftrightarrow> char_class c \<notin> {HS_SPC, HS_NL, HS_CR, HS_TAB, HS_ETC}"

definition is_value_char :: "char \<Rightarrow> bool" where
  "is_value_char c \<longleftrightarrow> char_class c \<notin> {HS_NL, HS_CR, HS_ETC}"

definition wf_value :: "string \<Rightarrow> bool" where
  "wf_value v \<longleftrightarrow> (case v of [] \<Rightarrow> False | c # cs \<Rightarrow> is_value_start c \<and> list_all is_value_char cs) \<and>
     length v < 32768"

text \<open>A name that is matched as a content length has a decimal value that fits.\<close>

definition wf_header :: "string \<times> string \<Rightarrow> bool" where
  "wf_header h \<longleftrightarrow> wf_key (fst h) \<and> wf_value (snd h) \<and>
     (key_class (fst h) = M_MCL \<longrightarrow> list_all is_digit (snd h) \<and> dec_acc 0 (snd h) < 2 ^ 63)"

lemma value_char_nonzero: "is_value_char c \<Longrightarrow> ascii_low c \<noteq> NUL"
proof -
  assume "is_value_char c"
  then have "c \<noteq> NUL" by (auto simp: is_value_char_def char_class_def code_class_def)
  have "cval (ascii_low c) \<noteq> 0"
    using cval_char_of_int [of "cval c + 32"] \<open>c \<noteq> NUL\<close> cval_inject [of c NUL]
    unfolding ascii_low_def cval_nat [of "CHR ''A''"] cval_nat [of "CHR ''Z''"] cval_nat [of NUL] by simp
  then show ?thesis by (auto simp: cval_nat)
qed

lemma value_start_char: "is_value_start c \<Longrightarrow> is_value_char c"
  by (simp add: is_value_start_def is_value_char_def)

text \<open>Reading \<open>n\<close> tokens in a row.\<close>

fun token_parses ::
  "server_spec \<Rightarrow> ('a pclient_scheme \<Rightarrow> bool \<times> 'a pclient_scheme) \<Rightarrow> nat \<Rightarrow> 'a pclient_scheme \<Rightarrow>
   (token list \<times> 'a pclient_scheme) option" where
  "token_parses spec pc 0 cl = Some ([], cl)"
| "token_parses spec pc (Suc n) cl = do {
     (tok, cl) \<leftarrow> token_parse spec pc cl;
     (toks, cl) \<leftarrow> token_parses spec pc n cl;
     Some (tok # toks, cl)
   }"

lemma token_parses_append:
  assumes "token_parses spec pc n cl = Some (as, cl')" and "token_parses spec pc m cl' = Some (bs, cl'')"
  shows "token_parses spec pc (n + m) cl = Some (as @ bs, cl'')"
  using assms by (induction n arbitrary: cl as) (auto simp: bind_eq_Some_conv)

definition tok_at :: "int \<Rightarrow> string \<Rightarrow> token_e \<Rightarrow> token" where
  "tok_at off w ty = \<lparr>tk_index = off, tk_len = int (length w), tk_type = ty\<rparr>"

text \<open>One field line, from behind the carriage return of the line before.\<close>

definition hdr_parser :: "parser \<Rightarrow> meta_state_e \<times> int \<Rightarrow> int \<Rightarrow> parser" where
  "hdr_parser ps mn hc = ps\<lparr>p_state := S_HR, p_match_index := 0, p_meta := fst mn,
     p_content_length := snd mn, p_header_count := hc\<rparr>"

lemma token_parse_header_key:
  assumes st: "stream_ok st" "unread st = LF # k @ CHR '':'' # r" "st_token st = token0"
    and k: "wf_key k"
    and ps: "p_state ps \<in> {S_RR, S_HR}" "p_meta ps \<in> {M_ANY, M_SML, M_CHK}"
    and hc: "0 \<le> p_header_count ps" "p_header_count ps < sp_request_max_headers_count spec"
      "p_header_count ps < 32767"
  shows "token_parse spec pc (cl\<lparr>cl_parser := ps, cl_stream := st\<rparr>) =
    Some (tok_at (st_index st + 1) k HS_TOK_HEADER_KEY,
      cl\<lparr>cl_parser := ps\<lparr>p_state := S_HS, p_match_index := 0, p_header_count := p_header_count ps + 1,
           p_meta := (if p_meta ps \<noteq> M_ANY then p_meta ps
                      else if key_class k = M_MTE then M_MCK
                      else if key_class k = M_MCL then M_CLV else M_WFK)\<rparr>,
         cl_stream := st_run st (length k + 2) token0\<rparr>)"
proof -
  let ?to = "if p_state ps = S_RR then S_RN else S_HE"
  let ?ps0 = "ps\<lparr>p_state := ?to, p_match_index := 0\<rparr>"
  let ?st0 = "st_run st (Suc 0) token0"
  let ?ps1 = "ps\<lparr>p_state := S_HK, p_match_index := 0, p_header_count := p_header_count ps + 1\<rparr>"
  let ?m1 = "if p_meta ps = M_ANY then key_class k else p_meta ps"
  have k': "k \<noteq> []" "\<forall>c\<in>set k. is_tchar c" "length k < 32768"
    using k by (auto simp: wf_key_def list_all_iff)
  have st0: "stream_ok ?st0" "unread ?st0 = k @ CHR '':'' # r"
    using unread_st_run_Cons [OF st(1,2)] by simp_all
  have eff: "trans_effs S_HK k ?ps1 = Some (?ps1\<lparr>p_meta := ?m1, p_match_index := int (length k)\<rparr>)"
    using trans_effs_key_any [of ?ps1 k] trans_effs_key_fixed [of ?ps1 k] k' ps(2) by auto
  have m: "next_meta ?m1 HS_META_END_KEY =
      Some (if p_meta ps \<noteq> M_ANY then p_meta ps else if key_class k = M_MTE then M_MCK
            else if key_class k = M_MCL then M_CLV else M_WFK)"
    using ps(2) by (auto simp: key_class_def)
  have "token_loop spec pc (cl\<lparr>cl_parser := ps, cl_stream := st\<rparr>) =
      token_loop spec pc (cl\<lparr>cl_parser := ?ps0, cl_stream := ?st0\<rparr>)"
    using token_loop_skip [OF st, of ps ?to spec pc cl] ps(1) by auto
  also have "\<dots> =
    Some (Some (open_token ?st0 HS_TOK_HEADER_KEY (length k)),
      cl\<lparr>cl_parser := ?ps1\<lparr>p_meta := ?m1, p_match_index := int (length k),
           p_state := S_HS, p_match_index := 0,
           p_meta := (if p_meta ps \<noteq> M_ANY then p_meta ps
                      else if key_class k = M_MTE then M_MCK
                      else if key_class k = M_MCL then M_CLV else M_WFK)\<rparr>,
         cl_stream := st_run ?st0 (length k + 1) token0\<rparr>)"
    by (rule token_loop_key [OF st0 _ k'(1,2)]) (use hc eff m in simp_all)
  finally show ?thesis
    using ps(2) by (intro token_parse_returns) (auto simp: open_token_def tok_at_def add.commute)
qed

lemma token_parse_header_value:
  assumes st: "stream_ok st" "unread st = CHR '' '' # v @ CR # r" "st_token st = token0"
    and v: "wf_value v"
    and ps: "p_state ps = S_HS" "p_meta ps \<in> {M_WFK, M_MCK, M_CLV, M_SML, M_CHK}" "p_match_index ps = 0"
    and cl: "p_meta ps = M_CLV \<Longrightarrow> list_all is_digit v \<and> p_content_length ps = 0 \<and> dec_acc 0 v < 2 ^ 63"
  shows "token_parse spec pc (cl\<lparr>cl_parser := ps, cl_stream := st\<rparr>) =
    Some (tok_at (st_index st + 1) v HS_TOK_HEADER_VAL,
      cl\<lparr>cl_parser := ps\<lparr>p_state := S_HR, p_match_index := 0,
           p_content_length := (if p_meta ps = M_CLV then dec_acc 0 v else p_content_length ps),
           p_meta := (if p_meta ps = M_MCK then (if low_prefix v ''chunked'' then M_CHK else M_ANY)
                      else if p_meta ps = M_CLV then M_SML
                      else if p_meta ps = M_WFK then M_ANY else p_meta ps)\<rparr>,
         cl_stream := st_run st (length v + 2) token0\<rparr>)"
proof -
  obtain c cs where v_eq: "v = c # cs" and c: "is_value_start c" and cs: "list_all is_value_char cs"
      and len: "length v < 32768"
    using v by (auto simp: wf_value_def split: list.splits)
  let ?st0 = "st_run st (Suc 0) token0"
  let ?ps1 = "ps\<lparr>p_state := S_HV, p_match_index := 0\<rparr>"
  let ?cl = "if p_meta ps = M_CLV then dec_acc 0 v else p_content_length ps"
  let ?m2 = "if p_meta ps = M_MCK then (if low_prefix v ''chunked'' then M_MCK else M_WFK) else p_meta ps"
  let ?m3 = "if p_meta ps = M_MCK then (if low_prefix v ''chunked'' then M_CHK else M_ANY)
    else if p_meta ps = M_CLV then M_SML else if p_meta ps = M_WFK then M_ANY else p_meta ps"
  have st0: "stream_ok ?st0" "unread ?st0 = c # cs @ CR # r"
    using unread_st_run_Cons [OF st(1,2)] v_eq by simp_all
  have same: "ps\<lparr>p_state := S_HS\<rparr> = ps" using ps(1) by simp
  have loop0: "token_loop spec pc (cl\<lparr>cl_parser := ps, cl_stream := st\<rparr>) =
      token_loop spec pc (cl\<lparr>cl_parser := ps, cl_stream := ?st0\<rparr>)"
    using token_loop_skip [OF st, of ps S_HS spec pc cl] ps(1) same by simp
  have low: "\<forall>x\<in>set v. ascii_low x \<noteq> NUL"
    using c cs by (auto simp: v_eq list_all_iff dest: value_char_nonzero value_start_char)
  obtain k where eff: "trans_effs S_HV v ?ps1 = Some (?ps1\<lparr>p_meta := ?m2, p_match_index := k, p_content_length := ?cl\<rparr>)"
  proof (cases "p_meta ps = M_MCK")
    case True
    then show ?thesis
      using trans_effs_value_chunked [of ?ps1 v] low len that by auto
  next
    case False
    then have "trans_effs S_HV v ?ps1 = Some (?ps1\<lparr>p_content_length := ?cl\<rparr>)"
      using trans_effs_value_length [of ?ps1 v] trans_effs_value_plain [of ?ps1 v] cl
      by (cases "p_meta ps = M_CLV") (auto simp: list_all_iff)
    with False show ?thesis using that [of 0] by simp
  qed
  have nx: "next_state S_HS (char_class c) = Some S_HV" "\<forall>x\<in>set cs. next_state S_HV (char_class x) = Some S_HV"
    using c cs by (auto simp: is_value_start_def is_value_char_def list_all_iff split: char_type_e.splits)
  have "token_loop spec pc (cl\<lparr>cl_parser := ps, cl_stream := ?st0\<rparr>) =
    Some (Some (open_token ?st0 HS_TOK_HEADER_VAL (Suc (length cs))),
      cl\<lparr>cl_parser := ?ps1\<lparr>p_meta := ?m2, p_match_index := k, p_content_length := ?cl,
           p_state := S_HR, p_match_index := 0, p_meta := ?m3\<rparr>,
         cl_stream := st_run ?st0 (length cs + 2) token0\<rparr>)"
    by (rule token_loop_word [OF st0, where s = S_HV])
      (use ps nx eff in \<open>auto simp: v_eq leave_event_def\<close>)
  with loop0 show ?thesis
    using ps(2) by (intro token_parse_returns) (auto simp: open_token_def tok_at_def v_eq)
qed

fun hdr_line :: "string \<times> string \<Rightarrow> string" where
  "hdr_line (k, v) = LF # k @ CHR '':'' # CHR '' '' # v @ [CR]"

fun hdr_tokens :: "int \<Rightarrow> (string \<times> string) list \<Rightarrow> token list" where
  "hdr_tokens off [] = []"
| "hdr_tokens off ((k, v) # hs) =
     tok_at (off + 1) k HS_TOK_HEADER_KEY
     # tok_at (off + 1 + int (length k) + 2) v HS_TOK_HEADER_VAL
     # hdr_tokens (off + int (length (hdr_line (k, v)))) hs"

lemma token_parses_2:
  assumes "token_parse spec pc cl = Some (a, cl1)" and "token_parse spec pc cl1 = Some (b, cl2)"
  shows "token_parses spec pc 2 cl = Some ([a, b], cl2)"
  using assms by (simp add: numeral_2_eq_2)

lemma token_parses_header:
  assumes st: "stream_ok st" "unread st = hdr_line (k, v) @ r" "st_token st = token0"
    and h: "wf_header (k, v)"
    and ps: "p_state ps \<in> {S_RR, S_HR}" "p_meta ps \<in> {M_ANY, M_SML, M_CHK}"
      "p_meta ps = M_ANY \<Longrightarrow> p_content_length ps = 0"
    and hc: "0 \<le> p_header_count ps" "p_header_count ps < sp_request_max_headers_count spec"
      "p_header_count ps < 32767"
  shows "token_parses spec pc 2 (cl\<lparr>cl_parser := ps, cl_stream := st\<rparr>) =
    Some (hdr_tokens (st_index st) [(k, v)],
      cl\<lparr>cl_parser := hdr_parser ps (hdr_eff (p_meta ps, p_content_length ps) (k, v)) (p_header_count ps + 1),
         cl_stream := st_run st (length (hdr_line (k, v))) token0\<rparr>)"
proof -
  let ?st1 = "st_run st (length k + 2) token0"
  let ?m1 = "if p_meta ps \<noteq> M_ANY then p_meta ps
    else if key_class k = M_MTE then M_MCK else if key_class k = M_MCL then M_CLV else M_WFK"
  let ?ps1 = "ps\<lparr>p_state := S_HS, p_match_index := 0, p_header_count := p_header_count ps + 1, p_meta := ?m1\<rparr>"
  have h': "wf_key k" "wf_value v"
      "key_class k = M_MCL \<Longrightarrow> list_all is_digit v \<and> dec_acc 0 v < 2 ^ 63"
    using h by (auto simp: wf_header_def)
  have 1: "token_parse spec pc (cl\<lparr>cl_parser := ps, cl_stream := st\<rparr>) =
      Some (tok_at (st_index st + 1) k HS_TOK_HEADER_KEY, cl\<lparr>cl_parser := ?ps1, cl_stream := ?st1\<rparr>)"
    using st(2) by (intro token_parse_header_key [OF st(1) _ st(3) h'(1) ps(1,2) hc]) simp
  have st1: "stream_ok ?st1" "unread ?st1 = CHR '' '' # v @ CR # r" "st_token ?st1 = token0"
    using unread_st_run [of st "LF # k @ [CHR '':'']" "CHR '' '' # v @ CR # r" token0] st by simp_all
  have 2: "token_parse spec pc (cl\<lparr>cl_parser := ?ps1, cl_stream := ?st1\<rparr>) =
      Some (tok_at (st_index ?st1 + 1) v HS_TOK_HEADER_VAL,
        cl\<lparr>cl_parser := ?ps1\<lparr>p_state := S_HR, p_match_index := 0,
           p_content_length := (if ?m1 = M_CLV then dec_acc 0 v else p_content_length ps),
           p_meta := (if ?m1 = M_MCK then (if low_prefix v ''chunked'' then M_CHK else M_ANY)
                      else if ?m1 = M_CLV then M_SML
                      else if ?m1 = M_WFK then M_ANY else ?m1)\<rparr>,
         cl_stream := st_run ?st1 (length v + 2) token0\<rparr>)"
    by (subst token_parse_header_value [OF st1 h'(2)]) (use ps h'(3) in \<open>auto split: if_splits\<close>)
  have fin: "?ps1\<lparr>p_state := S_HR, p_match_index := 0,
           p_content_length := (if ?m1 = M_CLV then dec_acc 0 v else p_content_length ps),
           p_meta := (if ?m1 = M_MCK then (if low_prefix v ''chunked'' then M_CHK else M_ANY)
                      else if ?m1 = M_CLV then M_SML
                      else if ?m1 = M_WFK then M_ANY else ?m1)\<rparr> =
      hdr_parser ps (hdr_eff (p_meta ps, p_content_length ps) (k, v)) (p_header_count ps + 1)"
    using ps(2,3) by (cases "p_meta ps = M_ANY") (auto simp: hdr_parser_def key_class_def)
  have toks: "hdr_tokens (st_index st) [(k, v)] =
      [tok_at (st_index st + 1) k HS_TOK_HEADER_KEY, tok_at (st_index ?st1 + 1) v HS_TOK_HEADER_VAL]"
    by (simp add: add.commute add.left_commute)
  show ?thesis
    using token_parses_2 [OF 1 2] unfolding fin toks by (simp add: add.commute add.left_commute del: hdr_eff.simps)
qed

lemma hdr_eff_meta:
  "m \<in> {M_ANY, M_SML, M_CHK} \<Longrightarrow> fst (hdr_eff (m, n) h) \<in> {M_ANY, M_SML, M_CHK}"
  "fst (hdr_eff (m, n) h) = M_ANY \<Longrightarrow> m = M_ANY \<and> snd (hdr_eff (m, n) h) = n"
  by (cases h; auto split: if_splits)+

lemma token_parses_headers:
  assumes "stream_ok st" "unread st = concat (map hdr_line hs) @ r" "st_token st = token0"
    and "list_all wf_header hs" "hs \<noteq> []"
    and "p_state ps \<in> {S_RR, S_HR}" "p_meta ps \<in> {M_ANY, M_SML, M_CHK}"
      "p_meta ps = M_ANY \<longrightarrow> p_content_length ps = 0"
    and "0 \<le> p_header_count ps" "p_header_count ps + int (length hs) \<le> sp_request_max_headers_count spec"
      "p_header_count ps + int (length hs) \<le> 32767"
  shows "token_parses spec pc (2 * length hs) (cl\<lparr>cl_parser := ps, cl_stream := st\<rparr>) =
    Some (hdr_tokens (st_index st) hs,
      cl\<lparr>cl_parser := hdr_parser ps (foldl hdr_eff (p_meta ps, p_content_length ps) hs)
           (p_header_count ps + int (length hs)),
         cl_stream := st_run st (length (concat (map hdr_line hs))) token0\<rparr>)"
  using assms
proof (induction hs arbitrary: st ps)
  case (Cons h hs)
  obtain k v where h: "h = (k, v)" by (cases h)
  let ?mn = "hdr_eff (p_meta ps, p_content_length ps) (k, v)"
  let ?ps1 = "hdr_parser ps ?mn (p_header_count ps + 1)"
  let ?st1 = "st_run st (length (hdr_line (k, v))) token0"
  have u: "unread st = hdr_line (k, v) @ concat (map hdr_line hs) @ r" using Cons.prems(2) h by simp
  have 1: "token_parses spec pc 2 (cl\<lparr>cl_parser := ps, cl_stream := st\<rparr>) =
      Some (hdr_tokens (st_index st) [(k, v)], cl\<lparr>cl_parser := ?ps1, cl_stream := ?st1\<rparr>)"
    by (rule token_parses_header [OF Cons.prems(1) u Cons.prems(3) _ Cons.prems(6,7)])
      (use Cons.prems(4,8-) h in simp_all)
  have mn: "fst ?mn \<in> {M_ANY, M_SML, M_CHK}" "fst ?mn = M_ANY \<longrightarrow> snd ?mn = 0"
    using hdr_eff_meta(1) [OF Cons.prems(7), of "p_content_length ps" "(k, v)"]
      hdr_eff_meta(2) [of "p_meta ps" "p_content_length ps" "(k, v)"] Cons.prems(8) by metis+
  show ?case
  proof (cases "hs = []")
    case True
    then show ?thesis using 1 h by simp
  next
    case False
    have "token_parses spec pc (2 * length hs) (cl\<lparr>cl_parser := ?ps1, cl_stream := ?st1\<rparr>) =
      Some (hdr_tokens (st_index ?st1) hs,
        cl\<lparr>cl_parser := hdr_parser ?ps1 (foldl hdr_eff (p_meta ?ps1, p_content_length ?ps1) hs)
           (p_header_count ?ps1 + int (length hs)),
         cl_stream := st_run ?st1 (length (concat (map hdr_line hs))) token0\<rparr>)"
      by (rule Cons.IH)
        (use False Cons.prems(4,9-) unread_st_run [OF Cons.prems(1) u] mn
          in \<open>simp_all add: hdr_parser_def del: hdr_eff.simps hdr_line.simps\<close>)
    from token_parses_append [OF 1 this] show ?thesis
      by (simp add: h hdr_parser_def add.assoc del: hdr_eff.simps hdr_line.simps)
  qed
qed simp

section \<open>The request line\<close>

definition wf_method :: "string \<Rightarrow> bool" where
  "wf_method m \<longleftrightarrow> m \<noteq> [] \<and> char_class (hd m) \<noteq> HS_DIGIT \<and> list_all is_tchar m"

definition is_target_char :: "char \<Rightarrow> bool" where
  "is_target_char c \<longleftrightarrow> is_vchar c \<or> char_class c = HS_COLN \<or> char_class c = HS_SCOLN"

definition wf_target :: "string \<Rightarrow> bool" where
  "wf_target t \<longleftrightarrow> t \<noteq> [] \<and> is_vchar (hd t) \<and> list_all is_target_char (tl t)"

definition wf_version :: "string \<Rightarrow> bool" where
  "wf_version v \<longleftrightarrow> v \<noteq> [] \<and> list_all is_vchar v"

lemma token_parse_method:
  assumes st: "stream_ok st" "unread st = m @ CHR '' '' # r" "st_token st = token0"
    and m: "wf_method m" and ps: "p_state ps = S_ST" "p_meta ps = M_WFK"
  shows "token_parse spec pc (cl\<lparr>cl_parser := ps, cl_stream := st\<rparr>) =
    Some (tok_at (st_index st) m HS_TOK_METHOD,
      cl\<lparr>cl_parser := ps\<lparr>p_state := S_MS, p_match_index := 0\<rparr>, cl_stream := st_run st (length m + 1) token0\<rparr>)"
proof -
  obtain c cs where m_eq: "m = c # cs" using m by (cases m) (auto simp: wf_method_def)
  have nx: "next_state S_ST (char_class c) = Some S_MT" "\<forall>x\<in>set cs. next_state S_MT (char_class x) = Some S_MT"
    using m by (auto simp: m_eq wf_method_def is_tchar_def list_all_iff)
  have u: "unread st = c # cs @ CHR '' '' # r" using st(2) m_eq by simp
  have "token_loop spec pc (cl\<lparr>cl_parser := ps, cl_stream := st\<rparr>) =
    Some (Some (open_token st HS_TOK_METHOD (Suc (length cs))),
      cl\<lparr>cl_parser := ps\<lparr>p_state := S_MT, p_match_index := 0, p_state := S_MS, p_match_index := 0, p_meta := M_WFK\<rparr>,
         cl_stream := st_run st (length cs + 2) token0\<rparr>)"
    by (rule token_loop_word [OF st(1) u st(3), where s = S_MT])
      (use ps nx in \<open>simp_all add: leave_event_def trans_effs_plain del: trans_effs.simps\<close>)
  moreover have "ps\<lparr>p_state := S_MS, p_match_index := 0, p_meta := M_WFK\<rparr> = ps\<lparr>p_state := S_MS, p_match_index := 0\<rparr>"
    using ps(2) by simp
  ultimately show ?thesis
    using ps(2) by (intro token_parse_returns) (simp_all add: open_token_def tok_at_def m_eq)
qed

lemma token_parse_target:
  assumes st: "stream_ok st" "unread st = t @ CHR '' '' # r" "st_token st = token0"
    and t: "wf_target t" and ps: "p_state ps = S_MS" "p_meta ps = M_WFK"
  shows "token_parse spec pc (cl\<lparr>cl_parser := ps, cl_stream := st\<rparr>) =
    Some (tok_at (st_index st) t HS_TOK_TARGET,
      cl\<lparr>cl_parser := ps\<lparr>p_state := S_TS, p_match_index := 0\<rparr>, cl_stream := st_run st (length t + 1) token0\<rparr>)"
proof -
  obtain c cs where t_eq: "t = c # cs" using t by (cases t) (auto simp: wf_target_def)
  have nx: "next_state S_MS (char_class c) = Some S_TR" "\<forall>x\<in>set cs. next_state S_TR (char_class x) = Some S_TR"
    using t by (auto simp: t_eq wf_target_def is_vchar_def is_target_char_def list_all_iff)
  have u: "unread st = c # cs @ CHR '' '' # r" using st(2) t_eq by simp
  have "token_loop spec pc (cl\<lparr>cl_parser := ps, cl_stream := st\<rparr>) =
    Some (Some (open_token st HS_TOK_TARGET (Suc (length cs))),
      cl\<lparr>cl_parser := ps\<lparr>p_state := S_TR, p_match_index := 0, p_state := S_TS, p_match_index := 0, p_meta := M_WFK\<rparr>,
         cl_stream := st_run st (length cs + 2) token0\<rparr>)"
    by (rule token_loop_word [OF st(1) u st(3), where s = S_TR])
      (use ps nx in \<open>simp_all add: leave_event_def trans_effs_plain del: trans_effs.simps\<close>)
  moreover have "ps\<lparr>p_state := S_TS, p_match_index := 0, p_meta := M_WFK\<rparr> = ps\<lparr>p_state := S_TS, p_match_index := 0\<rparr>"
    using ps(2) by simp
  ultimately show ?thesis
    using ps(2) by (intro token_parse_returns) (simp_all add: open_token_def tok_at_def t_eq)
qed

lemma token_parse_version:
  assumes st: "stream_ok st" "unread st = v @ CR # r" "st_token st = token0"
    and v: "wf_version v" and ps: "p_state ps = S_TS" "p_meta ps = M_WFK"
  shows "token_parse spec pc (cl\<lparr>cl_parser := ps, cl_stream := st\<rparr>) =
    Some (tok_at (st_index st) v HS_TOK_VERSION,
      cl\<lparr>cl_parser := ps\<lparr>p_state := S_RR, p_match_index := 0, p_meta := M_ANY\<rparr>,
         cl_stream := st_run st (length v + 1) token0\<rparr>)"
proof -
  obtain c cs where v_eq: "v = c # cs" using v by (cases v) (auto simp: wf_version_def)
  have nx: "next_state S_TS (char_class c) = Some S_VN" "\<forall>x\<in>set cs. next_state S_VN (char_class x) = Some S_VN"
    using v by (auto simp: v_eq wf_version_def is_vchar_def list_all_iff)
  have u: "unread st = c # cs @ CR # r" using st(2) v_eq by simp
  have "token_loop spec pc (cl\<lparr>cl_parser := ps, cl_stream := st\<rparr>) =
    Some (Some (open_token st HS_TOK_VERSION (Suc (length cs))),
      cl\<lparr>cl_parser := ps\<lparr>p_state := S_VN, p_match_index := 0, p_state := S_RR, p_match_index := 0, p_meta := M_ANY\<rparr>,
         cl_stream := st_run st (length cs + 2) token0\<rparr>)"
    by (rule token_loop_word [OF st(1) u st(3), where s = S_VN])
      (use ps nx in \<open>simp_all add: leave_event_def trans_effs_plain del: trans_effs.simps\<close>)
  then show ?thesis
    using ps(2) by (intro token_parse_returns) (simp_all add: open_token_def tok_at_def v_eq)
qed

definition request_line :: "string \<Rightarrow> string \<Rightarrow> string \<Rightarrow> string" where
  "request_line m t v = m @ CHR '' '' # t @ CHR '' '' # v @ [CR]"

lemma token_parses_request_line:
  assumes st: "stream_ok st" "unread st = request_line m t v @ r" "st_token st = token0"
    and wf: "wf_method m" "wf_target t" "wf_version v" and ps: "p_state ps = S_ST" "p_meta ps = M_WFK"
  shows "token_parses spec pc 3 (cl\<lparr>cl_parser := ps, cl_stream := st\<rparr>) =
    Some ([tok_at (st_index st) m HS_TOK_METHOD,
           tok_at (st_index st + int (length m) + 1) t HS_TOK_TARGET,
           tok_at (st_index st + int (length m) + 1 + int (length t) + 1) v HS_TOK_VERSION],
      cl\<lparr>cl_parser := ps\<lparr>p_state := S_RR, p_match_index := 0, p_meta := M_ANY\<rparr>,
         cl_stream := st_run st (length (request_line m t v)) token0\<rparr>)"
proof -
  let ?st1 = "st_run st (length m + 1) token0"
  let ?st2 = "st_run ?st1 (length t + 1) token0"
  let ?ps1 = "ps\<lparr>p_state := S_MS, p_match_index := 0\<rparr>"
  let ?ps2 = "?ps1\<lparr>p_state := S_TS, p_match_index := 0\<rparr>"
  have st1: "stream_ok ?st1" "unread ?st1 = t @ CHR '' '' # v @ CR # r"
    using unread_st_run [of st "m @ [CHR '' '']" "t @ CHR '' '' # v @ CR # r" token0] st
    by (simp_all add: request_line_def)
  have st2: "stream_ok ?st2" "unread ?st2 = v @ CR # r"
    using unread_st_run [of ?st1 "t @ [CHR '' '']" "v @ CR # r" token0] st1 by simp_all
  have "token_parse spec pc (cl\<lparr>cl_parser := ps, cl_stream := st\<rparr>) =
      Some (tok_at (st_index st) m HS_TOK_METHOD, cl\<lparr>cl_parser := ?ps1, cl_stream := ?st1\<rparr>)"
    using st ps wf by (intro token_parse_method) (simp_all add: request_line_def)
  moreover have "token_parse spec pc (cl\<lparr>cl_parser := ?ps1, cl_stream := ?st1\<rparr>) =
      Some (tok_at (st_index ?st1) t HS_TOK_TARGET, cl\<lparr>cl_parser := ?ps2, cl_stream := ?st2\<rparr>)"
    using st1 ps wf by (intro token_parse_target) simp_all
  moreover have "token_parse spec pc (cl\<lparr>cl_parser := ?ps2, cl_stream := ?st2\<rparr>) =
      Some (tok_at (st_index ?st2) v HS_TOK_VERSION,
        cl\<lparr>cl_parser := ?ps2\<lparr>p_state := S_RR, p_match_index := 0, p_meta := M_ANY\<rparr>,
           cl_stream := st_run ?st2 (length v + 1) token0\<rparr>)"
    using st2 ps wf by (intro token_parse_version) simp_all
  ultimately show ?thesis
    by (simp add: numeral_3_eq_3 request_line_def algebra_simps)
qed

section \<open>The end of the headers and the body\<close>

abbreviation no_proxy :: "'a \<Rightarrow> bool \<times> 'a" where
  "no_proxy cl \<equiv> (False, cl)"

lemma token_loop_headers_end:
  assumes st: "stream_ok st" "unread st = LF # CR # LF # r" "st_token st = token0"
    and ps: "p_state ps = S_HR"
    and hn: "transition_HN spec token0 (ps\<lparr>p_state := S_HN, p_match_index := 0\<rparr>) (st_run st 2 token0) = Some (em, ps')"
  shows "token_loop spec no_proxy (cl\<lparr>cl_parser := ps, cl_stream := st\<rparr>) =
    (if tk_type em \<noteq> HS_TOK_NONE then Some (Some em, cl\<lparr>cl_parser := ps', cl_stream := st_run st 3 token0\<rparr>)
     else token_loop spec no_proxy (cl\<lparr>cl_parser := ps', cl_stream := st_run st 3 token0\<rparr>))"
proof -
  let ?st1 = "st_run st (Suc 0) token0" and ?st2 = "st_run st 2 token0"
  let ?ps1 = "ps\<lparr>p_state := S_HE, p_match_index := 0\<rparr>" and ?ps2 = "ps\<lparr>p_state := S_ER, p_match_index := 0\<rparr>"
  have st1: "stream_ok ?st1" "unread ?st1 = CR # LF # r" "st_token ?st1 = token0"
    using unread_st_run_Cons [OF st(1,2)] by simp_all
  have st2: "stream_ok ?st2" "unread ?st2 = LF # r"
    using unread_st_run_Cons [OF st1(1,2)] by (simp_all add: numeral_2_eq_2)
  have 1: "token_loop spec no_proxy (cl\<lparr>cl_parser := ps, cl_stream := st\<rparr>) =
      token_loop spec no_proxy (cl\<lparr>cl_parser := ?ps1, cl_stream := ?st1\<rparr>)"
    using token_loop_skip [OF st, of ps S_HE spec no_proxy cl] ps by simp
  have 2: "\<dots> = token_loop spec no_proxy (cl\<lparr>cl_parser := ?ps2, cl_stream := ?st2\<rparr>)"
    using token_loop_skip [OF st1, of ?ps1 S_ER spec no_proxy cl] by (simp add: numeral_2_eq_2)
  let ?st = "?st2\<lparr>st_consumed := False\<rparr>"
  have "transition_HN spec token0 (ps\<lparr>p_state := S_HN, p_match_index := 0\<rparr>) ?st = Some (em, ps')"
    using hn by (simp add: transition_HN_def stream_can_contain_def)
  then have "transition spec LF S_ER S_HN (?ps2\<lparr>p_state := S_HN\<rparr>) ?st = Some (em, ps', ?st)"
    by (simp add: transition_defs)
  then have "token_step spec no_proxy LF (cl\<lparr>cl_parser := ?ps2, cl_stream := ?st\<rparr>) =
      Some (if tk_type em \<noteq> HS_TOK_NONE then Inl em else Inr (),
        cl\<lparr>cl_parser := ps', cl_stream := stream_consume ?st\<rparr>)"
    by (simp add: token_step_def)
  moreover have "stream_consume ?st = st_run st 3 token0"
    using stream_consume_run [of ?st LF r] st2 by (simp add: token0_def numeral_3_eq_3 numeral_2_eq_2)
  ultimately show ?thesis
    using 1 2 by (simp add: token_loop_Cons [OF st2])
qed

lemma transition_HN_any:
  "p_meta ps = M_ANY \<Longrightarrow> transition_HN spec token0 ps st =
     Some (token0\<lparr>tk_type := HS_TOK_BODY\<rparr>, ps\<lparr>p_meta := M_END\<rparr>)"
  by (simp add: transition_HN_def meta_trigger_def)

lemma transition_HN_chunked:
  "p_meta ps = M_CHK \<Longrightarrow> transition_HN spec token0 ps st =
     Some (token0\<lparr>tk_type := HS_TOK_BODY_STREAM\<rparr>, ps\<lparr>p_meta := M_ZER\<rparr>)"
  by (simp add: transition_HN_def meta_trigger_def)

lemma transition_HN_small:
  "p_meta ps = M_SML \<Longrightarrow> stream_can_contain spec st (p_content_length ps) \<Longrightarrow>
   transition_HN spec token0 ps st =
     (if p_content_length ps = 0 then Some (token0\<lparr>tk_type := HS_TOK_BODY\<rparr>, ps\<lparr>p_meta := M_END\<rparr>)
      else Some (token0, ps\<lparr>p_meta := M_BDY\<rparr>))"
  by (simp add: transition_HN_def meta_trigger_def)

lemma transition_HN_large:
  "p_meta ps = M_SML \<Longrightarrow> \<not> stream_can_contain spec st (p_content_length ps) \<Longrightarrow>
   transition_HN spec token0 ps st =
     Some (token0\<lparr>tk_type := HS_TOK_BODY_STREAM\<rparr>, ps\<lparr>p_meta := M_STR\<rparr>)"
  by (simp add: transition_HN_def meta_trigger_def)

lemma token_loop_body:
  assumes st: "stream_ok st" "unread st = body @ r" "st_token st = token0" "body \<noteq> []"
    and ps: "p_state ps = S_HN" "p_meta ps = M_BDY" "p_content_length ps = int (length body)"
      "p_body_consumed ps = 0"
  shows "token_loop spec pc (cl\<lparr>cl_parser := ps, cl_stream := st\<rparr>) =
    Some (Some (tok_at (st_index st) body HS_TOK_BODY),
      cl\<lparr>cl_parser := ps\<lparr>p_state := S_BD, p_match_index := 0, p_meta := M_END,
           p_content_length := 0, p_body_consumed := 0\<rparr>,
         cl_stream := (st_run st (length body) token0)\<lparr>st_anchor := st_index st\<rparr>\<rparr>)"
proof -
  obtain c cs where b: "body = c # cs" using st(4) by (cases body) auto
  have ix: "0 \<le> st_index st" "st_index st + int (length body) \<le> st_length st" "st_length st < 2 ^ 31"
    using st(1) unread_length [OF st(1)] st(2) by (auto simp: stream_ok_def)
  then have s32: "s32 (st_index st) = st_index st" "s32 (int (length body)) = int (length body)"
    by (simp_all add: s32_id)
  have "transition spec c S_HN S_BD (ps\<lparr>p_state := S_BD\<rparr>) (st\<lparr>st_consumed := False\<rparr>) =
      Some (tok_at (st_index st) body HS_TOK_BODY,
        ps\<lparr>p_state := S_BD, p_match_index := 0, p_meta := M_END, p_content_length := 0, p_body_consumed := 0\<rparr>,
        (st_run st (length body) token0)\<lparr>st_anchor := st_index st\<rparr>)"
    using ps ix s32 st(3)
    by (simp add: transition_defs transition_body_def stream_anchor_def stream_jump_def meta_trigger_def
        tok_at_def st_run_def token0_def)
  then show ?thesis
    using ps st(2) b
    by (simp add: token_loop_Cons [OF st(1), of c "cs @ r"] token_step_def stream_consume_def st_run_def tok_at_def)
qed

section \<open>Whole requests\<close>

definition print_request :: "string \<Rightarrow> string \<Rightarrow> string \<Rightarrow> (string \<times> string) list \<Rightarrow> string \<Rightarrow> string" where
  "print_request m t v hs body =
     m @ '' '' @ t @ '' '' @ v @ CRLF @ concat (map (\<lambda>(k, w). k @ '': '' @ w @ CRLF) hs) @ CRLF @ body"

definition token_text :: "stream \<Rightarrow> token \<Rightarrow> token_e \<times> string" where
  "token_text st tk = (tk_type tk, take (nat (tk_len tk)) (drop (nat (tk_index tk)) (st_buf st)))"

definition request_texts :: "string \<Rightarrow> string \<Rightarrow> string \<Rightarrow> (string \<times> string) list \<Rightarrow> (token_e \<times> string) list" where
  "request_texts m t v hs =
     [(HS_TOK_METHOD, m), (HS_TOK_TARGET, t), (HS_TOK_VERSION, v)] @
     concat (map (\<lambda>(k, w). [(HS_TOK_HEADER_KEY, k), (HS_TOK_HEADER_VAL, w)]) hs)"

text \<open>How the headers frame the body: the state of the second automaton and the content length.\<close>

definition framing :: "(string \<times> string) list \<Rightarrow> meta_state_e \<times> int" where
  "framing hs = foldl hdr_eff (M_ANY, 0) hs"

lemma print_request_lines:
  "print_request m t v hs body = request_line m t v @ concat (map hdr_line hs) @ LF # CR # LF # body"
proof -
  have "LF # concat (map (\<lambda>(k, w). k @ '': '' @ w @ CRLF) hs) @ CRLF @ body =
      concat (map hdr_line hs) @ LF # CR # LF # body"
    by (induction hs) auto
  then show ?thesis by (simp add: print_request_def request_line_def)
qed

lemma token_text_at:
  assumes "stream_ok st" and "unread st = a @ w @ r" and "off = st_index st + int (length a)"
  shows "token_text st (tok_at off w ty) = (ty, w)"
proof -
  have "take (length w) (drop (length a) (unread st)) = w" using assms(2) by simp
  moreover have "length a + length w \<le> length (unread st)" using assms(2) by simp
  moreover have "nat off = nat (st_index st) + length a"
    using assms(1,3) by (auto simp: stream_ok_def nat_add_distrib)
  moreover have "nat (st_index st) \<le> nat (st_length st)" using assms(1) by (auto simp: stream_ok_def)
  ultimately show ?thesis
    by (simp add: token_text_def tok_at_def unread_def take_drop min_def add.commute split: if_splits)
qed

lemma hdr_tokens_text:
  assumes "stream_ok st" and "unread st = a @ concat (map hdr_line hs) @ r" and "off = st_index st + int (length a)"
  shows "map (token_text st) (hdr_tokens off hs) =
    concat (map (\<lambda>(k, w). [(HS_TOK_HEADER_KEY, k), (HS_TOK_HEADER_VAL, w)]) hs)"
  using assms
proof (induction hs arbitrary: a off)
  case (Cons h hs)
  obtain k v where h: "h = (k, v)" by (cases h)
  let ?r = "concat (map hdr_line hs) @ r"
  have "token_text st (tok_at (off + 1) k HS_TOK_HEADER_KEY) = (HS_TOK_HEADER_KEY, k)"
    using Cons.prems h by (intro token_text_at [of _ "a @ [LF]" _ "CHR '':'' # CHR '' '' # v @ CR # ?r"]) auto
  moreover have "token_text st (tok_at (off + 1 + int (length k) + 2) v HS_TOK_HEADER_VAL) = (HS_TOK_HEADER_VAL, v)"
    using Cons.prems h by (intro token_text_at [of _ "a @ LF # k @ [CHR '':'', CHR '' '']" _ "CR # ?r"]) auto
  moreover have "map (token_text st) (hdr_tokens (off + int (length (hdr_line (k, v)))) hs) =
      concat (map (\<lambda>(k, w). [(HS_TOK_HEADER_KEY, k), (HS_TOK_HEADER_VAL, w)]) hs)"
    using Cons.prems h by (intro Cons.IH [of "a @ hdr_line (k, v)"]) auto
  ultimately show ?case by (simp add: h)
qed simp

definition head_tokens :: "int \<Rightarrow> string \<Rightarrow> string \<Rightarrow> string \<Rightarrow> (string \<times> string) list \<Rightarrow> token list" where
  "head_tokens off m t v hs =
     [tok_at off m HS_TOK_METHOD, tok_at (off + int (length m) + 1) t HS_TOK_TARGET,
      tok_at (off + int (length m) + 1 + int (length t) + 1) v HS_TOK_VERSION] @
     hdr_tokens (off + int (length (request_line m t v))) hs"

lemma head_tokens_text:
  assumes "stream_ok st" and "unread st = request_line m t v @ concat (map hdr_line hs) @ r"
  shows "map (token_text st) (head_tokens (st_index st) m t v hs) = request_texts m t v hs"
proof -
  let ?r = "concat (map hdr_line hs) @ r"
  have "token_text st (tok_at (st_index st) m HS_TOK_METHOD) = (HS_TOK_METHOD, m)"
    using assms by (intro token_text_at [of _ "[]" _ "CHR '' '' # t @ CHR '' '' # v @ CR # ?r"])
      (auto simp: request_line_def)
  moreover have "token_text st (tok_at (st_index st + int (length m) + 1) t HS_TOK_TARGET) = (HS_TOK_TARGET, t)"
    using assms by (intro token_text_at [of _ "m @ [CHR '' '']" _ "CHR '' '' # v @ CR # ?r"])
      (auto simp: request_line_def)
  moreover have "token_text st (tok_at (st_index st + int (length m) + 1 + int (length t) + 1) v HS_TOK_VERSION) =
      (HS_TOK_VERSION, v)"
    using assms by (intro token_text_at [of _ "m @ CHR '' '' # t @ [CHR '' '']" _ "CR # ?r"])
      (auto simp: request_line_def)
  moreover have "map (token_text st) (hdr_tokens (st_index st + int (length (request_line m t v))) hs) =
      concat (map (\<lambda>(k, w). [(HS_TOK_HEADER_KEY, k), (HS_TOK_HEADER_VAL, w)]) hs)"
    by (rule hdr_tokens_text [OF assms]) simp
  ultimately show ?thesis by (simp add: head_tokens_def request_texts_def)
qed

definition wf_head :: "server_spec \<Rightarrow> string \<Rightarrow> string \<Rightarrow> string \<Rightarrow> (string \<times> string) list \<Rightarrow> bool" where
  "wf_head spec m t v hs \<longleftrightarrow> wf_method m \<and> wf_target t \<and> wf_version v \<and>
     hs \<noteq> [] \<and> list_all wf_header hs \<and>
     int (length hs) \<le> sp_request_max_headers_count spec \<and> length hs \<le> 32767"

lemma token_parses_head:
  assumes st: "stream_ok st" "unread st = print_request m t v hs body" "st_token st = token0"
    and wf: "wf_head spec m t v hs"
  shows "token_parses spec pc (3 + 2 * length hs) (cl\<lparr>cl_parser := parser0, cl_stream := st\<rparr>) =
    Some (head_tokens (st_index st) m t v hs,
      cl\<lparr>cl_parser := hdr_parser parser0 (framing hs) (int (length hs)),
         cl_stream := st_run st (length (request_line m t v @ concat (map hdr_line hs))) token0\<rparr>)"
proof -
  let ?r = "LF # CR # LF # body"
  let ?st1 = "st_run st (length (request_line m t v)) token0"
  let ?ps1 = "parser0\<lparr>p_state := S_RR, p_match_index := 0, p_meta := M_ANY\<rparr>"
  have u: "unread st = request_line m t v @ concat (map hdr_line hs) @ ?r"
    using st(2) by (simp add: print_request_lines)
  have st1: "stream_ok ?st1" "unread ?st1 = concat (map hdr_line hs) @ ?r"
    using unread_st_run [OF st(1) u] by simp_all
  have "token_parses spec pc 3 (cl\<lparr>cl_parser := parser0, cl_stream := st\<rparr>) =
    Some ([tok_at (st_index st) m HS_TOK_METHOD,
           tok_at (st_index st + int (length m) + 1) t HS_TOK_TARGET,
           tok_at (st_index st + int (length m) + 1 + int (length t) + 1) v HS_TOK_VERSION],
      cl\<lparr>cl_parser := ?ps1, cl_stream := ?st1\<rparr>)"
    using wf by (intro token_parses_request_line [OF st(1) u st(3)]) (simp_all add: wf_head_def parser0_def)
  moreover have "token_parses spec pc (2 * length hs) (cl\<lparr>cl_parser := ?ps1, cl_stream := ?st1\<rparr>) =
    Some (hdr_tokens (st_index ?st1) hs,
      cl\<lparr>cl_parser := hdr_parser ?ps1 (foldl hdr_eff (p_meta ?ps1, p_content_length ?ps1) hs)
           (p_header_count ?ps1 + int (length hs)),
         cl_stream := st_run ?st1 (length (concat (map hdr_line hs))) token0\<rparr>)"
    using wf by (intro token_parses_headers [OF st1]) (auto simp: wf_head_def parser0_def)
  moreover have "hdr_parser ?ps1 (foldl hdr_eff (p_meta ?ps1, p_content_length ?ps1) hs)
           (p_header_count ?ps1 + int (length hs)) = hdr_parser parser0 (framing hs) (int (length hs))"
    by (simp add: hdr_parser_def parser0_def framing_def)
  ultimately show ?thesis
    using token_parses_append by (fastforce simp: head_tokens_def)
qed

text \<open>A freshly filled receive buffer and the limits of a server created without any.\<close>

definition fresh_stream :: "string \<Rightarrow> stream" where
  "fresh_stream d = \<lparr>st_buf = d @ [NUL], st_token = token0, st_bytes_total = int (length d),
     st_capacity = int (length d), st_length = int (length d), st_index = 0, st_anchor = 0,
     st_consumed = False\<rparr>"

definition default_spec :: server_spec where
  "default_spec = spec_defaults \<lparr>sp_request_buf_max_size = 0, sp_request_buf_size = 0,
     sp_request_timeout_keepalive_sec = 0, sp_request_timeout_sec = 0, sp_request_token_max_len = 0,
     sp_request_max_headers_count = 0\<rparr>"

lemmas wf_defs = wf_head_def wf_method_def wf_target_def wf_version_def wf_header_def wf_key_def wf_value_def
  is_value_start_def is_value_char_def is_target_char_def is_vchar_def is_tchar_def is_digit_def
  key_class_def low_prefix_def te_word_def cl_word_def ascii_low_def
  char_class_def code_class_def cval_def char_of_int_def

lemma fresh_stream_facts:
  "length d < 2 ^ 31 \<Longrightarrow> stream_ok (fresh_stream d)" "unread (fresh_stream d) = d"
  "st_token (fresh_stream d) = token0" "st_length (fresh_stream d) = int (length d)"
  by (simp_all add: fresh_stream_def stream_ok_def unread_def)

lemma token_parse_body:
  assumes st: "stream_ok st" "unread st = LF # CR # LF # body" "st_token st = token0"
      "st_length st \<le> sp_request_buf_max_size spec"
    and ps: "p_state ps = S_HR" "p_body_consumed ps = 0"
    and fr: "p_meta ps = M_SML \<and> p_content_length ps = int (length body) \<or> p_meta ps = M_ANY \<and> body = []"
  shows "\<exists>tok cl'. token_parse spec no_proxy (cl\<lparr>cl_parser := ps, cl_stream := st\<rparr>) = Some (tok, cl') \<and>
    token_text st tok = (HS_TOK_BODY, body) \<and> p_meta (cl_parser cl') = M_END"
proof -
  let ?ps = "ps\<lparr>p_state := S_HN, p_match_index := 0\<rparr>"
  have room: "stream_can_contain spec (st_run st 2 token0) (int (length body))"
    using unread_length [OF st(1)] st(2,4) by (simp add: stream_can_contain_def)
  have empty: "token_text st (token0\<lparr>tk_type := HS_TOK_BODY\<rparr>) = (HS_TOK_BODY, [])"
    by (simp add: token_text_def)
  show ?thesis
  proof (cases "body = []")
    case True
    have hn: "transition_HN spec token0 ?ps (st_run st 2 token0) =
        Some (token0\<lparr>tk_type := HS_TOK_BODY\<rparr>, ?ps\<lparr>p_meta := M_END\<rparr>)"
      using fr True room transition_HN_any [of ?ps] transition_HN_small [of ?ps spec "st_run st 2 token0"] by auto
    have "token_loop spec no_proxy (cl\<lparr>cl_parser := ps, cl_stream := st\<rparr>) =
        Some (Some (token0\<lparr>tk_type := HS_TOK_BODY\<rparr>), cl\<lparr>cl_parser := ?ps\<lparr>p_meta := M_END\<rparr>,
          cl_stream := st_run st 3 token0\<rparr>)"
      using token_loop_headers_end [OF st(1,2,3) ps(1) hn, where cl = cl] by simp
    from token_parse_returns [OF _ this] fr True empty show ?thesis by auto
  next
    case False
    then have hn: "transition_HN spec token0 ?ps (st_run st 2 token0) = Some (token0, ?ps\<lparr>p_meta := M_BDY\<rparr>)"
      using fr room transition_HN_small [of ?ps spec "st_run st 2 token0"] by auto
    let ?st3 = "st_run st 3 token0"
    have st3: "stream_ok ?st3" "unread ?st3 = body @ []"
      using unread_st_run [of st "[LF, CR, LF]" body token0] st by (simp_all add: numeral_3_eq_3)
    let ?cl' = "cl\<lparr>cl_parser := ?ps\<lparr>p_meta := M_BDY, p_state := S_BD, p_match_index := 0, p_meta := M_END,
           p_content_length := 0, p_body_consumed := 0\<rparr>,
         cl_stream := (st_run ?st3 (length body) token0)\<lparr>st_anchor := st_index ?st3\<rparr>\<rparr>"
    have "token_loop spec no_proxy (cl\<lparr>cl_parser := ?ps\<lparr>p_meta := M_BDY\<rparr>, cl_stream := ?st3\<rparr>) =
        Some (Some (tok_at (st_index ?st3) body HS_TOK_BODY), ?cl')"
      using fr False ps(2) by (intro token_loop_body [OF st3]) auto
    then have "token_loop spec no_proxy (cl\<lparr>cl_parser := ps, cl_stream := st\<rparr>) =
        Some (Some (tok_at (st_index ?st3) body HS_TOK_BODY), ?cl')"
      using token_loop_headers_end [OF st(1,2,3) ps(1) hn, where cl = cl] by simp
    moreover have "token_text st (tok_at (st_index ?st3) body HS_TOK_BODY) = (HS_TOK_BODY, body)"
      using st by (intro token_text_at [of _ "[LF, CR, LF]" _ "[]"]) auto
    ultimately show ?thesis
      using fr False token_parse_returns [where ps = ps and spec = spec and cl = cl and st = st] by fastforce
  qed
qed

lemma token_text_run: "st_buf st = st_buf st' \<Longrightarrow> token_text st tk = token_text st' tk"
  by (simp add: token_text_def)

text \<open>
  C1: The parser gives back the parts of every well-formed request. If the receive buffer holds
  the bytes of a request with at least one header field, and its header fields announce the
  length of its body, then reading tokens from a fresh parser returns exactly the method, the
  target, the version, the header names and values in order and the body, each as the right
  slice of the buffer, without an error or an out-of-range access.
\<close>

theorem request_roundtrip:
  assumes "stream_ok st" "unread st = print_request m t v hs body" "st_token st = token0"
    and "st_length st \<le> sp_request_buf_max_size spec"
    and "wf_head spec m t v hs"
    and "framing hs = (M_SML, int (length body)) \<or> fst (framing hs) = M_ANY \<and> body = []"
  shows "\<exists>toks cl'. token_parses spec no_proxy (4 + 2 * length hs) (cl\<lparr>cl_parser := parser0, cl_stream := st\<rparr>) =
      Some (toks, cl') \<and>
    map (token_text st) toks = request_texts m t v hs @ [(HS_TOK_BODY, body)] \<and>
    p_meta (cl_parser cl') = M_END"
proof -
  let ?w = "request_line m t v @ concat (map hdr_line hs)"
  let ?ps = "hdr_parser parser0 (framing hs) (int (length hs))"
  let ?st = "st_run st (length ?w) token0"
  have u: "unread st = ?w @ LF # CR # LF # body" using assms(2) by (simp add: print_request_lines)
  have st: "stream_ok ?st" "unread ?st = LF # CR # LF # body"
    using unread_st_run [OF assms(1) u] by simp_all
  have head: "token_parses spec no_proxy (3 + 2 * length hs) (cl\<lparr>cl_parser := parser0, cl_stream := st\<rparr>) =
      Some (head_tokens (st_index st) m t v hs, cl\<lparr>cl_parser := ?ps, cl_stream := ?st\<rparr>)"
    using token_parses_head [OF assms(1-3,5)] by simp
  obtain tok cl' where body: "token_parse spec no_proxy (cl\<lparr>cl_parser := ?ps, cl_stream := ?st\<rparr>) = Some (tok, cl')"
      "token_text ?st tok = (HS_TOK_BODY, body)" "p_meta (cl_parser cl') = M_END"
    using token_parse_body [OF st, where spec = spec and ps = ?ps and cl = cl] assms(4,6) by (auto simp: hdr_parser_def parser0_def)
  have "token_parses spec no_proxy 1 (cl\<lparr>cl_parser := ?ps, cl_stream := ?st\<rparr>) = Some ([tok], cl')"
    using body(1) by simp
  from token_parses_append [OF head this]
  have "token_parses spec no_proxy (4 + 2 * length hs) (cl\<lparr>cl_parser := parser0, cl_stream := st\<rparr>) =
      Some (head_tokens (st_index st) m t v hs @ [tok], cl')" by simp
  moreover have "map (token_text st) (head_tokens (st_index st) m t v hs @ [tok]) =
      request_texts m t v hs @ [(HS_TOK_BODY, body)]"
    using head_tokens_text [OF assms(1), of m t v hs "LF # CR # LF # body"] u body(2)
      token_text_run [of st ?st tok] by simp
  ultimately show ?thesis using body(3) by blast
qed

theorem request_roundtrip_witness:
  "\<exists>toks cl'. token_parses default_spec no_proxy 8
      \<lparr>cl_parser = parser0, cl_stream = fresh_stream
        (print_request ''POST'' ''/a?b'' ''HTTP/1.1'' [(''Host'', ''x:1''), (''Content-Length'', ''3'')] ''abc'')\<rparr> =
      Some (toks, cl') \<and>
    map (token_text (fresh_stream
        (print_request ''POST'' ''/a?b'' ''HTTP/1.1'' [(''Host'', ''x:1''), (''Content-Length'', ''3'')] ''abc''))) toks =
      [(HS_TOK_METHOD, ''POST''), (HS_TOK_TARGET, ''/a?b''), (HS_TOK_VERSION, ''HTTP/1.1''),
       (HS_TOK_HEADER_KEY, ''Host''), (HS_TOK_HEADER_VAL, ''x:1''),
       (HS_TOK_HEADER_KEY, ''Content-Length''), (HS_TOK_HEADER_VAL, ''3''), (HS_TOK_BODY, ''abc'')] \<and>
    p_meta (cl_parser cl') = M_END"
proof -
  let ?hs = "[(''Host'', ''x:1''), (''Content-Length'', ''3'')]"
  let ?st = "fresh_stream (print_request ''POST'' ''/a?b'' ''HTTP/1.1'' ?hs ''abc'')"
  have wf: "wf_head default_spec ''POST'' ''/a?b'' ''HTTP/1.1'' ?hs"
    by (simp add: wf_defs default_spec_def spec_defaults_def)
  have fr: "framing ?hs = (M_SML, 3)" by code_simp
  have len: "length (print_request ''POST'' ''/a?b'' ''HTTP/1.1'' ?hs ''abc'') < 100"
    by (simp add: print_request_def)
  have mx: "sp_request_buf_max_size default_spec = 8388608"
    by (simp add: default_spec_def spec_defaults_def)
  have st: "stream_ok ?st" "st_length ?st \<le> sp_request_buf_max_size default_spec"
    using len mx by (simp_all add: fresh_stream_facts)
  from request_roundtrip [OF st(1) fresh_stream_facts(2,3) st(2) wf, where cl =
      "\<lparr>cl_parser = parser0, cl_stream = ?st\<rparr>"] fr
  show ?thesis by (simp add: request_texts_def)
qed

section \<open>Arbitrary input\<close>

text \<open>One pass of the loop that does not return, as a step relation.\<close>

inductive loop_step :: "server_spec \<Rightarrow> ('a pclient_scheme \<Rightarrow> bool \<times> 'a pclient_scheme) \<Rightarrow>
    'a pclient_scheme \<Rightarrow> 'a pclient_scheme \<Rightarrow> bool" for spec pc where
  loop_step: "stream_next (cl_stream cl) = Some (Some c, st) \<Longrightarrow>
     token_step spec pc c (cl\<lparr>cl_stream := st\<rparr>) = Some (Inr u, cl') \<Longrightarrow> loop_step spec pc cl cl'"

lemma token_loop_step: "loop_step spec pc cl cl' \<Longrightarrow> token_loop spec pc cl = token_loop spec pc cl'"
  by (induction rule: loop_step.induct) (subst token_loop.simps, simp)

lemma token_loop_steps: "(loop_step spec pc)\<^sup>*\<^sup>* cl cl' \<Longrightarrow> token_loop spec pc cl = token_loop spec pc cl'"
  by (induction rule: rtranclp_induct) (auto dest: token_loop_step)

definition header_states :: "state_e list" where
  "header_states = [S_ST, S_MT, S_MS, S_TR, S_TS, S_VN, S_RR, S_RN, S_HK, S_HS, S_HV, S_HR, S_HE, S_ER]"

text \<open>The states of the second automaton that go with each state of the first one.\<close>

fun meta_ok :: "state_e \<Rightarrow> meta_state_e \<Rightarrow> bool" where
  "meta_ok S_RR m = (m = M_ANY)"
| "meta_ok S_RN m = (m = M_ANY)"
| "meta_ok S_HK m = (m \<in> {M_MTE, M_MCL, M_WFK, M_SML, M_CHK})"
| "meta_ok S_HS m = (m \<in> {M_MCK, M_CLV, M_WFK, M_SML, M_CHK})"
| "meta_ok S_HV m = (m \<in> {M_MCK, M_CLV, M_WFK, M_SML, M_CHK})"
| "meta_ok S_HR m = (m \<in> {M_ANY, M_SML, M_CHK})"
| "meta_ok S_HE m = (m \<in> {M_ANY, M_SML, M_CHK})"
| "meta_ok S_ER m = (m \<in> {M_ANY, M_SML, M_CHK})"
| "meta_ok S_HN m = (m \<in> {M_STR, M_BDY, M_END, M_ZER})"
| "meta_ok S_BR m = True"
| "meta_ok s m = (m = M_WFK)"

fun header_succ :: "state_e \<Rightarrow> state_e set" where
  "header_succ S_ST = {S_MT}"
| "header_succ S_MT = {S_MT, S_MS}"
| "header_succ S_MS = {S_TR}"
| "header_succ S_TR = {S_TR, S_TS}"
| "header_succ S_TS = {S_VN}"
| "header_succ S_VN = {S_VN, S_RR}"
| "header_succ S_RR = {S_RN}"
| "header_succ S_RN = {S_HK}"
| "header_succ S_HK = {S_HK, S_HS}"
| "header_succ S_HS = {S_HS, S_HV}"
| "header_succ S_HV = {S_HV, S_HR}"
| "header_succ S_HR = {S_HE}"
| "header_succ S_HE = {S_HK, S_ER}"
| "header_succ S_ER = {S_HN}"
| "header_succ _ = {}"

lemma header_next:
  assumes "s \<in> set header_states" and "next_state s t = Some to"
  shows "to = S_BR \<or> to \<in> header_succ s"
  using assms by (auto simp: header_states_def split: char_type_e.splits)

definition header_ok :: "parser \<Rightarrow> stream \<Rightarrow> bool" where
  "header_ok ps st \<longleftrightarrow> stream_ok st \<and> st_length st \<le> 32767 \<and>
     p_state ps \<in> set header_states \<and> meta_ok (p_state ps) (p_meta ps) \<and>
     p_body_consumed ps = 0 \<and> 0 \<le> p_match_index ps \<and> p_match_index ps \<le> st_index st \<and>
     0 \<le> tk_len (st_token st) \<and> tk_len (st_token st) \<le> st_index st"

lemma transition_BR:
  "s \<in> set header_states \<Longrightarrow> \<exists>tok ps' st'. transition spec c s S_BR ps st = Some (tok, ps', st') \<and>
     tk_type tok = HS_TOK_ERROR"
  by (auto simp: header_states_def transition_defs)

lemma key_meta_step_ok:
  "m \<in> {M_ANY, M_MTE, M_MCL, M_WFK, M_SML, M_CHK} \<Longrightarrow> (m = M_ANY \<Longrightarrow> i = 0) \<Longrightarrow>
     \<exists>m'. key_meta_step i c m = Some m' \<and> meta_ok S_HK m'"
  using key_meta_step_first [of c]
  by (cases "m = M_ANY") (auto simp: key_class_def, auto simp: key_meta_step_def Let_def)

lemma transition_HK_ok:
  assumes "meta_ok S_HK (p_meta ps) \<or> p_meta ps = M_ANY \<and> p_match_index ps = 0"
    and "0 \<le> p_match_index ps" "p_match_index ps < 32767"
  shows "\<exists>m. transition_HK c ps = Some (ps\<lparr>p_meta := m, p_match_index := p_match_index ps + 1\<rparr>) \<and> meta_ok S_HK m"
proof -
  let ?i = "nat (p_match_index ps)"
  have i: "p_match_index ps = int ?i" "?i < 32767" using assms(2,3) by auto
  obtain m where "key_meta_step ?i c (p_meta ps) = Some m" "meta_ok S_HK m"
    using key_meta_step_ok [of "p_meta ps" ?i c] assms(1) by auto
  then show ?thesis
    using transition_HK_eq [OF i] i(1) by (auto simp: add.commute)
qed

lemma transition_HV_ok:
  assumes "meta_ok S_HV (p_meta ps)" and "0 \<le> p_match_index ps" "p_match_index ps < 32767"
  shows "\<exists>ps'. transition_HV c ps = Some ps' \<and> p_state ps' = p_state ps \<and> meta_ok S_HV (p_meta ps') \<and>
    p_body_consumed ps' = p_body_consumed ps \<and>
    0 \<le> p_match_index ps' \<and> p_match_index ps' \<le> p_match_index ps + 1"
proof -
  have i: "p_match_index ps = int (nat (p_match_index ps))" using assms(2) by simp
  have "s16 (p_match_index ps + 1) = p_match_index ps + 1" using assms(2,3) by (simp add: s16_id)
  then show ?thesis
    using assms by (auto simp: transition_HV_def MATCH_eq [OF i] match_incr_def Let_def)
qed

lemma transition_HN_ok:
  assumes "meta_ok S_ER (p_meta ps)"
  shows "\<exists>em m. transition_HN spec token0 ps st = Some (em, ps\<lparr>p_meta := m\<rparr>) \<and> meta_ok S_HN m \<and>
    (tk_type em = HS_TOK_NONE \<longrightarrow> m = M_BDY)"
  using assms by (auto simp: transition_HN_def meta_trigger_def)

text \<open>What a byte does in the header states, apart from consuming it.\<close>

definition header_result :: "state_e \<Rightarrow> stream \<Rightarrow> (token \<times> parser \<times> stream) option \<Rightarrow> bool" where
  "header_result to st res \<longleftrightarrow> (\<exists>em ps' tk. res = Some (em, ps', st\<lparr>st_token := tk\<rparr>) \<and>
     p_state ps' = to \<and> meta_ok to (p_meta ps') \<and> p_body_consumed ps' = 0 \<and>
     0 \<le> p_match_index ps' \<and> p_match_index ps' \<le> st_index st + 1 \<and>
     0 \<le> tk_len tk \<and> tk_len tk \<le> st_index st \<and>
     (to = S_HN \<and> tk_type em = HS_TOK_NONE \<longrightarrow> p_meta ps' = M_BDY))"

lemma header_resultI:
  assumes "res = Some (em, ps', st')" "st' = st\<lparr>st_token := tk\<rparr>"
    and "p_state ps' = to" "meta_ok to (p_meta ps')" "p_body_consumed ps' = 0"
      "0 \<le> p_match_index ps'" "p_match_index ps' \<le> st_index st + 1"
    and "0 \<le> tk_len tk" "tk_len tk \<le> st_index st"
    and "to = S_HN \<Longrightarrow> tk_type em = HS_TOK_NONE \<Longrightarrow> p_meta ps' = M_BDY"
  shows "header_result to st res"
  using assms unfolding header_result_def by blast

lemma st_token_same: "st = st\<lparr>st_token := st_token st\<rparr>"
  by simp

lemma header_transition_plain:
  assumes "header_ok ps st" and "to \<in> header_succ (p_state ps)" and "to \<notin> {S_HK, S_HV, S_HN}"
  shows "header_result to st (transition spec c (p_state ps) to (ps\<lparr>p_state := to\<rparr>) st)"
  using assms
  by (cases "p_state ps")
    (auto simp: header_ok_def stream_ok_def transition_defs meta_trigger_def intro!: header_resultI st_token_same)

lemma header_transition_HK:
  assumes ok: "header_ok ps st" and ix: "st_index st < st_length st" and "S_HK \<in> header_succ (p_state ps)"
  shows "header_result S_HK st (transition spec c (p_state ps) S_HK (ps\<lparr>p_state := S_HK\<rparr>) st)"
proof (cases "p_state ps = S_HK")
  case True
  have "p_match_index ps < 32767" using ok ix by (auto simp: header_ok_def)
  then obtain m where "transition_HK c (ps\<lparr>p_state := S_HK\<rparr>) =
      Some (ps\<lparr>p_state := S_HK, p_meta := m, p_match_index := p_match_index ps + 1\<rparr>)" "meta_ok S_HK m"
    using transition_HK_ok [of "ps\<lparr>p_state := S_HK\<rparr>" c] ok True by (auto simp: header_ok_def)
  then show ?thesis
    using ok True by (auto simp: header_ok_def transition_defs intro!: header_resultI st_token_same)
next
  case False
  let ?ps = "ps\<lparr>p_state := S_HK, p_header_count := s16 (p_header_count ps + 1), p_match_index := 0\<rparr>"
  have s: "p_state ps \<in> {S_RN, S_HE}" using assms(3) False by (cases "p_state ps") auto
  then have "p_meta ps \<in> {M_ANY, M_SML, M_CHK}" using ok by (auto simp: header_ok_def)
  then obtain m where m: "transition_HK c ?ps = Some (?ps\<lparr>p_meta := m, p_match_index := 1\<rparr>)" "meta_ok S_HK m"
    using transition_HK_ok [of ?ps c] by fastforce
  have "\<exists>em. transition spec c (p_state ps) S_HK (ps\<lparr>p_state := S_HK\<rparr>) st =
      Some (em, ?ps\<lparr>p_meta := m, p_match_index := 1\<rparr>, stream_begin_token st HS_TOK_HEADER_KEY)"
    using s m(1) by (auto simp: transition_def transition_enter_def Let_def)
  then show ?thesis
    using ok m(2) by (fastforce simp: header_ok_def stream_ok_def stream_begin_token_def intro!: header_resultI)
qed

lemma header_transition_HV:
  assumes ok: "header_ok ps st" and ix: "st_index st < st_length st" and "S_HV \<in> header_succ (p_state ps)"
  shows "header_result S_HV st (transition spec c (p_state ps) S_HV (ps\<lparr>p_state := S_HV\<rparr>) st)"
proof -
  let ?ps = "if p_state ps = S_HV then ps\<lparr>p_state := S_HV\<rparr> else ps\<lparr>p_state := S_HV, p_match_index := 0\<rparr>"
  have s: "p_state ps \<in> {S_HS, S_HV}" using assms(3) by (cases "p_state ps") auto
  have "p_match_index ps < 32767" using ok ix by (auto simp: header_ok_def)
  then obtain ps' where "transition_HV c ?ps = Some ps'" "p_state ps' = S_HV" "meta_ok S_HV (p_meta ps')"
      "p_body_consumed ps' = 0"
      "0 \<le> p_match_index ps'" "p_match_index ps' \<le> p_match_index ?ps + 1"
    using transition_HV_ok [of ?ps c] ok s by (auto simp: header_ok_def)
  then show ?thesis
    using ok s by (auto simp: header_ok_def stream_ok_def transition_defs intro!: header_resultI st_token_same)
qed

lemma header_transition_HN:
  assumes ok: "header_ok ps st" and "S_HN \<in> header_succ (p_state ps)"
  shows "header_result S_HN st (transition spec c (p_state ps) S_HN (ps\<lparr>p_state := S_HN\<rparr>) st)"
proof -
  have s: "p_state ps = S_ER" using assms(2) by (cases "p_state ps") auto
  obtain em m where "transition_HN spec token0 (ps\<lparr>p_state := S_HN, p_match_index := 0\<rparr>) st =
      Some (em, ps\<lparr>p_state := S_HN, p_match_index := 0, p_meta := m\<rparr>)" "meta_ok S_HN m"
      "tk_type em = HS_TOK_NONE \<longrightarrow> m = M_BDY"
    using transition_HN_ok [of "ps\<lparr>p_state := S_HN, p_match_index := 0\<rparr>" spec st] ok s by (auto simp: header_ok_def)
  then show ?thesis
    using ok s by (auto simp: header_ok_def stream_ok_def transition_defs intro!: header_resultI st_token_same)
qed

lemma header_transition:
  assumes "header_ok ps st" and "st_index st < st_length st" and "to \<in> header_succ (p_state ps)"
  shows "header_result to st (transition spec c (p_state ps) to (ps\<lparr>p_state := to\<rparr>) st)"
  using header_transition_plain [OF assms(1,3)] header_transition_HK [OF assms(1,2)]
    header_transition_HV [OF assms(1,2)] header_transition_HN [OF assms(1)] assms(3)
  by (cases "to = S_HK"; cases "to = S_HV"; cases "to = S_HN") auto

lemma stream_consume_ok:
  assumes "stream_ok st" "unread st = c # r" "\<not> st_consumed st" "0 \<le> tk_len (st_token st)" "tk_len (st_token st) \<le> st_index st"
  shows "stream_ok (stream_consume st)" "unread (stream_consume st) = r"
    "st_index (stream_consume st) = st_index st + 1" "st_length (stream_consume st) = st_length st"
    "0 \<le> tk_len (st_token (stream_consume st))" "tk_len (st_token (stream_consume st)) \<le> st_index st + 1"
  using stream_consume_run [OF assms(1-3)] unread_st_run_Cons [OF assms(1,2)] assms(4,5)
  by (simp_all add: stream_ok_def)

lemma header_token_step:
  assumes ok: "header_ok ps st" and u: "unread st = c # r"
  shows "\<exists>res ps' st'. token_step spec no_proxy c (cl\<lparr>cl_parser := ps, cl_stream := st\<lparr>st_consumed := False\<rparr>\<rparr>) =
      Some (res, cl\<lparr>cl_parser := ps', cl_stream := st'\<rparr>) \<and>
    (case res of Inl tok \<Rightarrow> tk_type tok = HS_TOK_ERROR \<or> header_ok ps' st' \<or> p_state ps' = S_HN
     | Inr _ \<Rightarrow> unread st' = r \<and> stream_ok st' \<and> p_body_consumed ps' = 0 \<and>
         (header_ok ps' st' \<or> p_state ps' = S_HN \<and> p_meta ps' = M_BDY))"
proof -
  let ?st = "st\<lparr>st_consumed := False\<rparr>"
  have st: "stream_ok ?st" "unread ?st = c # r" using ok u by (simp_all add: header_ok_def)
  have ok': "header_ok ps ?st" using ok by (simp add: header_ok_def)
  have s: "p_state ps \<in> set header_states" using ok by (simp add: header_ok_def)
  have ix: "st_index ?st < st_length ?st" using unread_length [OF st(1)] st(2) by simp
  obtain to where to: "next_state (p_state ps) (char_class c) = Some to"
    using s by (auto simp: header_states_def)
  from header_next [OF s to] show ?thesis
  proof
    assume "to = S_BR"
    moreover obtain tok ps' st' where "transition spec c (p_state ps) S_BR (ps\<lparr>p_state := S_BR\<rparr>) ?st =
        Some (tok, ps', st')" "tk_type tok = HS_TOK_ERROR"
      using transition_BR [OF s] by blast
    ultimately have "token_step spec no_proxy c (cl\<lparr>cl_parser := ps, cl_stream := ?st\<rparr>) =
        Some (Inl tok, cl\<lparr>cl_parser := ps', cl_stream := stream_consume st'\<rparr>)" "tk_type tok = HS_TOK_ERROR"
      using to by (simp_all add: token_step_def)
    then show ?thesis by fastforce
  next
    assume succ: "to \<in> header_succ (p_state ps)"
    then obtain em ps' tk where tr: "transition spec c (p_state ps) to (ps\<lparr>p_state := to\<rparr>) ?st =
        Some (em, ps', ?st\<lparr>st_token := tk\<rparr>)" and ps': "p_state ps' = to" "meta_ok to (p_meta ps')"
        "p_body_consumed ps' = 0" "0 \<le> p_match_index ps'" "p_match_index ps' \<le> st_index st + 1"
        and tk: "0 \<le> tk_len tk" "tk_len tk \<le> st_index st"
        and hn: "to = S_HN \<Longrightarrow> tk_type em = HS_TOK_NONE \<Longrightarrow> p_meta ps' = M_BDY"
      using header_transition [OF ok' ix succ, of spec c] by (auto simp: header_result_def)
    let ?st' = "stream_consume (?st\<lparr>st_token := tk\<rparr>)"
    have not_body: "to \<noteq> S_BD" using succ by (cases "p_state ps") auto
    have st1: "stream_ok (?st\<lparr>st_token := tk\<rparr>)" "unread (?st\<lparr>st_token := tk\<rparr>) = c # r"
      using st by (simp_all add: stream_ok_def unread_def)
    have st': "stream_ok ?st'" "unread ?st' = r" "st_index ?st' = st_index st + 1" "st_length ?st' = st_length st"
        "0 \<le> tk_len (st_token ?st')" "tk_len (st_token ?st') \<le> st_index st + 1"
      using stream_consume_ok [OF st1] tk by simp_all
    have fin: "header_ok ps' ?st' \<or> p_state ps' = S_HN"
      using ok ps' st' succ by (cases "p_state ps") (auto simp: header_ok_def header_states_def)
    let ?res = "if tk_type em \<noteq> HS_TOK_NONE then Inl em else Inr ()"
    have "token_step spec no_proxy c (cl\<lparr>cl_parser := ps, cl_stream := ?st\<rparr>) =
        Some (?res, cl\<lparr>cl_parser := ps', cl_stream := ?st'\<rparr>)"
      using to tr not_body by (simp add: token_step_def)
    with fin ps' st'(1,2) hn show ?thesis
      by (intro exI [of _ ?res] exI [of _ ps'] exI [of _ ?st']) auto
  qed
qed

lemma token_loop_body_returns:
  assumes st: "stream_ok st" and ps: "p_state ps = S_HN" "p_meta ps = M_BDY" "p_body_consumed ps = 0"
    and n: "0 \<le> p_content_length ps" "p_content_length ps < 2 ^ 31"
  shows "\<exists>tok ps' st'. token_loop spec pc (cl\<lparr>cl_parser := ps, cl_stream := st\<rparr>) =
      Some (tok, cl\<lparr>cl_parser := ps', cl_stream := st'\<rparr>) \<and>
    p_state ps' \<in> {S_HN, S_BD} \<and> (tok = None \<longrightarrow> p_meta ps' = M_BDY)"
proof (cases "unread st")
  case Nil
  then show ?thesis using ps token_loop_Nil [OF st Nil, where spec = spec and pc = pc and cl = cl and ps = ps] by blast
next
  case (Cons c r)
  let ?st = "st\<lparr>st_consumed := False\<rparr>"
  let ?n = "p_content_length ps"
  have ix: "st_index st < st_length st" using unread_length [OF st] Cons by simp
  have n32: "s32 ?n = ?n" using n by (simp add: s32_id)
  show ?thesis
  proof (cases "st_index st + ?n > st_length st")
    case False
    let ?ps = "ps\<lparr>p_state := S_BD, p_match_index := 0, p_meta := M_END, p_content_length := 0, p_body_consumed := 0\<rparr>"
    obtain tok st' where "token_step spec pc c (cl\<lparr>cl_parser := ps, cl_stream := ?st\<rparr>) =
        Some (Inl tok, cl\<lparr>cl_parser := ?ps, cl_stream := st'\<rparr>)"
      using False ps n32
      by (simp add: token_step_def transition_defs transition_body_def
          stream_anchor_def stream_jump_def meta_trigger_def stream_consume_def token0_def)
    then have "token_loop spec pc (cl\<lparr>cl_parser := ps, cl_stream := st\<rparr>) =
        Some (Some tok, cl\<lparr>cl_parser := ?ps, cl_stream := st'\<rparr>)"
      by (simp add: token_loop_Cons [OF st Cons])
    then show ?thesis by fastforce
  next
    case True
    let ?ps = "ps\<lparr>p_state := S_BD, p_match_index := 0, p_body_consumed := st_length st - st_index st\<rparr>"
    obtain st' where step: "token_step spec pc c (cl\<lparr>cl_parser := ps, cl_stream := ?st\<rparr>) =
        Some (Inr (), cl\<lparr>cl_parser := ?ps, cl_stream := st'\<rparr>)"
        and st': "st_index st' = st_length st'"
      using True ps n32
      by (simp add: token_step_def transition_defs transition_body_def stream_anchor_def stream_jump_def
          stream_jumpall_def meta_trigger_def stream_consume_def token0_def)
    have "token_loop spec pc (cl\<lparr>cl_parser := ?ps, cl_stream := st'\<rparr>) =
        Some (None, cl\<lparr>cl_parser := ?ps, cl_stream := st'\<lparr>st_consumed := False\<rparr>\<rparr>)"
      using st' by (subst token_loop.simps) (simp add: stream_next_def)
    then have "token_loop spec pc (cl\<lparr>cl_parser := ps, cl_stream := st\<rparr>) =
        Some (None, cl\<lparr>cl_parser := ?ps, cl_stream := st'\<lparr>st_consumed := False\<rparr>\<rparr>)"
      using step by (simp add: token_loop_Cons [OF st Cons])
    then show ?thesis using ps by fastforce
  qed
qed

lemma token_parse_end_returns:
  assumes "p_state ps \<noteq> S_CB" "p_meta ps \<notin> {M_SEN, M_END, M_ERR}"
  shows "\<exists>tok. token_parse_end spec (cl\<lparr>cl_parser := ps, cl_stream := st\<rparr>) =
    Some (tok, cl\<lparr>cl_parser := ps, cl_stream := st\<rparr>)"
  using assms by (cases "p_meta ps")
    (auto simp: token_parse_end_def meta_emit_token_def meta_trigger_def Let_def)

definition bad_length :: "server_spec \<Rightarrow> 'a pclient_scheme \<Rightarrow> bool" where
  "bad_length spec cl \<longleftrightarrow> (\<exists>cl'. (loop_step spec no_proxy)\<^sup>*\<^sup>* cl cl' \<and> p_state (cl_parser cl') = S_HN \<and>
     (p_content_length (cl_parser cl') < 0 \<or> p_content_length (cl_parser cl') \<ge> 2 ^ 31))"

lemma bad_length_step: "loop_step spec no_proxy cl cl' \<Longrightarrow> bad_length spec cl' \<Longrightarrow> bad_length spec cl"
  unfolding bad_length_def by (meson converse_rtranclp_into_rtranclp)

text \<open>The outcomes of a call that starts in the header states.\<close>

definition header_outcome :: "token option \<Rightarrow> parser \<Rightarrow> stream \<Rightarrow> bool" where
  "header_outcome tok ps st \<longleftrightarrow> header_ok ps st \<or> p_state ps \<in> {S_HN, S_BD}
     \<or> (\<exists>t. tok = Some t \<and> tk_type t = HS_TOK_ERROR)"

lemma token_loop_header_returns:
  assumes "header_ok ps st"
  shows "(\<exists>tok ps' st'. token_loop spec no_proxy (cl\<lparr>cl_parser := ps, cl_stream := st\<rparr>) =
       Some (tok, cl\<lparr>cl_parser := ps', cl_stream := st'\<rparr>) \<and> header_outcome tok ps' st' \<and>
       (tok = None \<longrightarrow> p_state ps' \<noteq> S_CB \<and> p_meta ps' \<notin> {M_SEN, M_END, M_ERR}))
     \<or> bad_length spec (cl\<lparr>cl_parser := ps, cl_stream := st\<rparr>)"
  using assms
proof (induction "length (unread st)" arbitrary: ps st)
  case 0
  then have st: "stream_ok st" "unread st = []" by (simp_all add: header_ok_def)
  moreover have "header_ok ps (st\<lparr>st_consumed := False\<rparr>)" using 0 by (simp add: header_ok_def)
  moreover have "p_state ps \<noteq> S_CB" "p_meta ps \<notin> {M_SEN, M_END, M_ERR}"
    using 0 by (auto simp: header_ok_def header_states_def)
  ultimately show ?case
    using token_loop_Nil [OF st, where spec = spec and pc = no_proxy and cl = cl and ps = ps] unfolding header_outcome_def by blast
next
  case (Suc n)
  then obtain c r where u: "unread st = c # r" "length r = n" by (cases "unread st") auto
  have st: "stream_ok st" using Suc.prems by (simp add: header_ok_def)
  let ?cl = "cl\<lparr>cl_parser := ps, cl_stream := st\<rparr>"
  obtain res ps' st' where step: "token_step spec no_proxy c (cl\<lparr>cl_parser := ps, cl_stream := st\<lparr>st_consumed := False\<rparr>\<rparr>) =
      Some (res, cl\<lparr>cl_parser := ps', cl_stream := st'\<rparr>)"
    and res: "case res of Inl tok \<Rightarrow> tk_type tok = HS_TOK_ERROR \<or> header_ok ps' st' \<or> p_state ps' = S_HN
     | Inr _ \<Rightarrow> unread st' = r \<and> stream_ok st' \<and> p_body_consumed ps' = 0 \<and>
         (header_ok ps' st' \<or> p_state ps' = S_HN \<and> p_meta ps' = M_BDY)"
    using header_token_step [OF Suc.prems u(1), of spec cl] by blast
  let ?cl' = "cl\<lparr>cl_parser := ps', cl_stream := st'\<rparr>"
  show ?case
  proof (cases res)
    case (Inl tok)
    then have "token_loop spec no_proxy ?cl = Some (Some tok, ?cl')"
      using step by (simp add: token_loop_Cons [OF st u(1)])
    moreover have "header_outcome (Some tok) ps' st'" using res Inl by (auto simp: header_outcome_def)
    ultimately show ?thesis by blast
  next
    case (Inr x)
    then have ls: "loop_step spec no_proxy ?cl ?cl'"
      using step stream_next_Cons [OF st u(1)] by (intro loop_step.intros [of _ c]) simp_all
    note eq = token_loop_step [OF ls]
    have st': "unread st' = r" "stream_ok st'" using res Inr by auto
    consider "header_ok ps' st'" | "p_state ps' = S_HN" "p_meta ps' = M_BDY" "p_body_consumed ps' = 0"
      using res Inr by auto
    then show ?thesis
    proof cases
      case 1
      then show ?thesis
        using Suc.hyps(1) [of st' ps'] st' u(2) eq bad_length_step [OF ls] by auto
    next
      case 2
      show ?thesis
      proof (cases "0 \<le> p_content_length ps' \<and> p_content_length ps' < 2 ^ 31")
        case True
        then show ?thesis
          using token_loop_body_returns [OF st'(2) 2, of spec no_proxy cl] eq
          by (fastforce simp: header_outcome_def)
      next
        case False
        have "bad_length spec ?cl'"
          unfolding bad_length_def by (intro exI [of _ ?cl'] conjI) (use 2 False in auto)
        then show ?thesis using bad_length_step [OF ls] by blast
      qed
    qed
  qed
qed

lemma header_ok_not_end: "header_ok ps st \<Longrightarrow> p_meta ps \<notin> {M_SEN, M_END}"
  by (auto simp: header_ok_def header_states_def)

text \<open>
  C3: Reading the head of a request is safe on every input. Whatever at most 32767 bytes the
  receive buffer holds, from every state the parser can have before the end of the headers
  \<open>_token_parse\<close> returns: all its accesses to the buffer, to both tables and to the words it
  matches names with are in range. It gives an error token, or stays in such a state, or is past
  the headers. The one exception is a header block that ends with a content length that is
  negative or does not fit an \<open>int\<close>.
\<close>

theorem header_phase_safe:
  assumes "header_ok ps st"
  shows "bad_length spec (cl\<lparr>cl_parser := ps, cl_stream := st\<rparr>) \<or>
    (\<exists>tok ps' st'. token_parse spec no_proxy (cl\<lparr>cl_parser := ps, cl_stream := st\<rparr>) =
        Some (tok, cl\<lparr>cl_parser := ps', cl_stream := st'\<rparr>) \<and>
      (header_ok ps' st' \<or> p_state ps' \<in> {S_HN, S_BD} \<or> tk_type tok = HS_TOK_ERROR))"
proof -
  let ?cl = "cl\<lparr>cl_parser := ps, cl_stream := st\<rparr>"
  consider "bad_length spec ?cl"
    | tok ps' st' where "token_loop spec no_proxy ?cl = Some (tok, cl\<lparr>cl_parser := ps', cl_stream := st'\<rparr>)"
      "header_outcome tok ps' st'" "tok = None \<longrightarrow> p_state ps' \<noteq> S_CB \<and> p_meta ps' \<notin> {M_SEN, M_END, M_ERR}"
    using token_loop_header_returns [OF assms, of spec cl] by blast
  then show ?thesis
  proof cases
    case 2
    let ?cl' = "cl\<lparr>cl_parser := ps', cl_stream := st'\<rparr>"
    have start: "meta_emit_token ps = Some (token0, ps)"
      using header_ok_not_end [OF assms] by (cases "p_meta ps") (auto simp: meta_emit_token_def)
    show ?thesis
    proof (cases tok)
      case None
      with 2 obtain t where "token_parse_end spec ?cl' = Some (t, ?cl')"
        using token_parse_end_returns [where ps = ps' and spec = spec and cl = cl and st = st'] by auto
      with 2 None start have "token_parse spec no_proxy ?cl = Some (t, ?cl')"
        by (simp add: token_parse_def cl_update_order)
      moreover have "header_ok ps' st' \<or> p_state ps' \<in> {S_HN, S_BD}"
        using 2 None by (auto simp: header_outcome_def)
      ultimately show ?thesis by blast
    next
      case (Some t)
      with 2 header_ok_not_end [OF assms] have "token_parse spec no_proxy ?cl = Some (t, ?cl')"
        by (intro token_parse_returns) auto
      moreover have "header_ok ps' st' \<or> p_state ps' \<in> {S_HN, S_BD} \<or> tk_type t = HS_TOK_ERROR"
        using 2 Some by (auto simp: header_outcome_def)
      ultimately show ?thesis by blast
    qed
  qed simp
qed

theorem header_phase_safe_witness:
  "bad_length default_spec \<lparr>cl_parser = parser0, cl_stream = fresh_stream ''GET  x''\<rparr> \<or>
   (\<exists>tok ps' st'. token_parse default_spec no_proxy \<lparr>cl_parser = parser0, cl_stream = fresh_stream ''GET  x''\<rparr> =
        Some (tok, \<lparr>cl_parser = ps', cl_stream = st'\<rparr>) \<and>
      (header_ok ps' st' \<or> p_state ps' \<in> {S_HN, S_BD} \<or> tk_type tok = HS_TOK_ERROR))"
proof -
  have "header_ok parser0 (fresh_stream ''GET  x'')"
    by (simp add: header_ok_def fresh_stream_facts header_states_def parser0_def)
      (simp add: fresh_stream_def)
  from header_phase_safe [OF this, where cl = "\<lparr>cl_parser = parser0, cl_stream = fresh_stream ''GET  x''\<rparr>"]
  show ?thesis by simp
qed



lemma transition_HK_wrap: "p_match_index ps < 0 \<Longrightarrow> transition_HK c ps = None"
  by (simp add: transition_HK_def MATCH_def rdi_def)

lemma transition_HK_last:
  assumes "p_match_index ps = 32767" "transition_HK c ps = Some ps'"
  shows "p_match_index ps' = - 32768" "p_state ps' = p_state ps"
proof -
  have "s16 32768 = - 32768" by (simp add: s16_def signed_take_bit_eq_take_bit_shift take_bit_eq_mod)
  with assms show "p_match_index ps' = - 32768" "p_state ps' = p_state ps"
    by (auto simp: transition_HK_def bind_eq_Some_conv match_incr_def dest!: MATCH_fields)
qed

lemma tchar_stays: "is_tchar c \<Longrightarrow> next_state S_HK (char_class c) = Some S_HK"
  by (auto simp: is_tchar_def)

lemma token_loop_None:
  assumes "stream_ok st" "unread st = c # r" "p_state ps = S_HK" "is_tchar c"
    and "transition_HK c ps = None"
  shows "token_loop spec pc (cl\<lparr>cl_parser := ps, cl_stream := st\<rparr>) = None"
proof -
  have "ps\<lparr>p_state := S_HK\<rparr> = ps" using assms(3) by simp
  then have "transition_HK c (ps\<lparr>p_state := S_HK\<rparr>) = None" using assms(5) by metis
  moreover note tchar_stays [OF assms(4)]
  ultimately show ?thesis
    using assms(3) by (simp add: token_loop_Cons [OF assms(1,2)] token_step_def transition_defs)
qed

lemma token_loop_long_name:
  assumes st: "stream_ok st" "unread st = a # b # r" "is_tchar a" "is_tchar b"
    and tk: "tk_type (st_token st) \<noteq> HS_TOK_NONE" "0 \<le> tk_len (st_token st)" "tk_len (st_token st) \<le> st_index st"
    and ps: "p_state ps = S_HK" "p_match_index ps = 32767"
  shows "token_loop spec pc (cl\<lparr>cl_parser := ps, cl_stream := st\<rparr>) = None"
proof (cases "transition_HK a ps")
  case None
  with st(3) show ?thesis by (intro token_loop_None [OF st(1,2) ps(1)])
next
  case (Some ps')
  let ?st = "st_run st (Suc 0) ((st_token st)\<lparr>tk_len := tk_len (st_token st) + 1\<rparr>)"
  have "token_loop spec pc (cl\<lparr>cl_parser := ps, cl_stream := st\<rparr>) =
      token_loop spec pc (cl\<lparr>cl_parser := ps', cl_stream := ?st\<rparr>)"
    using token_loop_stay [OF st(1,2) ps(1), where ps' = ps' and spec = spec and pc = pc and cl = cl] tk Some
      tchar_stays [OF st(3)]
    by (simp add: trans_eff_def)
  also have "\<dots> = None"
    using transition_HK_last [OF ps(2) Some] ps(1) unread_st_run_Cons [OF st(1,2)] st(4)
    by (intro token_loop_None [of _ b r] transition_HK_wrap) auto
  finally show ?thesis .
qed

text \<open>
  C5: A header name of 32770 or more bytes makes the parser read outside its match words: the
  16-bit match index wraps to a negative number.
\<close>

theorem long_header_name_out_of_bounds:
  assumes st: "stream_ok st" "unread st = k @ r" "st_token st = token0"
    and k: "\<forall>c\<in>set k. is_tchar c" "32769 < length k"
    and ps: "p_state ps = S_RN" "p_meta ps = M_ANY"
      "0 \<le> p_header_count ps" "p_header_count ps < sp_request_max_headers_count spec" "p_header_count ps < 32767"
  shows "token_parse spec pc (cl\<lparr>cl_parser := ps, cl_stream := st\<rparr>) = None"
proof -
  obtain c cs a b r' where keq: "k = (c # cs) @ a # b # r'" "length cs = 32766"
  proof -
    have "take 32767 k = take 1 k @ take 32766 (drop 1 k)" using take_add [of 1 32766 k] by simp
    then have "k = take 1 k @ take 32766 (drop 1 k) @ drop 32767 k"
      by (metis append_assoc append_take_drop_id)
    moreover obtain a b r' where "drop 32767 k = a # b # r'"
      using k(2) by (cases "drop 32767 k"; cases "tl (drop 32767 k)") (auto dest: arg_cong [of _ _ length])
    moreover obtain c where "take 1 k = [c]" using k(2) by (cases k) auto
    ultimately show ?thesis using that [of c "take 32766 (drop 1 k)" a b r'] k(2) by simp
  qed
  let ?ps0 = "ps\<lparr>p_state := S_HK, p_match_index := 0, p_header_count := p_header_count ps + 1\<rparr>"
  let ?ps2 = "?ps0\<lparr>p_meta := key_class (c # cs), p_match_index := 32767\<rparr>"
  have eff: "trans_effs S_HK (c # cs) ?ps0 = Some ?ps2"
    using trans_effs_key_any [of ?ps0 "c # cs"] keq k(1) ps(2) by simp
  obtain ps1 where ps1: "transition_HK c ?ps0 = Some ps1" "trans_effs S_HK cs ps1 = Some ?ps2"
    using eff by (auto simp: bind_eq_Some_conv trans_eff_def)
  have s1: "p_state ps1 = S_HK" using trans_eff_state [of S_HK c ?ps0 ps1] ps1(1) by (simp add: trans_eff_def)
  let ?st1 = "st_run st (Suc 0) (open_token st HS_TOK_HEADER_KEY 1)"
  have u: "unread st = c # cs @ a # b # r' @ r" using st(2) keq by simp
  have st1: "stream_ok ?st1" "unread ?st1 = cs @ a # b # r' @ r" using unread_st_run_Cons [OF st(1) u] by simp_all
  let ?st2 = "st_run ?st1 (length cs) (open_token st HS_TOK_HEADER_KEY 32767)"
  have ix: "0 \<le> st_index st" using st(1) by (simp add: stream_ok_def)
  have tc: "is_tchar c" "is_tchar a" "is_tchar b" "\<forall>x\<in>set cs. next_state S_HK (char_class x) = Some S_HK"
    using k(1) by (simp_all add: keq tchar_stays del: next_state_simps)
  have "token_loop spec pc (cl\<lparr>cl_parser := ps, cl_stream := st\<rparr>) =
      token_loop spec pc (cl\<lparr>cl_parser := ps1, cl_stream := ?st1\<rparr>)"
    using ps by (intro token_loop_enter_key [OF st(1) u st(3) tc(1) _ ps(3,4,5) ps1(1)]) simp
  also have "\<dots> = token_loop spec pc (cl\<lparr>cl_parser := ?ps2, cl_stream := ?st2\<rparr>)"
    using token_loop_scan [OF st1 s1 _ tc(4) ps1(2), of spec pc cl] ix keq(2) by (simp add: open_token_def)
  also have "\<dots> = None"
    using unread_st_run [OF st1] tc ix keq(2) by (intro token_loop_long_name [of _ a b "r' @ r"]) simp_all
  finally show ?thesis using ps(2) by (simp add: token_parse_def meta_emit_token_def cl_update_order)
qed

theorem long_header_name_out_of_bounds_witness:
  "token_parse default_spec no_proxy
     \<lparr>cl_parser = parser0\<lparr>p_state := S_RN, p_meta := M_ANY\<rparr>,
      cl_stream = fresh_stream (replicate 32770 CHR ''x'' @ '': 1'')\<rparr> = None"
proof -
  let ?ps = "parser0\<lparr>p_state := S_RN, p_meta := M_ANY\<rparr>"
  let ?st = "fresh_stream (replicate 32770 CHR ''x'' @ '': 1'')"
  have "is_tchar CHR ''x''" by (simp add: wf_defs)
  moreover have "stream_ok ?st" by (simp add: fresh_stream_facts)
  ultimately show ?thesis
    using long_header_name_out_of_bounds [of ?st "replicate 32770 CHR ''x''" "'': 1''" ?ps default_spec no_proxy
        "\<lparr>cl_parser = ?ps, cl_stream = ?st\<rparr>"]
    by (simp add: fresh_stream_facts parser0_def default_spec_def spec_defaults_def)
qed

end
