(* ===== verification/Http_Chunk.thy ===== *)
theory Http_Chunk
  imports Http_Grammar Codec
begin

text \<open>
  Chunked request bodies: how the parser reads chunk sizes, chunk data and the end of the body,
  and that it recovers the data of every chunk a sender wrote in the format of
  \<open>iwn_http_response_chunk_write\<close>.
\<close>

section \<open>Chunk sizes\<close>

text \<open>The digits \<open>printf\<close> makes of an unsigned number for \<open>%X\<close>.\<close>

fun hex_upper :: "nat \<Rightarrow> string" where
  "hex_upper n = (if n < 16 then [] else hex_upper (n div 16)) @ [hex_digits ! (n mod 16)]"

declare hex_upper.simps [simp del]

definition size_digit :: "char \<Rightarrow> int" where
  "size_digit c =
     (if cval c \<ge> cval CHR ''A'' \<and> cval c \<le> cval CHR ''F'' then cval c - 55
      else if cval c \<ge> cval CHR ''a'' \<and> cval c \<le> cval CHR ''f'' then cval c - 87
      else cval c - cval CHR ''0'')"

definition is_hex :: "char \<Rightarrow> bool" where
  "is_hex c \<longleftrightarrow> char_class c \<in> {HS_DIGIT, HS_HEX}"

lemma hex_digit_facts:
  "list_all (\<lambda>i. let c = hex_digits ! i in size_digit c = int i \<and> is_hex c \<and> (c = CHR ''0'' \<longleftrightarrow> i = 0)) [0..<16]"
  by (simp add: hex_digits_def upt_rec size_digit_def is_hex_def char_class_def code_class_def cval_nat Let_def)

lemma hex_digit:
  assumes "i < 16"
  shows "size_digit (hex_digits ! i) = int i" "is_hex (hex_digits ! i)" "hex_digits ! i = CHR ''0'' \<longleftrightarrow> i = 0"
  using hex_digit_facts assms by (auto simp: list_all_iff Let_def)

lemma code_class_not_hex:
  "\<not> (65 \<le> n \<and> n \<le> 70 \<or> 97 \<le> n \<and> n \<le> 102 \<or> 48 \<le> n \<and> n \<le> 57) \<Longrightarrow> code_class n \<notin> {HS_DIGIT, HS_HEX}"
  unfolding code_class_def by (simp split: if_split)

lemma is_hex_cases:
  assumes "is_hex c"
  shows "cval c \<ge> cval CHR ''A'' \<and> cval c \<le> cval CHR ''F'' \<or> cval c \<ge> cval CHR ''a'' \<and> cval c \<le> cval CHR ''f'' \<or>
    cval c \<ge> cval CHR ''0'' \<and> cval c \<le> cval CHR ''9''"
proof -
  let ?n = "of_char c :: nat"
  have n: "65 \<le> ?n \<and> ?n \<le> 70 \<or> 97 \<le> ?n \<and> ?n \<le> 102 \<or> 48 \<le> ?n \<and> ?n \<le> 57"
    using assms code_class_not_hex [of ?n] unfolding is_hex_def char_class_def by blast
  then have "cval c = int ?n" by (auto simp: cval_nat)
  then show ?thesis
    using n by (auto simp: cval_nat [of "CHR ''A''"] cval_nat [of "CHR ''F''"] cval_nat [of "CHR ''a''"]
      cval_nat [of "CHR ''f''"] cval_nat [of "CHR ''0''"] cval_nat [of "CHR ''9''"])
qed

text \<open>What reading the digits of a size does to the parser.\<close>

definition size_acc :: "int \<Rightarrow> string \<Rightarrow> int" where
  "size_acc a w = foldl (\<lambda>a c. a * 16 + size_digit c) a w"

lemma size_acc_simps [simp]:
  "size_acc a [] = a" "size_acc a (c # w) = size_acc (a * 16 + size_digit c) w"
  "size_acc a (w @ [c]) = size_acc a w * 16 + size_digit c"
  by (simp_all add: size_acc_def)

lemma size_acc_hex_upper: "size_acc 0 (hex_upper n) = int n"
proof (induction n rule: hex_upper.induct)
  case (1 n)
  have "size_digit (hex_digits ! (n mod 16)) = int (n mod 16)" using hex_digit(1) [of "n mod 16"] by simp
  then show ?case
    using 1 by (subst hex_upper.simps) (auto simp: zdiv_int zmod_int)
qed

lemma hex_upper_hex: "list_all is_hex (hex_upper n)"
proof (induction n rule: hex_upper.induct)
  case (1 n)
  then show ?case
    using hex_digit(2) [of "n mod 16"] by (subst hex_upper.simps) auto
qed

lemma hex_upper_first: "0 < n \<Longrightarrow> \<exists>c w. hex_upper n = c # w \<and> c \<noteq> CHR ''0''"
proof (induction n rule: hex_upper.induct)
  case (1 n)
  show ?case
  proof (cases "n < 16")
    case True
    then show ?thesis
      using 1 hex_digit(3) [of n] by (subst hex_upper.simps) auto
  next
    case False
    then have "0 < n div 16" by (simp add: div_greater_zero_iff)
    with 1 False obtain c w where "hex_upper (n div 16) = c # w" "c \<noteq> CHR ''0''" by blast
    with False show ?thesis by (subst hex_upper.simps) auto
  qed
qed

lemma hex_upper_0: "hex_upper 0 = ''0''"
  by (simp add: hex_upper.simps hex_digits_def)

lemma size_digit_bounds: "is_hex c \<Longrightarrow> 0 \<le> size_digit c \<and> size_digit c < 16"
  using is_hex_cases [of c] by (auto simp: size_digit_def cval_nat split: if_splits)

lemma size_acc_mono: "0 \<le> a \<Longrightarrow> list_all is_hex w \<Longrightarrow> a \<le> size_acc a w"
proof (induction w arbitrary: a)
  case (Cons c w)
  then have "0 \<le> size_digit c" using size_digit_bounds by auto
  with Cons.prems Cons.IH [of "a * 16 + size_digit c"] show ?case by auto
qed simp

lemma transition_CS_eq:
  assumes "is_hex c" "p_meta ps \<in> {M_ZER, M_CSZ}" "0 \<le> p_content_length ps"
    "p_content_length ps * 16 + size_digit c < 2 ^ 63"
  shows "transition_CS c ps = Some (ps\<lparr>p_meta := if c = CHR ''0'' then p_meta ps else M_CSZ,
     p_content_length := p_content_length ps * 16 + size_digit c\<rparr>)"
proof -
  have s: "s64 (s64 (p_content_length ps * 16) + size_digit c) = p_content_length ps * 16 + size_digit c"
    using assms(3,4) size_digit_bounds [OF assms(1)] by (simp add: s64_id)
  have cv: "cval CHR ''A'' = 65" "cval CHR ''F'' = 70" "cval CHR ''a'' = 97" "cval CHR ''f'' = 102"
      "cval CHR ''0'' = 48" "cval CHR ''9'' = 57" by (simp_all add: cval_nat)
  define ps1 where "ps1 = ps\<lparr>p_meta := if c = CHR ''0'' then p_meta ps else M_CSZ\<rparr>"
  have m: "(if c \<noteq> CHR ''0'' then meta_trigger HS_META_NON_ZERO ps else Some ps) = Some ps1"
    using assms(2) by (auto simp: meta_trigger_def ps1_def)
  have "p_content_length ps1 = p_content_length ps" by (simp add: ps1_def)
  with s have s1: "s64 (s64 (p_content_length ps1 * 16) + size_digit c) = p_content_length ps * 16 + size_digit c"
    by simp
  consider "65 \<le> cval c" "cval c \<le> 70" | "97 \<le> cval c" "cval c \<le> 102" | "48 \<le> cval c" "cval c \<le> 57"
    using is_hex_cases [OF assms(1)] unfolding cv by blast
  then have "transition_CS c ps = Some (ps1\<lparr>p_content_length := s64 (s64 (p_content_length ps1 * 16) + size_digit c)\<rparr>)"
    unfolding transition_CS_def m size_digit_def cv by cases simp_all
  then show ?thesis unfolding s1 by (simp add: ps1_def)
qed

section \<open>Reading chunks\<close>

lemma token_loop_quiet:
  assumes st: "stream_ok st" "unread st = c # r" "st_token st = token0"
    and s: "next_state (p_state ps) (char_class c) = Some to" "to \<notin> {S_HN, S_BD}"
    and tr: "transition spec c (p_state ps) to (ps\<lparr>p_state := to\<rparr>) (st\<lparr>st_consumed := False\<rparr>) =
      Some (token0, ps', st\<lparr>st_consumed := False\<rparr>)"
  shows "token_loop spec pc (cl\<lparr>cl_parser := ps, cl_stream := st\<rparr>) =
    token_loop spec pc (cl\<lparr>cl_parser := ps', cl_stream := st_run st (Suc 0) token0\<rparr>)"
proof -
  have "stream_consume (st\<lparr>st_consumed := False\<rparr>) = st_run st (Suc 0) token0"
    using stream_consume_run [of "st\<lparr>st_consumed := False\<rparr>" c r] st by (simp add: token0_def)
  then show ?thesis
    using token_step_eq [OF s tr, where cl = cl and pc = pc] by (simp add: token_loop_Cons [OF st(1,2)])
qed

lemma is_hex_next: "is_hex c \<Longrightarrow> s \<in> {S_C2, S_CS} \<Longrightarrow> next_state s (char_class c) = Some S_CS"
  by (auto simp: is_hex_def)

lemma token_loop_size_digits:
  assumes "stream_ok st" "unread st = w @ r" "st_token st = token0" "list_all is_hex w"
    and "p_state ps = S_CS" "p_meta ps = M_CSZ" "0 \<le> p_content_length ps"
      "size_acc (p_content_length ps) w < 2 ^ 63"
  shows "token_loop spec pc (cl\<lparr>cl_parser := ps, cl_stream := st\<rparr>) =
    token_loop spec pc (cl\<lparr>cl_parser := ps\<lparr>p_content_length := size_acc (p_content_length ps) w\<rparr>,
      cl_stream := st_run st (length w) token0\<rparr>)"
  using assms
proof (induction w arbitrary: st ps)
  case Nil
  have "st_run st 0 token0 = st\<lparr>st_consumed := True\<rparr>" using Nil.prems(3) by (simp add: st_run_def)
  then show ?case by (simp add: token_loop_consumed)
next
  case (Cons c w)
  let ?n = "p_content_length ps * 16 + size_digit c"
  let ?ps = "ps\<lparr>p_content_length := ?n\<rparr>"
  have hex: "is_hex c" using Cons.prems(4) by simp
  have n: "0 \<le> ?n" "?n \<le> size_acc ?n w"
    using Cons.prems(4,7) size_digit_bounds [OF hex] size_acc_mono [of ?n w] by auto
  have same: "ps\<lparr>p_state := S_CS\<rparr> = ps" "ps\<lparr>p_meta := M_CSZ\<rparr> = ps" using Cons.prems(5,6) by simp_all
  have "transition_CS c (ps\<lparr>p_state := S_CS\<rparr>) = Some ?ps"
    using transition_CS_eq [OF hex, of ps] Cons.prems(6-8) n same by simp
  then have "transition spec c S_CS S_CS (ps\<lparr>p_state := S_CS\<rparr>) (st\<lparr>st_consumed := False\<rparr>) =
      Some (token0, ?ps, st\<lparr>st_consumed := False\<rparr>)"
    by (simp add: transition_defs)
  then have "token_loop spec pc (cl\<lparr>cl_parser := ps, cl_stream := st\<rparr>) =
      token_loop spec pc (cl\<lparr>cl_parser := ?ps, cl_stream := st_run st (Suc 0) token0\<rparr>)"
    using Cons.prems(2,5) is_hex_next [OF hex, of S_CS]
    by (intro token_loop_quiet [OF Cons.prems(1) _ Cons.prems(3), of c "w @ r" ps S_CS]) simp_all
  also have "\<dots> = token_loop spec pc (cl\<lparr>cl_parser := ?ps\<lparr>p_content_length := size_acc (p_content_length ?ps) w\<rparr>,
      cl_stream := st_run (st_run st (Suc 0) token0) (length w) token0\<rparr>)"
    using Cons.prems unread_st_run_Cons [of st c "w @ r"] n by (intro Cons.IH) simp_all
  finally show ?case by simp
qed

text \<open>The first digit of a size, behind the headers or behind a chunk.\<close>

definition st_anchored :: "parser \<Rightarrow> stream \<Rightarrow> stream" where
  "st_anchored ps st = (if p_state ps = S_HN then st\<lparr>st_anchor := st_index st\<rparr> else st)"

lemma st_anchored_simps [simp]:
  "st_index (st_anchored ps st) = st_index st" "st_token (st_anchored ps st) = st_token st"
  "st_buf (st_anchored ps st) = st_buf st" "st_length (st_anchored ps st) = st_length st"
  "unread (st_anchored ps st) = unread st" "stream_ok (st_anchored ps st) = stream_ok st"
  by (simp_all add: st_anchored_def unread_def stream_ok_def)

lemma token_loop_size_first:
  assumes st: "stream_ok st" "unread st = c # r" "st_token st = token0" "is_hex c"
    and ps: "p_state ps \<in> {S_HN, S_C2}" "p_meta ps = M_ZER" "p_content_length ps = 0"
  shows "token_loop spec pc (cl\<lparr>cl_parser := ps, cl_stream := st\<rparr>) =
    token_loop spec pc (cl\<lparr>cl_parser := ps\<lparr>p_state := S_CS, p_match_index := 0,
        p_meta := if c = CHR ''0'' then M_ZER else M_CSZ, p_content_length := size_digit c\<rparr>,
      cl_stream := st_run (st_anchored ps st) (Suc 0) token0\<rparr>)"
proof -
  let ?st = "st\<lparr>st_consumed := False\<rparr>"
  let ?ps = "ps\<lparr>p_state := S_CS, p_match_index := 0,
        p_meta := if c = CHR ''0'' then M_ZER else M_CSZ, p_content_length := size_digit c\<rparr>"
  have "transition_CS c (ps\<lparr>p_state := S_CS, p_match_index := 0\<rparr>) = Some ?ps"
    using transition_CS_eq [OF st(4), of "ps\<lparr>p_state := S_CS, p_match_index := 0\<rparr>"] ps(2,3)
      size_digit_bounds [OF st(4)] by simp
  then have tr: "transition spec c (p_state ps) S_CS (ps\<lparr>p_state := S_CS\<rparr>) ?st =
      Some (token0, ?ps, st_anchored ps ?st)"
    using ps(1) by (auto simp: transition_defs st_anchored_def stream_anchor_def)
  moreover have "\<exists>to. next_state (p_state ps) (char_class c) = Some to \<and>
      (if to = S_BD \<and> p_state ps = S_HN then S_CS else to) = S_CS \<and> to \<noteq> S_HN"
    using ps(1) is_hex_next [OF st(4), of S_C2] by auto
  ultimately have "token_step spec pc c (cl\<lparr>cl_parser := ps, cl_stream := ?st\<rparr>) =
      Some (Inr (), cl\<lparr>cl_parser := ?ps, cl_stream := stream_consume (st_anchored ps ?st)\<rparr>)"
    using ps(2) by (auto simp: token_step_def)
  moreover have "stream_consume (st_anchored ps ?st) = st_run (st_anchored ps st) (Suc 0) token0"
    using stream_consume_run [of "st_anchored ps ?st" c r] st
    by (auto simp: st_anchored_def token0_def st_run_def unread_def stream_ok_def)
  ultimately show ?thesis by (simp add: token_loop_Cons [OF st(1,2)])
qed

lemma token_loop_size_line:
  assumes st: "stream_ok st" "unread st = hex_upper n @ CR # LF # r" "st_token st = token0" "n < 2 ^ 31"
    and ps: "p_state ps \<in> {S_HN, S_C2}" "p_meta ps = M_ZER" "p_content_length ps = 0"
  shows "token_loop spec pc (cl\<lparr>cl_parser := ps, cl_stream := st\<rparr>) =
    token_loop spec pc (cl\<lparr>cl_parser := ps\<lparr>p_state := S_CN, p_match_index := 0,
        p_meta := if n = 0 then M_LST else M_CBD, p_content_length := int n\<rparr>,
      cl_stream := st_run (st_anchored ps st) (length (hex_upper n) + 2) token0\<rparr>)"
proof -
  obtain c w where w: "hex_upper n = c # w" "c = CHR ''0'' \<longleftrightarrow> n = 0" "n = 0 \<longrightarrow> w = []"
    using hex_upper_first [of n] hex_upper_0 by (cases "n = 0") auto
  have hex: "is_hex c" "list_all is_hex w" using hex_upper_hex [of n] w(1) by simp_all
  have acc: "size_acc (size_digit c) w = int n" using size_acc_hex_upper [of n] w(1) by simp
  let ?m = "if n = 0 then M_ZER else M_CSZ" and ?m' = "if n = 0 then M_LST else M_CBD"
  let ?ps1 = "ps\<lparr>p_state := S_CS, p_match_index := 0, p_meta := ?m, p_content_length := size_digit c\<rparr>"
  let ?ps2 = "?ps1\<lparr>p_content_length := int n\<rparr>"
  let ?ps3 = "?ps2\<lparr>p_state := S_CR, p_meta := ?m', p_match_index := 0\<rparr>"
  let ?st1 = "st_run (st_anchored ps st) (Suc 0) token0"
  let ?st2 = "st_run ?st1 (length w) token0"
  let ?st3 = "st_run ?st2 (Suc 0) token0"
  have st1: "stream_ok ?st1" "unread ?st1 = w @ CR # LF # r" "st_token ?st1 = token0"
    using unread_st_run_Cons [of "st_anchored ps st" c "w @ CR # LF # r"] st w by simp_all
  have st2: "stream_ok ?st2" "unread ?st2 = CR # LF # r" "st_token ?st2 = token0"
    using unread_st_run [OF st1(1,2)] by simp_all
  have st3: "stream_ok ?st3" "unread ?st3 = LF # r" "st_token ?st3 = token0"
    using unread_st_run_Cons [OF st2(1,2)] by simp_all
  have "token_loop spec pc (cl\<lparr>cl_parser := ps, cl_stream := st\<rparr>) =
      token_loop spec pc (cl\<lparr>cl_parser := ?ps1, cl_stream := ?st1\<rparr>)"
    using token_loop_size_first [OF st(1) _ st(3) hex(1) ps, where spec = spec and pc = pc and cl = cl] st(2) w
    by (simp split del: if_split)
  also have "\<dots> = token_loop spec pc (cl\<lparr>cl_parser := ?ps2, cl_stream := ?st2\<rparr>)"
  proof (cases "n = 0")
    case True
    then have "w = []" "size_digit c = 0" using w acc by auto
    with True show ?thesis by simp
  next
    case False
    have "token_loop spec pc (cl\<lparr>cl_parser := ?ps1, cl_stream := ?st1\<rparr>) =
      token_loop spec pc (cl\<lparr>cl_parser := ?ps1\<lparr>p_content_length := size_acc (p_content_length ?ps1) w\<rparr>, cl_stream := ?st2\<rparr>)"
      using False acc size_digit_bounds [OF hex(1)] st(4) by (intro token_loop_size_digits [OF st1 hex(2)]) simp_all
    then show ?thesis using acc by simp
  qed
  also have "\<dots> = token_loop spec pc (cl\<lparr>cl_parser := ?ps3, cl_stream := ?st3\<rparr>)"
    by (rule token_loop_quiet [OF st2, where to = S_CR]) (auto simp: transition_defs meta_trigger_def)
  also have "\<dots> = token_loop spec pc (cl\<lparr>cl_parser := ?ps3\<lparr>p_state := S_CN, p_match_index := 0\<rparr>,
      cl_stream := st_run ?st3 (Suc 0) token0\<rparr>)"
    by (rule token_loop_quiet [OF st3, where to = S_CN]) (auto simp: transition_defs)
  also have "?ps3\<lparr>p_state := S_CN, p_match_index := 0\<rparr> =
      ps\<lparr>p_state := S_CN, p_match_index := 0, p_meta := ?m', p_content_length := int n\<rparr>" by simp
  also have "st_run ?st3 (Suc 0) token0 = st_run (st_anchored ps st) (length (hex_upper n) + 2) token0"
    using w(1) by simp
  finally show ?thesis .
qed

lemma token_loop_chunk_data:
  assumes st: "stream_ok st" "unread st = d @ r" "d @ r \<noteq> []" "st_token st = token0"
    and ps: "p_state ps = S_CN" "p_meta ps \<in> {M_CBD, M_LST}" "p_content_length ps = int (length d)"
      "p_body_consumed ps = 0"
  shows "token_loop spec pc (cl\<lparr>cl_parser := ps, cl_stream := st\<rparr>) =
    Some (Some (tok_at (st_index st) d HS_TOK_CHUNK_BODY),
      cl\<lparr>cl_parser := ps\<lparr>p_state := S_CD, p_match_index := 0, p_content_length := 0, p_body_consumed := 0\<rparr>,
         cl_stream := st_run st (length d) token0\<rparr>)"
proof -
  obtain c cs where b: "d @ r = c # cs" using st(3) by (cases "d @ r") auto
  have ix: "0 \<le> st_index st" "st_index st + int (length d) \<le> st_length st" "st_length st < 2 ^ 31"
    using st(1) unread_length [OF st(1)] st(2) by (auto simp: stream_ok_def)
  then have s32: "s32 (st_index st) = st_index st" "s32 (int (length d)) = int (length d)"
    by (simp_all add: s32_id)
  have m: "next_meta (p_meta ps) HS_META_NEXT = Some (p_meta ps)" using ps(2) by auto
  have "p_meta ps \<noteq> M_STR" using ps(2) by auto
  then have "transition spec c S_CN S_CB (ps\<lparr>p_state := S_CB\<rparr>) (st\<lparr>st_consumed := False\<rparr>) =
      Some (tok_at (st_index st) d HS_TOK_CHUNK_BODY,
        ps\<lparr>p_state := S_CD, p_match_index := 0, p_content_length := 0, p_body_consumed := 0\<rparr>,
        st_run st (length d) token0)"
    using ps ix s32 st(4) m
    by (simp add: transition_defs transition_body_def stream_jump_def meta_trigger_def
        tok_at_def st_run_def token0_def)
  then show ?thesis
    using ps(1) st(2) b
    by (simp add: token_loop_Cons [OF st(1), of c cs] token_step_def stream_consume_def st_run_def tok_at_def)
qed

lemma token_loop_chunk_end:
  assumes st: "stream_ok st" "unread st = CR # LF # r" "st_token st = token0"
    and ps: "p_state ps = S_CD" "p_meta ps \<in> {M_CBD, M_LST}"
  shows "token_loop spec pc (cl\<lparr>cl_parser := ps, cl_stream := st\<rparr>) =
    token_loop spec pc (cl\<lparr>cl_parser := ps\<lparr>p_state := S_C2, p_match_index := 0,
        p_meta := if p_meta ps = M_CBD then M_ZER else M_END\<rparr>, cl_stream := st_run st 2 token0\<rparr>)"
proof -
  let ?st1 = "st_run st (Suc 0) token0"
  let ?ps1 = "ps\<lparr>p_state := S_C1, p_match_index := 0\<rparr>"
  have st1: "stream_ok ?st1" "unread ?st1 = LF # r" "st_token ?st1 = token0"
    using unread_st_run_Cons [OF st(1,2)] by simp_all
  have "token_loop spec pc (cl\<lparr>cl_parser := ps, cl_stream := st\<rparr>) =
      token_loop spec pc (cl\<lparr>cl_parser := ?ps1, cl_stream := ?st1\<rparr>)"
    by (rule token_loop_quiet [OF st, where to = S_C1]) (use ps in \<open>auto simp: transition_defs\<close>)
  also have "\<dots> = token_loop spec pc (cl\<lparr>cl_parser := ?ps1\<lparr>p_state := S_C2, p_match_index := 0,
        p_meta := if p_meta ps = M_CBD then M_ZER else M_END\<rparr>, cl_stream := st_run ?st1 (Suc 0) token0\<rparr>)"
    by (rule token_loop_quiet [OF st1, where to = S_C2]) (use ps in \<open>auto simp: transition_defs meta_trigger_def\<close>)
  finally show ?thesis by (simp add: numeral_2_eq_2)
qed

section \<open>Whole chunked bodies\<close>

definition chunk_bytes :: "string \<Rightarrow> string" where
  "chunk_bytes d = hex_upper (length d) @ CRLF @ d @ CRLF"

definition chunk_tail :: "string list \<Rightarrow> string" where
  "chunk_tail ds = concat (map chunk_bytes ds) @ ''0'' @ CRLF @ CRLF"

lemma chunk_tail_split:
  "\<exists>d r. chunk_tail ds = hex_upper (length d) @ CRLF @ d @ CRLF @ r \<and>
     (case ds of [] \<Rightarrow> d = [] \<and> r = [] | d' # ds' \<Rightarrow> d = d' \<and> r = chunk_tail ds')"
  by (cases ds) (auto simp: chunk_tail_def chunk_bytes_def hex_upper_0)

text \<open>One chunk: behind the headers, or from behind the data of the chunk before.\<close>

lemma token_parse_chunk_start:
  assumes st: "stream_ok st" "unread st = hex_upper (length d) @ CRLF @ d @ CRLF @ r" "st_token st = token0"
    and ps: "p_state ps \<in> {S_HN, S_C2}" "p_meta ps = M_ZER" "p_content_length ps = 0" "p_body_consumed ps = 0"
  shows "token_loop spec pc (cl\<lparr>cl_parser := ps, cl_stream := st\<rparr>) =
    Some (Some (tok_at (st_index st + int (length (hex_upper (length d))) + 2) d HS_TOK_CHUNK_BODY),
      cl\<lparr>cl_parser := ps\<lparr>p_state := S_CD, p_match_index := 0, p_meta := if d = [] then M_LST else M_CBD,
           p_content_length := 0, p_body_consumed := 0\<rparr>,
         cl_stream := st_run (st_anchored ps st) (length (hex_upper (length d)) + 2 + length d) token0\<rparr>)"
proof -
  let ?h = "hex_upper (length d)"
  let ?st1 = "st_run (st_anchored ps st) (length ?h + 2) token0"
  let ?ps1 = "ps\<lparr>p_state := S_CN, p_match_index := 0, p_meta := if d = [] then M_LST else M_CBD,
      p_content_length := int (length d)\<rparr>"
  have "int (length d) \<le> st_length st" "st_length st < 2 ^ 31"
    using unread_length [OF st(1)] st(1,2) by (auto simp: stream_ok_def)
  then have n: "length d < 2 ^ 31" by simp
  have u: "unread st = ?h @ CR # LF # d @ CRLF @ r" using st(2) by simp
  have st1: "stream_ok ?st1" "unread ?st1 = d @ CRLF @ r"
    using unread_st_run [of "st_anchored ps st" "?h @ CRLF" "d @ CRLF @ r" token0] st by simp_all
  have "token_loop spec pc (cl\<lparr>cl_parser := ps, cl_stream := st\<rparr>) =
      token_loop spec pc (cl\<lparr>cl_parser := ?ps1, cl_stream := ?st1\<rparr>)"
    using token_loop_size_line [OF st(1) u st(3) n ps(1-3), where spec = spec and pc = pc and cl = cl]
    unfolding length_0_conv .
  also have "\<dots> = Some (Some (tok_at (st_index ?st1) d HS_TOK_CHUNK_BODY),
      cl\<lparr>cl_parser := ?ps1\<lparr>p_state := S_CD, p_match_index := 0, p_content_length := 0, p_body_consumed := 0\<rparr>,
         cl_stream := st_run ?st1 (length d) token0\<rparr>)"
    using st1 ps(4) by (intro token_loop_chunk_data) auto
  also have "st_index ?st1 = st_index st + int (length ?h) + 2" by simp
  finally show ?thesis by simp
qed

definition chunk_ready :: "parser \<Rightarrow> stream \<Rightarrow> string \<Rightarrow> bool" where
  "chunk_ready ps st data \<longleftrightarrow> stream_ok st \<and> st_token st = token0 \<and>
     p_content_length ps = 0 \<and> p_body_consumed ps = 0 \<and>
     (p_state ps \<in> {S_HN, S_C2} \<and> p_meta ps = M_ZER \<and> unread st = data \<or>
      p_state ps = S_CD \<and> p_meta ps = M_CBD \<and> unread st = CRLF @ data)"

definition chunk_done :: "parser \<Rightarrow> stream \<Rightarrow> bool" where
  "chunk_done ps st \<longleftrightarrow> stream_ok st \<and> st_token st = token0 \<and> p_state ps = S_CD \<and> p_meta ps = M_LST \<and>
     unread st = CRLF"

lemma token_parse_chunk_first:
  assumes st: "stream_ok st" "unread st = hex_upper (length d) @ CRLF @ d @ CRLF @ r" "st_token st = token0"
    and ps: "p_state ps \<in> {S_HN, S_C2}" "p_meta ps = M_ZER" "p_content_length ps = 0" "p_body_consumed ps = 0"
  shows "\<exists>tok ps' st'. token_loop spec pc (cl\<lparr>cl_parser := ps, cl_stream := st\<rparr>) =
      Some (Some tok, cl\<lparr>cl_parser := ps', cl_stream := st'\<rparr>) \<and>
    token_text st tok = (HS_TOK_CHUNK_BODY, d) \<and> st_buf st' = st_buf st \<and>
    (d \<noteq> [] \<longrightarrow> chunk_ready ps' st' r) \<and> (d = [] \<and> r = [] \<longrightarrow> chunk_done ps' st')"
proof -
  let ?h = "hex_upper (length d)"
  let ?st = "st_run (st_anchored ps st) (length ?h + 2 + length d) token0"
  have "token_text st (tok_at (st_index st + int (length ?h) + 2) d HS_TOK_CHUNK_BODY) = (HS_TOK_CHUNK_BODY, d)"
    using st by (intro token_text_at [of _ "?h @ CRLF" _ "CRLF @ r"]) auto
  moreover have "stream_ok ?st" "unread ?st = CRLF @ r"
    using unread_st_run [of "st_anchored ps st" "?h @ CRLF @ d" "CRLF @ r" token0] st by simp_all
  moreover from calculation have
    "d \<noteq> [] \<longrightarrow> chunk_ready (ps\<lparr>p_state := S_CD, p_match_index := 0, p_meta := if d = [] then M_LST else M_CBD,
       p_content_length := 0, p_body_consumed := 0\<rparr>) ?st r"
    "d = [] \<and> r = [] \<longrightarrow> chunk_done (ps\<lparr>p_state := S_CD, p_match_index := 0, p_meta := if d = [] then M_LST else M_CBD,
       p_content_length := 0, p_body_consumed := 0\<rparr>) ?st"
    by (auto simp: chunk_ready_def chunk_done_def)
  moreover have "st_buf ?st = st_buf st" by simp
  ultimately show ?thesis
    using token_parse_chunk_start [OF assms, where spec = spec and pc = pc and cl = cl] by blast
qed

lemma token_parse_chunk:
  assumes ready: "chunk_ready ps st (hex_upper (length d) @ CRLF @ d @ CRLF @ r)"
  shows "\<exists>tok ps' st'. token_parse spec pc (cl\<lparr>cl_parser := ps, cl_stream := st\<rparr>) =
      Some (tok, cl\<lparr>cl_parser := ps', cl_stream := st'\<rparr>) \<and>
    token_text st tok = (HS_TOK_CHUNK_BODY, d) \<and> st_buf st' = st_buf st \<and>
    (d \<noteq> [] \<longrightarrow> chunk_ready ps' st' r) \<and> (d = [] \<and> r = [] \<longrightarrow> chunk_done ps' st')"
proof (cases "p_state ps = S_CD")
  case False
  then have ps: "p_state ps \<in> {S_HN, S_C2}" "p_meta ps = M_ZER" "p_content_length ps = 0" "p_body_consumed ps = 0"
    and st: "stream_ok st" "unread st = hex_upper (length d) @ CRLF @ d @ CRLF @ r" "st_token st = token0"
    using ready by (auto simp: chunk_ready_def)
  have "p_meta ps \<notin> {M_SEN, M_END}" using ps(2) by simp
  then show ?thesis
    using token_parse_chunk_first [OF st ps, of spec pc cl] token_parse_returns [where ps = ps and spec = spec and pc = pc and cl = cl and st = st] by blast
next
  case True
  let ?data = "hex_upper (length d) @ CRLF @ d @ CRLF @ r"
  let ?ps1 = "ps\<lparr>p_state := S_C2, p_match_index := 0, p_meta := M_ZER\<rparr>"
  let ?st1 = "st_run st 2 token0"
  have ps: "p_state ps = S_CD" "p_meta ps = M_CBD" "p_content_length ps = 0" "p_body_consumed ps = 0"
    and st: "stream_ok st" "unread st = CR # LF # ?data" "st_token st = token0"
    using ready True by (auto simp: chunk_ready_def)
  have st1: "stream_ok ?st1" "unread ?st1 = ?data" "st_token ?st1 = token0"
    using unread_st_run [of st CRLF ?data token0] st by (simp_all add: numeral_2_eq_2)
  have eq: "token_loop spec pc (cl\<lparr>cl_parser := ps, cl_stream := st\<rparr>) =
      token_loop spec pc (cl\<lparr>cl_parser := ?ps1, cl_stream := ?st1\<rparr>)"
    using token_loop_chunk_end [OF st ps(1), where spec = spec and pc = pc and cl = cl] ps(2) by simp
  obtain tok ps' st' where "token_loop spec pc (cl\<lparr>cl_parser := ?ps1, cl_stream := ?st1\<rparr>) =
      Some (Some tok, cl\<lparr>cl_parser := ps', cl_stream := st'\<rparr>)"
    and res: "token_text ?st1 tok = (HS_TOK_CHUNK_BODY, d)" "st_buf st' = st_buf ?st1"
      "(d \<noteq> [] \<longrightarrow> chunk_ready ps' st' r) \<and> (d = [] \<and> r = [] \<longrightarrow> chunk_done ps' st')"
    using token_parse_chunk_first [OF st1, of ?ps1 spec pc cl] ps by auto
  then have "token_parse spec pc (cl\<lparr>cl_parser := ps, cl_stream := st\<rparr>) =
      Some (tok, cl\<lparr>cl_parser := ps', cl_stream := st'\<rparr>)"
    using eq ps(2) by (intro token_parse_returns) auto
  moreover have "token_text st tok = (HS_TOK_CHUNK_BODY, d)" "st_buf st' = st_buf st"
    using res token_text_run [of st ?st1 tok] by simp_all
  ultimately show ?thesis using res(3) by blast
qed

lemma token_parse_chunks_end:
  assumes "chunk_done ps st" and "0 \<le> sp_request_token_max_len spec"
  shows "\<exists>st'. token_parse spec pc (cl\<lparr>cl_parser := ps, cl_stream := st\<rparr>) =
    Some (token0\<lparr>tk_type := HS_TOK_REQ_END\<rparr>, cl\<lparr>cl_parser := parser0, cl_stream := st'\<rparr>)"
proof -
  let ?ps1 = "ps\<lparr>p_state := S_C2, p_match_index := 0, p_meta := M_END\<rparr>" and ?st1 = "st_run st 2 token0"
  have ps: "p_state ps = S_CD" "p_meta ps = M_LST"
    and st: "stream_ok st" "unread st = CR # LF # []" "st_token st = token0"
    using assms(1) by (auto simp: chunk_done_def)
  have st1: "stream_ok ?st1" "unread ?st1 = []"
    using unread_st_run [of st CRLF "[]" token0] st by (simp_all add: numeral_2_eq_2)
  have "token_loop spec pc (cl\<lparr>cl_parser := ps, cl_stream := st\<rparr>) =
      Some (None, cl\<lparr>cl_parser := ?ps1, cl_stream := ?st1\<lparr>st_consumed := False\<rparr>\<rparr>)"
    using token_loop_chunk_end [OF st ps(1), where spec = spec and pc = pc and cl = cl] ps(2)
      token_loop_Nil [OF st1] by simp
  then show ?thesis
    using ps(2) assms(2)
    by (intro exI [of _ "?st1\<lparr>st_consumed := False\<rparr>"])
      (simp add: token_parse_def token_parse_end_def meta_emit_token_def cl_update_order Let_def)
qed

lemma token_parses_Suc:
  assumes "token_parse spec pc cl = Some (a, cl1)" and "token_parses spec pc n cl1 = Some (as, cl2)"
  shows "token_parses spec pc (Suc n) cl = Some (a # as, cl2)"
  using assms by simp

lemma token_parses_chunks:
  assumes "chunk_ready ps st (chunk_tail ds)" and "list_all (\<lambda>d. d \<noteq> []) ds"
  shows "\<exists>toks ps' st'. token_parses spec pc (length ds + 1) (cl\<lparr>cl_parser := ps, cl_stream := st\<rparr>) =
      Some (toks, cl\<lparr>cl_parser := ps', cl_stream := st'\<rparr>) \<and>
    map (token_text st) toks = map (Pair HS_TOK_CHUNK_BODY) (ds @ [[]]) \<and> chunk_done ps' st'"
  using assms
proof (induction ds arbitrary: ps st)
  case Nil
  then have "chunk_ready ps st (hex_upper (length []) @ CRLF @ [] @ CRLF @ [])"
    by (simp add: chunk_tail_def hex_upper_0)
  from token_parse_chunk [OF this, of spec pc cl] obtain tok ps' st' where
      "token_parse spec pc (cl\<lparr>cl_parser := ps, cl_stream := st\<rparr>) = Some (tok, cl\<lparr>cl_parser := ps', cl_stream := st'\<rparr>)"
      "token_text st tok = (HS_TOK_CHUNK_BODY, [])" "chunk_done ps' st'" by blast
  then show ?case by (intro exI [of _ "[tok]"] exI [of _ ps'] exI [of _ st']) simp
next
  case (Cons d ds)
  then have "chunk_ready ps st (hex_upper (length d) @ CRLF @ d @ CRLF @ chunk_tail ds)" "d \<noteq> []"
    by (simp_all add: chunk_tail_def chunk_bytes_def)
  then obtain tok ps1 st1 where 1: "token_parse spec pc (cl\<lparr>cl_parser := ps, cl_stream := st\<rparr>) =
      Some (tok, cl\<lparr>cl_parser := ps1, cl_stream := st1\<rparr>)" "token_text st tok = (HS_TOK_CHUNK_BODY, d)"
      "st_buf st1 = st_buf st" "chunk_ready ps1 st1 (chunk_tail ds)"
    using token_parse_chunk [of ps st d "chunk_tail ds" spec pc cl] by blast
  obtain toks ps' st' where 2: "token_parses spec pc (length ds + 1) (cl\<lparr>cl_parser := ps1, cl_stream := st1\<rparr>) =
      Some (toks, cl\<lparr>cl_parser := ps', cl_stream := st'\<rparr>)"
      "map (token_text st1) toks = map (Pair HS_TOK_CHUNK_BODY) (ds @ [[]])" "chunk_done ps' st'"
    using Cons.IH [OF 1(4)] Cons.prems(2) by auto
  have "token_text st1 = token_text st" using 1(3) by (auto simp: token_text_def)
  with 1 2 token_parses_Suc [OF 1(1) 2(1)] show ?case
    by (intro exI [of _ "tok # toks"] exI [of _ ps'] exI [of _ st']) (simp del: token_parses.simps)
qed

text \<open>
  C2: A chunked body is read back chunk by chunk. If the unread input behind the headers of a
  chunked request is a sequence of non-empty chunks in the format a sender writes (the size in
  upper-case hexadecimal, the data, both ended by CRLF) and the closing empty chunk, the parser
  returns the data of every chunk in order, the empty chunk and the end of the request, and is
  reset for the next request.
\<close>

theorem chunked_body_roundtrip:
  assumes "stream_ok st" "unread st = chunk_tail ds" "st_token st = token0" "list_all (\<lambda>d. d \<noteq> []) ds"
    and "p_state ps = S_HN" "p_meta ps = M_ZER" "p_content_length ps = 0" "p_body_consumed ps = 0"
    and "0 \<le> sp_request_token_max_len spec"
  shows "\<exists>toks cl'. token_parses spec pc (length ds + 2) (cl\<lparr>cl_parser := ps, cl_stream := st\<rparr>) = Some (toks, cl') \<and>
    map (token_text st) toks = map (Pair HS_TOK_CHUNK_BODY) (ds @ [[]]) @ [(HS_TOK_REQ_END, [])] \<and>
    cl_parser cl' = parser0"
proof -
  have "chunk_ready ps st (chunk_tail ds)" using assms by (simp add: chunk_ready_def)
  then obtain toks ps' st' where 1: "token_parses spec pc (length ds + 1) (cl\<lparr>cl_parser := ps, cl_stream := st\<rparr>) =
      Some (toks, cl\<lparr>cl_parser := ps', cl_stream := st'\<rparr>)"
      "map (token_text st) toks = map (Pair HS_TOK_CHUNK_BODY) (ds @ [[]])" "chunk_done ps' st'"
    using token_parses_chunks [OF _ assms(4)] by blast
  obtain st'' where "token_parse spec pc (cl\<lparr>cl_parser := ps', cl_stream := st'\<rparr>) =
      Some (token0\<lparr>tk_type := HS_TOK_REQ_END\<rparr>, cl\<lparr>cl_parser := parser0, cl_stream := st''\<rparr>)"
    using token_parse_chunks_end [OF 1(3) assms(9)] by blast
  then have "token_parses spec pc 1 (cl\<lparr>cl_parser := ps', cl_stream := st'\<rparr>) =
      Some ([token0\<lparr>tk_type := HS_TOK_REQ_END\<rparr>], cl\<lparr>cl_parser := parser0, cl_stream := st''\<rparr>)" by simp
  from token_parses_append [OF 1(1) this] 1(2) show ?thesis
    by (auto simp: token_text_def)
qed

theorem chunked_body_roundtrip_witness:
  "\<exists>toks cl'. token_parses default_spec no_proxy 4
      \<lparr>cl_parser = parser0\<lparr>p_state := S_HN, p_meta := M_ZER\<rparr>,
       cl_stream = fresh_stream (chunk_tail [''hello, chunked body!'', ''xyz''])\<rparr> = Some (toks, cl') \<and>
    map (token_text (fresh_stream (chunk_tail [''hello, chunked body!'', ''xyz'']))) toks =
      [(HS_TOK_CHUNK_BODY, ''hello, chunked body!''), (HS_TOK_CHUNK_BODY, ''xyz''),
       (HS_TOK_CHUNK_BODY, []), (HS_TOK_REQ_END, [])] \<and>
    cl_parser cl' = parser0"
proof -
  let ?ds = "[''hello, chunked body!'', ''xyz'']"
  let ?ps = "parser0\<lparr>p_state := S_HN, p_meta := M_ZER\<rparr>" and ?st = "fresh_stream (chunk_tail ?ds)"
  have "length (chunk_tail ?ds) < 100" by (simp add: chunk_tail_def chunk_bytes_def hex_upper.simps)
  then have "stream_ok ?st" by (simp add: fresh_stream_facts)
  moreover have "length ?ds + 2 = 4" "sp_request_token_max_len default_spec = 8191"
    by (simp_all add: default_spec_def spec_defaults_def)
  ultimately show ?thesis
    using chunked_body_roundtrip [of ?st ?ds ?ps default_spec no_proxy "\<lparr>cl_parser = ?ps, cl_stream = ?st\<rparr>"]
    by (simp add: fresh_stream_facts parser0_def del: list.size)
qed

section \<open>Where chunked bodies go wrong\<close>



text \<open>
  C7: The parser does not stop at the end of a chunked body. If bytes of a next request are already
  in the buffer and look like another empty chunk, the second automaton enters \<open>M_ERR\<close>, which has
  no row in \<open>_meta_transitions\<close>, and the next lookup reads behind the table.
\<close>

theorem after_last_chunk_out_of_bounds:
  assumes st: "stream_ok st" "unread st = CRLF @ ''0'' @ CRLF @ c # r" "st_token st = token0"
    and ps: "p_state ps = S_CD" "p_meta ps = M_LST" "p_content_length ps = 0" "p_body_consumed ps = 0"
  shows "token_parse spec pc (cl\<lparr>cl_parser := ps, cl_stream := st\<rparr>) = None"
proof -
  have u: "unread st = CR # LF # CHR ''0'' # CR # LF # c # r" using st(2) by simp
  let ?st = "\<lambda>n. st_run st n token0"
  have st2: "stream_ok (?st 2)" "unread (?st 2) = CHR ''0'' # CR # LF # c # r" "st_token (?st 2) = token0"
    using unread_st_run [of st CRLF "CHR ''0'' # CR # LF # c # r" token0] u st(1) by (simp_all add: numeral_2_eq_2)
  have st3: "stream_ok (?st 3)" "unread (?st 3) = CR # LF # c # r" "st_token (?st 3) = token0"
    using unread_st_run_Cons [OF st2(1,2), of token0] by (simp_all add: numeral_3_eq_3 numeral_2_eq_2)
  have st4: "stream_ok (?st 4)" "unread (?st 4) = LF # c # r" "st_token (?st 4) = token0"
    using unread_st_run_Cons [OF st3(1,2), of token0] by (simp_all add: numeral_eq_Suc)
  have st5: "stream_ok (?st 5)" "unread (?st 5) = c # r"
    using unread_st_run_Cons [OF st4(1,2), of token0] by (simp_all add: numeral_eq_Suc)
  let ?ps2 = "ps\<lparr>p_state := S_C2, p_match_index := 0, p_meta := M_END\<rparr>"
  let ?ps3 = "?ps2\<lparr>p_state := S_CS, p_match_index := 0\<rparr>"
  let ?ps4 = "?ps3\<lparr>p_state := S_CR, p_meta := M_ERR, p_match_index := 0\<rparr>"
  let ?ps5 = "?ps4\<lparr>p_state := S_CN, p_match_index := 0\<rparr>"
  let ?loop = "\<lambda>ps st. token_loop spec pc (cl\<lparr>cl_parser := ps, cl_stream := st\<rparr>)"
  have digit: "char_class CHR ''0'' = HS_DIGIT" by (simp add: char_class_def code_class_def)
  have zero: "transition_CS CHR ''0'' ?ps3 = Some ?ps3"
    using ps(3) by (simp add: transition_CS_def cval_nat s64_def)
  have run: "st_run (?st 2) (Suc 0) token0 = ?st 3" "st_run (?st 3) (Suc 0) token0 = ?st 4"
      "st_run (?st 4) (Suc 0) token0 = ?st 5"
    by (simp_all add: numeral_eq_Suc)
  have "?loop ps st = ?loop ?ps2 (?st 2)"
    using token_loop_chunk_end [OF st(1) u st(3) ps(1), where spec = spec and pc = pc and cl = cl] ps(2) by simp
  also have "\<dots> = ?loop ?ps3 (?st 3)"
    unfolding run(1) [symmetric]
    by (rule token_loop_quiet [OF st2, where to = S_CS]) (use zero digit in \<open>simp_all add: transition_defs\<close>)
  also have "\<dots> = ?loop ?ps4 (?st 4)"
    unfolding run(2) [symmetric]
    by (rule token_loop_quiet [OF st3, where to = S_CR]) (simp_all add: transition_defs meta_trigger_def)
  also have "\<dots> = ?loop ?ps5 (?st 5)"
    unfolding run(3) [symmetric]
    by (rule token_loop_quiet [OF st4, where to = S_CN]) (simp_all add: transition_defs)
  also have "\<dots> = None"
    using ps(3,4) unread_length [OF st5(1)] st5
    by (simp add: token_loop_Cons [OF st5] token_step_def transition_defs transition_body_def stream_jump_def
        meta_trigger_def next_meta_ERR s32_def)
  finally show ?thesis
    using ps(2) by (simp add: token_parse_def meta_emit_token_def cl_update_order)
qed

theorem after_last_chunk_out_of_bounds_witness:
  "token_parse default_spec no_proxy
     \<lparr>cl_parser = parser0\<lparr>p_state := S_CD, p_meta := M_LST\<rparr>,
      cl_stream = fresh_stream (CRLF @ ''0'' @ CRLF @ ''GET'')\<rparr> = None"
  using after_last_chunk_out_of_bounds [of "fresh_stream (CRLF @ ''0'' @ CRLF @ ''GET'')" "CHR ''G''" "''ET''"
      "parser0\<lparr>p_state := S_CD, p_meta := M_LST\<rparr>" default_spec no_proxy
      "\<lparr>cl_parser = parser0\<lparr>p_state := S_CD, p_meta := M_LST\<rparr>,
        cl_stream = fresh_stream (CRLF @ ''0'' @ CRLF @ ''GET'')\<rparr>"]
  by (simp add: fresh_stream_facts parser0_def)

end
