(* ===== verification/Ws_Frame.thy ===== *)
theory Ws_Frame
  imports Iwn_Prelude
begin

text \<open>
  WebSocket frames: \<open>src/src/wslay/wslay_frame.c\<close> with the types of \<open>wslay_frame.h\<close> and \<open>wslay.h\<close>.

  Bytes are \<open>8 word\<close>; a pointer into a buffer is the buffer with an offset. The callbacks a context
  is created with are arguments; they work on a state of any type \<open>'n\<close>, the world outside.
\<close>

unbundle bit_operations_syntax

section \<open>Types\<close>

abbreviation WSLAY_ERR_WANT_READ :: int where "WSLAY_ERR_WANT_READ \<equiv> -100"
abbreviation WSLAY_ERR_WANT_WRITE :: int where "WSLAY_ERR_WANT_WRITE \<equiv> -101"
abbreviation WSLAY_ERR_PROTO :: int where "WSLAY_ERR_PROTO \<equiv> -200"
abbreviation WSLAY_ERR_INVALID_ARGUMENT :: int where "WSLAY_ERR_INVALID_ARGUMENT \<equiv> -300"
abbreviation WSLAY_ERR_INVALID_CALLBACK :: int where "WSLAY_ERR_INVALID_CALLBACK \<equiv> -301"

definition wslay_is_ctrl_frame :: "byte \<Rightarrow> bool" where
  "wslay_is_ctrl_frame opcode \<longleftrightarrow> drop_bit 3 opcode AND 1 \<noteq> 0"

datatype wslay_frame_state =
  PREP_HEADER | PREP_HEADER_NOBUF | SEND_PAYLOAD | RECV_HEADER1 | RECV_PAYLOADLEN | RECV_EXT_PAYLOADLEN
| RECV_MASKKEY | RECV_PAYLOAD

record wslay_frame_iocb =
  io_fin :: byte
  io_rsv :: byte
  io_opcode :: byte
  io_payload_length :: nat
  io_mask :: byte
  io_buf :: "byte list"
  io_data :: int
  io_data_length :: nat

record wslay_frame_context =
  fc_ibuf :: "byte list"
  fc_ibufmark :: nat
  fc_ibuflimit :: nat
  fc_iom_fin :: byte
  fc_iom_opcode :: byte
  fc_iom_rsv :: byte
  fc_ipayloadlen :: nat
  fc_ipayloadoff :: nat
  fc_imask :: byte
  fc_imaskkey :: "byte list"
  fc_istate :: wslay_frame_state
  fc_ireqread :: nat
  fc_opayloadlen :: nat
  fc_opayloadoff :: nat
  fc_opayloadmaskoff :: nat
  fc_hdrtow :: nat
  fc_omask :: byte
  fc_omaskkey :: "byte list"
  fc_ostate :: wslay_frame_state

text \<open>
  The callbacks: \<open>send\<close> returns how many bytes it took, \<open>recv\<close> the number of bytes it stored with
  these bytes, \<open>genmask\<close> a status and the key. A callback that does not return is \<open>None\<close>.
\<close>

record 'n wslay_frame_callbacks =
  cb_send :: "'n \<Rightarrow> byte list \<Rightarrow> (int \<times> 'n) option"
  cb_recv :: "'n \<Rightarrow> nat \<Rightarrow> (int \<times> byte list \<times> 'n) option"
  cb_genmask :: "'n \<Rightarrow> nat \<Rightarrow> (int \<times> byte list \<times> 'n) option"

definition wslay_frame_context_init :: wslay_frame_context where
  "wslay_frame_context_init =
     \<lparr>fc_ibuf = replicate 4096 0, fc_ibufmark = 0, fc_ibuflimit = 0, fc_iom_fin = 0, fc_iom_opcode = 0,
      fc_iom_rsv = 0, fc_ipayloadlen = 0, fc_ipayloadoff = 0, fc_imask = 0, fc_imaskkey = replicate 4 0,
      fc_istate = RECV_HEADER1, fc_ireqread = 2, fc_opayloadlen = 0, fc_opayloadoff = 0,
      fc_opayloadmaskoff = 0, fc_hdrtow = 0, fc_omask = 0, fc_omaskkey = replicate 4 0, fc_ostate = PREP_HEADER\<rparr>"

section \<open>Sending\<close>

definition wr_block :: "'a list \<Rightarrow> int \<Rightarrow> 'a list \<Rightarrow> 'a list option" where
  "wr_block buf off bs =
     (if 0 \<le> off \<and> nat off + length bs \<le> length buf
      then Some (take (nat off) buf @ bs @ drop (nat off + length bs) buf) else None)"

text \<open>The first two bytes of the header with the extended length; \<open>None\<close> for a length out of range.\<close>

definition header_start :: "wslay_frame_iocb \<Rightarrow> byte list option" where
  "header_start iocb =
     (let b0 = (push_bit 7 (io_fin iocb) AND 0x80) OR (push_bit 4 (io_rsv iocb) AND 0x70) OR (io_opcode iocb AND 0xf);
          b1 = push_bit 7 (io_mask iocb) AND 0x80;
          n = io_payload_length iocb
      in if n < 126 then Some [b0, b1 OR of_nat n]
         else if n < 2 ^ 16 then Some ([b0, b1 OR 126] @ be_bytes 2 n)
         else if n < 2 ^ 63 then Some ([b0, b1 OR 127] @ be_bytes 8 n)
         else None)"

text \<open>\<open>Inl\<close> is an early return, \<open>Inr\<close> goes on to the payload.\<close>

definition prep_header ::
  "'n wslay_frame_callbacks \<Rightarrow> wslay_frame_context \<Rightarrow> wslay_frame_iocb \<Rightarrow> 'n \<Rightarrow>
   ((int \<times> wslay_frame_context \<times> 'n) + (wslay_frame_context \<times> wslay_frame_iocb \<times> 'n)) option" where
  "prep_header cb ctx iocb net =
     (if wslay_is_ctrl_frame (io_opcode iocb) \<and> io_payload_length iocb > 125
      then Some (Inl (WSLAY_ERR_INVALID_ARGUMENT, ctx, net))
      else (case header_start iocb of
          None \<Rightarrow> Some (Inl (WSLAY_ERR_INVALID_ARGUMENT, ctx, net))
        | Some start \<Rightarrow> do {
            (r, key, net) \<leftarrow> (if io_mask iocb \<noteq> 0 then cb_genmask cb net 4 else Some (0, [], net));
            let ctx = (if io_mask iocb \<noteq> 0 then ctx\<lparr>fc_omaskkey := key\<rparr> else ctx);
            if io_mask iocb \<noteq> 0 \<and> r \<noteq> 0 then Some (Inl (WSLAY_ERR_INVALID_CALLBACK, ctx, net))
               else do {
                 let hdr = start @ key;
                 let hdrtow = length hdr;
                 let data = io_data iocb - int hdrtow;
                 let data_length = io_data_length iocb + hdrtow;
                 buf \<leftarrow> wr_block (io_buf iocb) data hdr;
                 Some (Inr (ctx\<lparr>fc_omask := (if io_mask iocb \<noteq> 0 then 1 else fc_omask ctx), fc_hdrtow := hdrtow,
                              fc_opayloadlen := data_length, fc_opayloadoff := 0, fc_opayloadmaskoff := 0,
                              fc_ostate := SEND_PAYLOAD\<rparr>,
                            iocb\<lparr>io_buf := buf, io_data := data, io_data_length := data_length\<rparr>, net))
               }
          }))"

text \<open>The bytes of \<open>temp\<close>: the rest of the header as it is, then payload under the mask.\<close>

definition mask_from :: "byte list \<Rightarrow> nat \<Rightarrow> byte list \<Rightarrow> byte list" where
  "mask_from key off bs = map (\<lambda>i. bs ! i XOR key ! ((off + i) mod 4)) [0..<length bs]"

definition fill_temp :: "wslay_frame_context \<Rightarrow> byte list \<Rightarrow> byte list" where
  "fill_temp ctx bs = take (fc_hdrtow ctx) bs @ mask_from (fc_omaskkey ctx) (fc_opayloadmaskoff ctx) (drop (fc_hdrtow ctx) bs)"

text \<open>What both ways of sending do after the callback took \<open>r\<close> bytes.\<close>

definition sent_header ::
  "nat \<Rightarrow> wslay_frame_context \<times> wslay_frame_iocb \<times> int \<Rightarrow> wslay_frame_context \<times> wslay_frame_iocb \<times> int" where
  "sent_header r s =
     (let (ctx, iocb, totallen) = s;
          hp = min (fc_hdrtow ctx) r
      in if fc_hdrtow ctx \<noteq> 0
         then (ctx\<lparr>fc_hdrtow := fc_hdrtow ctx - hp\<rparr>,
               iocb\<lparr>io_data := io_data iocb + int hp, io_data_length := io_data_length iocb - hp\<rparr>, totallen - int hp)
         else s)"

text \<open>
  The loop over a masked frame, at most 4096 bytes at a time; \<open>Inl\<close> is the early return. The
  callback takes no more than it is offered.
\<close>

function send_masked ::
  "'n wslay_frame_callbacks \<Rightarrow> nat \<Rightarrow> nat \<Rightarrow> wslay_frame_context \<times> wslay_frame_iocb \<times> int \<Rightarrow> 'n \<Rightarrow>
   ((int \<times> wslay_frame_context \<times> wslay_frame_iocb \<times> 'n) + (wslay_frame_context \<times> wslay_frame_iocb \<times> int \<times> 'n)) option" where
  "send_masked cb datamark datalimit (ctx, iocb, totallen) net =
     (if datamark < datalimit then
        let writelen = min 4096 (datalimit - datamark) in
        (case rd_block (io_buf iocb) datamark writelen of
           None \<Rightarrow> None
         | Some bs \<Rightarrow>
             (case cb_send cb net (fill_temp ctx bs) of
                None \<Rightarrow> None
              | Some (r, net) \<Rightarrow>
                  if r > 0 then
                    let hp = min (fc_hdrtow ctx) (nat r);
                        ctx = ctx\<lparr>fc_opayloadoff := fc_opayloadoff ctx + nat r,
                                  fc_opayloadmaskoff := fc_opayloadmaskoff ctx + nat r - hp\<rparr>
                    in send_masked cb (datamark + nat r) datalimit (sent_header (nat r) (ctx, iocb, totallen + r)) net
                  else if totallen > 0 then Some (Inr (ctx, iocb, totallen, net))
                  else Some (Inl (WSLAY_ERR_WANT_WRITE, ctx, iocb, net))))
      else Some (Inr (ctx, iocb, totallen, net)))"
  by pat_completeness auto
termination by (relation "measure (\<lambda>(cb, m, l, s, n). l - m)") auto

definition send_plain ::
  "'n wslay_frame_callbacks \<Rightarrow> wslay_frame_context \<Rightarrow> wslay_frame_iocb \<Rightarrow> 'n \<Rightarrow>
   ((int \<times> wslay_frame_context \<times> wslay_frame_iocb \<times> 'n) + (wslay_frame_context \<times> wslay_frame_iocb \<times> int \<times> 'n)) option" where
  "send_plain cb ctx iocb net = do {
     bs \<leftarrow> (if 0 \<le> io_data iocb then rd_block (io_buf iocb) (nat (io_data iocb)) (io_data_length iocb) else None);
     (r, net) \<leftarrow> cb_send cb net bs;
     if r > 0 then
       (let (ctx, iocb, totallen) =
              sent_header (nat r) (ctx\<lparr>fc_opayloadoff := fc_opayloadoff ctx + nat r\<rparr>, iocb, r)
        in Some (Inr (ctx, iocb, totallen, net)))
     else Some (Inl (WSLAY_ERR_WANT_WRITE, ctx, iocb, net))
   }"

definition send_payload ::
  "'n wslay_frame_callbacks \<Rightarrow> wslay_frame_context \<Rightarrow> wslay_frame_iocb \<Rightarrow> 'n \<Rightarrow>
   (int \<times> wslay_frame_context \<times> wslay_frame_iocb \<times> 'n) option" where
  "send_payload cb ctx iocb net = do {
     res \<leftarrow> (if io_data_length iocb > 0 then
             (if fc_omask ctx \<noteq> 0 then
                (if 0 \<le> io_data iocb
                 then send_masked cb (nat (io_data iocb)) (nat (io_data iocb) + io_data_length iocb) (ctx, iocb, 0) net
                 else None)
              else send_plain cb ctx iocb net)
           else Some (Inr (ctx, iocb, 0, net)));
     case res of
       Inl ret \<Rightarrow> Some ret
     | Inr (ctx, iocb, totallen, net) \<Rightarrow>
         if fc_hdrtow ctx \<noteq> 0 then Some (WSLAY_ERR_WANT_WRITE, ctx, iocb, net)
         else Some (totallen,
                    if fc_opayloadoff ctx = fc_opayloadlen ctx then ctx\<lparr>fc_ostate := PREP_HEADER\<rparr> else ctx, iocb, net)
   }"

definition wslay_frame_send ::
  "'n wslay_frame_callbacks \<Rightarrow> wslay_frame_context \<Rightarrow> wslay_frame_iocb \<Rightarrow> 'n \<Rightarrow>
   (int \<times> wslay_frame_context \<times> wslay_frame_iocb \<times> 'n) option" where
  "wslay_frame_send cb ctx iocb net =
     (if fc_ostate ctx = PREP_HEADER then do {
        res \<leftarrow> prep_header cb ctx iocb net;
        case res of
          Inl (ret, ctx, net) \<Rightarrow> Some (ret, ctx, iocb, net)
        | Inr (ctx, iocb, net) \<Rightarrow> send_payload cb ctx iocb net
      } else
        let iocb = (if fc_hdrtow ctx \<noteq> 0
                    then iocb\<lparr>io_data := io_data iocb - int (fc_hdrtow ctx),
                              io_data_length := io_data_length iocb + fc_hdrtow ctx\<rparr> else iocb)
        in if fc_ostate ctx = SEND_PAYLOAD then send_payload cb ctx iocb net
           else Some (WSLAY_ERR_INVALID_ARGUMENT, ctx, iocb, net))"

section \<open>Receiving\<close>

definition wslay_shift_ibuf :: "wslay_frame_context \<Rightarrow> wslay_frame_context" where
  "wslay_shift_ibuf ctx =
     (let len = fc_ibuflimit ctx - fc_ibufmark ctx;
          kept = take len (drop (fc_ibufmark ctx) (fc_ibuf ctx))
      in ctx\<lparr>fc_ibuf := kept @ drop len (fc_ibuf ctx), fc_ibuflimit := len, fc_ibufmark := 0\<rparr>)"

definition wslay_recv ::
  "'n wslay_frame_callbacks \<Rightarrow> wslay_frame_context \<Rightarrow> 'n \<Rightarrow> (int \<times> wslay_frame_context \<times> 'n) option" where
  "wslay_recv cb ctx net =
     (let ctx = (if fc_ibufmark ctx \<noteq> 0 then wslay_shift_ibuf ctx else ctx)
      in do {
        (r, bs, net) \<leftarrow> cb_recv cb net (4096 - fc_ibuflimit ctx);
        if r > 0 then do {
          buf \<leftarrow> wr_block (fc_ibuf ctx) (int (fc_ibuflimit ctx)) bs;
          Some (r, ctx\<lparr>fc_ibuf := buf, fc_ibuflimit := fc_ibuflimit ctx + nat r\<rparr>, net)
        } else Some (WSLAY_ERR_WANT_READ, ctx, net)
      })"

definition avail_ibuf :: "wslay_frame_context \<Rightarrow> nat" where
  "avail_ibuf ctx = fc_ibuflimit ctx - fc_ibufmark ctx"

text \<open>Reads once when fewer than \<open>ireqread\<close> bytes are there; \<open>Inl\<close> is the early return.\<close>

definition recv_need ::
  "'n wslay_frame_callbacks \<Rightarrow> wslay_frame_context \<Rightarrow> 'n \<Rightarrow>
   ((int \<times> wslay_frame_context \<times> 'n) + (wslay_frame_context \<times> 'n)) option" where
  "recv_need cb ctx net =
     (if avail_ibuf ctx < fc_ireqread ctx then do {
        (r, ctx, net) \<leftarrow> wslay_recv cb ctx net;
        if r \<le> 0 then Some (Inl (r, ctx, net))
        else if avail_ibuf ctx < fc_ireqread ctx then Some (Inl (WSLAY_ERR_WANT_READ, ctx, net))
        else Some (Inr (ctx, net))
      } else Some (Inr (ctx, net)))"

definition after_length :: "wslay_frame_context \<Rightarrow> wslay_frame_context" where
  "after_length ctx =
     (if fc_imask ctx \<noteq> 0 then ctx\<lparr>fc_istate := RECV_MASKKEY, fc_ireqread := 4\<rparr>
      else ctx\<lparr>fc_istate := RECV_PAYLOAD\<rparr>)"

definition header1_read ::
  "wslay_frame_context \<Rightarrow> 'n \<Rightarrow> ((int \<times> wslay_frame_context \<times> 'n) + (wslay_frame_context \<times> 'n)) option" where
  "header1_read ctx net = do {
     b0 \<leftarrow> rd (fc_ibuf ctx) (fc_ibufmark ctx);
     b1 \<leftarrow> rd (fc_ibuf ctx) (fc_ibufmark ctx + 1);
     let fin = drop_bit 7 b0 AND 1;
     let opcode = b0 AND 0xf;
     let payloadlen = b1 AND 0x7f;
     let ctx = ctx\<lparr>fc_iom_opcode := opcode, fc_iom_fin := fin, fc_iom_rsv := drop_bit 4 b0 AND 7,
                   fc_imask := drop_bit 7 b1 AND 1, fc_ibufmark := fc_ibufmark ctx + 2\<rparr>;
     if wslay_is_ctrl_frame opcode \<and> (unat payloadlen > 125 \<or> fin = 0)
     then Some (Inl (WSLAY_ERR_PROTO, ctx, net))
     else if payloadlen = 126 then Some (Inr (ctx\<lparr>fc_istate := RECV_EXT_PAYLOADLEN, fc_ireqread := 2\<rparr>, net))
     else if payloadlen = 127 then Some (Inr (ctx\<lparr>fc_istate := RECV_EXT_PAYLOADLEN, fc_ireqread := 8\<rparr>, net))
     else Some (Inr (after_length (ctx\<lparr>fc_ipayloadlen := unat payloadlen, fc_ipayloadoff := 0\<rparr>), net))
   }"

definition recv_header1 ::
  "'n wslay_frame_callbacks \<Rightarrow> wslay_frame_context \<Rightarrow> 'n \<Rightarrow>
   ((int \<times> wslay_frame_context \<times> 'n) + (wslay_frame_context \<times> 'n)) option" where
  "recv_header1 cb ctx net = do {
     res \<leftarrow> recv_need cb ctx net;
     case res of
       Inl ret \<Rightarrow> Some (Inl ret)
     | Inr (ctx, net) \<Rightarrow> header1_read ctx net
   }"

definition recv_ext_payloadlen ::
  "'n wslay_frame_callbacks \<Rightarrow> wslay_frame_context \<Rightarrow> 'n \<Rightarrow>
   ((int \<times> wslay_frame_context \<times> 'n) + (wslay_frame_context \<times> 'n)) option" where
  "recv_ext_payloadlen cb ctx net = do {
     res \<leftarrow> recv_need cb ctx net;
     case res of
       Inl ret \<Rightarrow> Some (Inl ret)
     | Inr (ctx, net) \<Rightarrow> do {
         bs \<leftarrow> rd_block (fc_ibuf ctx) (fc_ibufmark ctx) (fc_ireqread ctx);
         let len = be_val bs;
         let ctx = ctx\<lparr>fc_ipayloadlen := len, fc_ipayloadoff := 0, fc_ibufmark := fc_ibufmark ctx + fc_ireqread ctx\<rparr>;
         if fc_ireqread ctx = 8 \<and> (len < 2 ^ 16 \<or> len \<ge> 2 ^ 63) \<or> fc_ireqread ctx \<noteq> 8 \<and> len < 126
         then Some (Inl (WSLAY_ERR_PROTO, ctx, net))
         else Some (Inr (after_length ctx, net))
       }
   }"

definition recv_maskkey ::
  "'n wslay_frame_callbacks \<Rightarrow> wslay_frame_context \<Rightarrow> 'n \<Rightarrow>
   ((int \<times> wslay_frame_context \<times> 'n) + (wslay_frame_context \<times> 'n)) option" where
  "recv_maskkey cb ctx net = do {
     res \<leftarrow> recv_need cb ctx net;
     case res of
       Inl ret \<Rightarrow> Some (Inl ret)
     | Inr (ctx, net) \<Rightarrow> do {
         key \<leftarrow> rd_block (fc_ibuf ctx) (fc_ibufmark ctx) 4;
         Some (Inr (ctx\<lparr>fc_imaskkey := key, fc_ibufmark := fc_ibufmark ctx + 4, fc_istate := RECV_PAYLOAD\<rparr>, net))
       }
   }"

text \<open>What is there of the payload is unmasked in place and handed over.\<close>

definition payload_take ::
  "wslay_frame_context \<Rightarrow> wslay_frame_iocb \<Rightarrow> 'n \<Rightarrow> nat \<Rightarrow> (int \<times> wslay_frame_context \<times> wslay_frame_iocb \<times> 'n) option" where
  "payload_take ctx iocb net rempayloadlen = do {
     let readmark = fc_ibufmark ctx;
     let n = min (avail_ibuf ctx) rempayloadlen;
     bs \<leftarrow> rd_block (fc_ibuf ctx) readmark n;
     let bs = (if fc_imask ctx \<noteq> 0 then mask_from (fc_imaskkey ctx) (fc_ipayloadoff ctx) bs else bs);
     buf \<leftarrow> wr_block (fc_ibuf ctx) (int readmark) bs;
     let ctx = ctx\<lparr>fc_ibuf := buf, fc_ibufmark := readmark + n, fc_ipayloadoff := fc_ipayloadoff ctx + n\<rparr>;
     let iocb = iocb\<lparr>io_fin := fc_iom_fin ctx, io_rsv := fc_iom_rsv ctx, io_opcode := fc_iom_opcode ctx,
                     io_payload_length := fc_ipayloadlen ctx, io_mask := fc_imask ctx,
                     io_buf := buf, io_data := int readmark, io_data_length := n\<rparr>;
     Some (int n,
           if fc_ipayloadlen ctx = fc_ipayloadoff ctx then ctx\<lparr>fc_istate := RECV_HEADER1, fc_ireqread := 2\<rparr> else ctx,
           iocb, net)
   }"

definition recv_payload ::
  "'n wslay_frame_callbacks \<Rightarrow> wslay_frame_context \<Rightarrow> wslay_frame_iocb \<Rightarrow> 'n \<Rightarrow>
   (int \<times> wslay_frame_context \<times> wslay_frame_iocb \<times> 'n) option" where
  "recv_payload cb ctx iocb net = do {
     let rempayloadlen = fc_ipayloadlen ctx - fc_ipayloadoff ctx;
     (r, ctx, net) \<leftarrow> (if avail_ibuf ctx = 0 \<and> rempayloadlen > 0 then wslay_recv cb ctx net else Some (1, ctx, net));
     if r \<le> 0 then Some (r, ctx, iocb, net) else payload_take ctx iocb net rempayloadlen
   }"

text \<open>One stage of \<open>wslay_frame_recv\<close>: it runs when the context is in its state.\<close>

definition recv_stage ::
  "wslay_frame_state \<Rightarrow>
   (wslay_frame_context \<Rightarrow> 'n \<Rightarrow> ((int \<times> wslay_frame_context \<times> 'n) + (wslay_frame_context \<times> 'n)) option) \<Rightarrow>
   ((int \<times> wslay_frame_context \<times> 'n) + (wslay_frame_context \<times> 'n)) \<Rightarrow>
   ((int \<times> wslay_frame_context \<times> 'n) + (wslay_frame_context \<times> 'n)) option" where
  "recv_stage st f s =
     (case s of Inl ret \<Rightarrow> Some (Inl ret) | Inr (ctx, net) \<Rightarrow> if fc_istate ctx = st then f ctx net else Some (Inr (ctx, net)))"

definition wslay_frame_recv ::
  "'n wslay_frame_callbacks \<Rightarrow> wslay_frame_context \<Rightarrow> wslay_frame_iocb \<Rightarrow> 'n \<Rightarrow>
   (int \<times> wslay_frame_context \<times> wslay_frame_iocb \<times> 'n) option" where
  "wslay_frame_recv cb ctx iocb net = do {
     s \<leftarrow> recv_stage RECV_HEADER1 (recv_header1 cb) (Inr (ctx, net));
     s \<leftarrow> recv_stage RECV_EXT_PAYLOADLEN (recv_ext_payloadlen cb) s;
     s \<leftarrow> recv_stage RECV_MASKKEY (recv_maskkey cb) s;
     case s of
       Inl (r, ctx, net) \<Rightarrow> Some (r, ctx, iocb, net)
     | Inr (ctx, net) \<Rightarrow>
         if fc_istate ctx = RECV_PAYLOAD then recv_payload cb ctx iocb net
         else Some (WSLAY_ERR_INVALID_ARGUMENT, ctx, iocb, net)
   }"

declare send_masked.simps [simp del]

section \<open>Frames as the protocol lays them out\<close>

text \<open>
  A frame on the wire, RFC 6455 section 5.2: two bytes of flags, opcode and length, the extended
  length, the masking key and the payload under the mask.
\<close>

record ws_frame =
  fr_fin :: byte
  fr_rsv :: byte
  fr_opcode :: byte
  fr_mask :: byte
  fr_key :: "byte list"
  fr_payload :: "byte list"

definition frame_ok :: "ws_frame \<Rightarrow> bool" where
  "frame_ok fr \<longleftrightarrow> fr_fin fr \<in> {0, 1} \<and> fr_mask fr \<in> {0, 1} \<and> take_bit 3 (fr_rsv fr) = fr_rsv fr \<and>
     take_bit 4 (fr_opcode fr) = fr_opcode fr \<and> length (fr_key fr) = (if fr_mask fr = 1 then 4 else 0) \<and>
     length (fr_payload fr) < 2 ^ 63 \<and>
     (wslay_is_ctrl_frame (fr_opcode fr) \<longrightarrow> length (fr_payload fr) \<le> 125 \<and> fr_fin fr = 1)"

definition frame_len7 :: "nat \<Rightarrow> nat" where
  "frame_len7 n = (if n < 126 then n else if n < 2 ^ 16 then 126 else 127)"

definition frame_ext :: "nat \<Rightarrow> byte list" where
  "frame_ext n = (if n < 126 then [] else if n < 2 ^ 16 then be_bytes 2 n else be_bytes 8 n)"

definition frame_b0 :: "ws_frame \<Rightarrow> byte" where
  "frame_b0 fr = push_bit 7 (fr_fin fr) OR push_bit 4 (fr_rsv fr) OR fr_opcode fr"

definition frame_b1 :: "ws_frame \<Rightarrow> byte" where
  "frame_b1 fr = push_bit 7 (fr_mask fr) OR of_nat (frame_len7 (length (fr_payload fr)))"

definition frame_body :: "ws_frame \<Rightarrow> byte list" where
  "frame_body fr = (if fr_mask fr = 0 then fr_payload fr else mask_from (fr_key fr) 0 (fr_payload fr))"

definition frame_head :: "ws_frame \<Rightarrow> byte list" where
  "frame_head fr = [frame_b0 fr, frame_b1 fr] @ frame_ext (length (fr_payload fr)) @ fr_key fr"

definition frame_bytes :: "ws_frame \<Rightarrow> byte list" where
  "frame_bytes fr = frame_head fr @ frame_body fr"

section \<open>Facts on masks, lengths and header bits\<close>

lemma length_mask_from [simp]: "length (mask_from key off bs) = length bs"
  by (simp add: mask_from_def)

lemma nth_mask_from [simp]: "i < length bs \<Longrightarrow> mask_from key off bs ! i = bs ! i XOR key ! ((off + i) mod 4)"
  by (simp add: mask_from_def)

lemma mask_from_twice [simp]: "mask_from key off (mask_from key off bs) = bs"
  by (rule nth_equalityI) (simp_all add: xor.assoc)

lemma mask_from_drop: "drop k (mask_from key off bs) = mask_from key (off + k) (drop k bs)"
  by (rule nth_equalityI) (simp_all add: add.assoc)

lemma mask_from_take: "take k (mask_from key off bs) = mask_from key off (take k bs)"
  by (rule nth_equalityI) simp_all

lemma mask_from_append: "mask_from key off (a @ b) = mask_from key off a @ mask_from key (off + length a) b"
  by (rule nth_equalityI) (auto simp: nth_append add.assoc)

lemma length_frame_body [simp]: "length (frame_body fr) = length (fr_payload fr)"
  by (simp add: frame_body_def)

lemma bit_frame_fields:
  fixes f r oc :: byte
  assumes "f = 0 \<or> f = 1" and r: "take_bit 3 r = r" and oc: "take_bit 4 oc = oc"
  shows "drop_bit 7 (push_bit 7 f OR push_bit 4 r OR oc) AND 1 = f"
    and "drop_bit 4 (push_bit 7 f OR push_bit 4 r OR oc) AND 7 = r"
    and "(push_bit 7 f OR push_bit 4 r OR oc) AND 0xf = oc"
proof -
  have b: "n < 3" if "bit r n" for n using that r by (metis bit_take_bit_iff)
  have c: "n < 4" if "bit oc n" for n using that oc by (metis bit_take_bit_iff)
  have m: "(7 :: byte) = mask 3" "(0xf :: byte) = mask 4" "(1 :: byte) = mask 1" by (simp_all add: mask_eq_exp_minus_1)
  have f: "bit f n \<longleftrightarrow> n = 0 \<and> f = 1" for n using assms(1) by (auto simp: bit_1_iff)
  show "drop_bit 7 (push_bit 7 f OR push_bit 4 r OR oc) AND 1 = f"
    unfolding m by (rule bit_word_eqI) (auto simp: bit_simps f dest: b c)
  show "drop_bit 4 (push_bit 7 f OR push_bit 4 r OR oc) AND 7 = r"
    unfolding m by (rule bit_word_eqI) (auto simp: bit_simps f dest: b c)
  show "(push_bit 7 f OR push_bit 4 r OR oc) AND 0xf = oc"
    unfolding m by (rule bit_word_eqI) (auto simp: bit_simps f dest: b c)
qed

lemma bit_frame_length:
  fixes f :: byte
  assumes "f = 0 \<or> f = 1" and n: "n < 128"
  shows "drop_bit 7 (push_bit 7 f OR of_nat n) AND 1 = f" and "(push_bit 7 f OR of_nat n) AND 0x7f = of_nat n"
proof -
  have "take_bit 7 n = n" using n by (simp add: take_bit_nat_eq_self)
  then have b: "i < 7" if "bit n i" for i using that by (metis bit_take_bit_iff)
  have m: "(0x7f :: byte) = mask 7" "(1 :: byte) = mask 1" by (simp_all add: mask_eq_exp_minus_1)
  have f: "bit f i \<longleftrightarrow> i = 0 \<and> f = 1" for i using assms(1) by (auto simp: bit_1_iff)
  show "drop_bit 7 (push_bit 7 f OR of_nat n) AND 1 = f"
    unfolding m by (rule bit_word_eqI) (auto simp: bit_simps f dest: b)
  show "(push_bit 7 f OR of_nat n) AND 0x7f = of_nat n"
    unfolding m by (rule bit_word_eqI) (auto simp: bit_simps f dest: b)
qed

section \<open>Receiving: the stream is parsed however it arrives\<close>

text \<open>
  What a receive callback promises: it stores at most what it is asked for, in the order of the
  stream \<open>pending\<close>, and while bytes are pending it comes back without any only finitely often
  (\<open>ticks\<close>).
\<close>

locale frame_source =
  fixes recv :: "'n \<Rightarrow> nat \<Rightarrow> (int \<times> byte list \<times> 'n) option"
    and pending :: "'n \<Rightarrow> byte list"
    and ticks :: "'n \<Rightarrow> nat"
  assumes recv_law: "0 < k \<Longrightarrow> \<exists>r bs n'. recv n k = Some (r, bs, n') \<and>
      (if 0 < r then length bs = nat r \<and> nat r \<le> k \<and> pending n = bs @ pending n' \<and> ticks n' \<le> ticks n
       else pending n' = pending n \<and> (pending n \<noteq> [] \<longrightarrow> ticks n' < ticks n) \<and> ticks n' \<le> ticks n)"

definition rx_ok :: "wslay_frame_context \<Rightarrow> bool" where
  "rx_ok ctx \<longleftrightarrow> length (fc_ibuf ctx) = 4096 \<and> fc_ibufmark ctx \<le> fc_ibuflimit ctx \<and> fc_ibuflimit ctx \<le> 4096"

definition buffered :: "wslay_frame_context \<Rightarrow> byte list" where
  "buffered ctx = take (avail_ibuf ctx) (drop (fc_ibufmark ctx) (fc_ibuf ctx))"

text \<open>A context that is \<open>k\<close> payload bytes into the frame \<open>fr\<close> when the bytes \<open>s\<close> are still unread.\<close>

definition rx_at :: "ws_frame \<Rightarrow> nat \<Rightarrow> byte list \<Rightarrow> wslay_frame_context \<Rightarrow> byte list \<Rightarrow> bool" where
  "rx_at fr k rest ctx s \<longleftrightarrow> rx_ok ctx \<and> k \<le> length (fr_payload fr) \<and>
     (case fc_istate ctx of
        RECV_HEADER1 \<Rightarrow> k = 0 \<and> fc_ireqread ctx = 2 \<and> s = frame_bytes fr @ rest
      | RECV_EXT_PAYLOADLEN \<Rightarrow> k = 0 \<and> 126 \<le> length (fr_payload fr) \<and>
          fc_ireqread ctx = length (frame_ext (length (fr_payload fr))) \<and>
          fc_iom_fin ctx = fr_fin fr \<and> fc_iom_rsv ctx = fr_rsv fr \<and> fc_iom_opcode ctx = fr_opcode fr \<and>
          fc_imask ctx = fr_mask fr \<and> s = frame_ext (length (fr_payload fr)) @ fr_key fr @ frame_body fr @ rest
      | RECV_MASKKEY \<Rightarrow> k = 0 \<and> fr_mask fr = 1 \<and> fc_ireqread ctx = 4 \<and>
          fc_iom_fin ctx = fr_fin fr \<and> fc_iom_rsv ctx = fr_rsv fr \<and> fc_iom_opcode ctx = fr_opcode fr \<and>
          fc_imask ctx = fr_mask fr \<and> fc_ipayloadlen ctx = length (fr_payload fr) \<and> fc_ipayloadoff ctx = 0 \<and>
          s = fr_key fr @ frame_body fr @ rest
      | RECV_PAYLOAD \<Rightarrow> fc_iom_fin ctx = fr_fin fr \<and> fc_iom_rsv ctx = fr_rsv fr \<and> fc_iom_opcode ctx = fr_opcode fr \<and>
          fc_imask ctx = fr_mask fr \<and> fc_ipayloadlen ctx = length (fr_payload fr) \<and> fc_ipayloadoff ctx = k \<and>
          (fr_mask fr = 1 \<longrightarrow> fc_imaskkey ctx = fr_key fr) \<and> s = drop k (frame_body fr) @ rest
      | _ \<Rightarrow> False)"

lemma length_buffered: "rx_ok ctx \<Longrightarrow> length (buffered ctx) = avail_ibuf ctx"
  by (auto simp: rx_ok_def buffered_def avail_ibuf_def)

text \<open>Only the buffer moves.\<close>

definition same_but_buffer :: "wslay_frame_context \<Rightarrow> wslay_frame_context \<Rightarrow> bool" where
  "same_but_buffer c d \<longleftrightarrow> 
     c\<lparr>fc_ibuf := [], fc_ibufmark := 0, fc_ibuflimit := 0\<rparr> = d\<lparr>fc_ibuf := [], fc_ibufmark := 0, fc_ibuflimit := 0\<rparr>"

lemma same_but_bufferD:
  assumes "same_but_buffer c d"
  shows "fc_istate d = fc_istate c" "fc_ireqread d = fc_ireqread c" "fc_iom_fin d = fc_iom_fin c"
    "fc_iom_rsv d = fc_iom_rsv c" "fc_iom_opcode d = fc_iom_opcode c" "fc_imask d = fc_imask c"
    "fc_imaskkey d = fc_imaskkey c" "fc_ipayloadlen d = fc_ipayloadlen c" "fc_ipayloadoff d = fc_ipayloadoff c"
  using assms by (cases c; cases d; simp add: same_but_buffer_def)+

lemma same_but_buffer_refl [simp]: "same_but_buffer c c"
  by (simp add: same_but_buffer_def)

lemma rx_at_buffer:
  "rx_at fr k rest c s \<Longrightarrow> same_but_buffer c d \<Longrightarrow> rx_ok d \<Longrightarrow> rx_at fr k rest d s"
  by (auto simp: rx_at_def same_but_bufferD split: wslay_frame_state.splits)

lemma shift_ibuf:
  assumes "rx_ok ctx"
  shows "rx_ok (wslay_shift_ibuf ctx)" "buffered (wslay_shift_ibuf ctx) = buffered ctx"
    "same_but_buffer ctx (wslay_shift_ibuf ctx)" "fc_ibufmark (wslay_shift_ibuf ctx) = 0"
    "fc_ibuflimit (wslay_shift_ibuf ctx) = avail_ibuf ctx"
proof -
  have l: "length (take (fc_ibuflimit ctx - fc_ibufmark ctx) (drop (fc_ibufmark ctx) (fc_ibuf ctx))) =
      fc_ibuflimit ctx - fc_ibufmark ctx"
    using assms by (auto simp: rx_ok_def)
  show "rx_ok (wslay_shift_ibuf ctx)" using assms by (auto simp: rx_ok_def wslay_shift_ibuf_def Let_def)
  show "buffered (wslay_shift_ibuf ctx) = buffered ctx"
    using l by (simp add: buffered_def wslay_shift_ibuf_def Let_def avail_ibuf_def)
  show "same_but_buffer ctx (wslay_shift_ibuf ctx)"
    by (simp add: same_but_buffer_def wslay_shift_ibuf_def Let_def)
qed (simp_all add: wslay_shift_ibuf_def Let_def avail_ibuf_def)

lemma window_append:
  assumes "m \<le> l" "l \<le> length b"
  shows "take (l + length bs - m) (drop m (take l b @ bs @ r)) = take (l - m) (drop m b) @ bs"
proof -
  have "drop m (take l b @ bs @ r) = drop m (take l b) @ bs @ r" using assms by simp
  moreover have "l + length bs - m = length (drop m (take l b)) + length bs" using assms by simp
  ultimately show ?thesis by (simp add: drop_take)
qed

lemma store_received:
  assumes "rx_ok ctx" and "fc_ibuflimit ctx + length bs \<le> 4096"
  shows "\<exists>buf. wr_block (fc_ibuf ctx) (int (fc_ibuflimit ctx)) bs = Some buf \<and>
    rx_ok (ctx\<lparr>fc_ibuf := buf, fc_ibuflimit := fc_ibuflimit ctx + length bs\<rparr>) \<and>
    buffered (ctx\<lparr>fc_ibuf := buf, fc_ibuflimit := fc_ibuflimit ctx + length bs\<rparr>) = buffered ctx @ bs"
proof -
  let ?buf = "take (fc_ibuflimit ctx) (fc_ibuf ctx) @ bs @ drop (fc_ibuflimit ctx + length bs) (fc_ibuf ctx)"
  have l: "length (fc_ibuf ctx) = 4096" "fc_ibufmark ctx \<le> fc_ibuflimit ctx" "fc_ibuflimit ctx \<le> length (fc_ibuf ctx)"
    using assms by (simp_all add: rx_ok_def)
  have "wr_block (fc_ibuf ctx) (int (fc_ibuflimit ctx)) bs = Some ?buf"
    using assms l by (simp add: wr_block_def)
  moreover have "rx_ok (ctx\<lparr>fc_ibuf := ?buf, fc_ibuflimit := fc_ibuflimit ctx + length bs\<rparr>)"
    using assms l by (simp add: rx_ok_def)
  moreover have "buffered (ctx\<lparr>fc_ibuf := ?buf, fc_ibuflimit := fc_ibuflimit ctx + length bs\<rparr>) = buffered ctx @ bs"
    unfolding buffered_def avail_ibuf_def
    using window_append [OF l(2,3), of bs "drop (fc_ibuflimit ctx + length bs) (fc_ibuf ctx)"] by simp
  ultimately show ?thesis by blast
qed

context frame_source
begin

definition unread :: "wslay_frame_context \<Rightarrow> 'n \<Rightarrow> byte list" where
  "unread ctx n = buffered ctx @ pending n"

definition budget :: "'n \<Rightarrow> nat" where
  "budget n = length (pending n) + ticks n"

lemma wslay_recv_step:
  assumes "cb_recv cb = recv" and ok: "rx_ok ctx" and room: "avail_ibuf ctx < 4096"
  shows "\<exists>r ctx' n'. wslay_recv cb ctx n = Some (r, ctx', n') \<and> rx_ok ctx' \<and> same_but_buffer ctx ctx' \<and>
     unread ctx' n' = unread ctx n \<and> budget n' \<le> budget n \<and>
     (if 0 < r then avail_ibuf ctx' = avail_ibuf ctx + nat r \<and> budget n' < budget n
      else r = WSLAY_ERR_WANT_READ \<and> avail_ibuf ctx' = avail_ibuf ctx \<and> (pending n \<noteq> [] \<longrightarrow> budget n' < budget n))"
proof -
  let ?c = "if fc_ibufmark ctx \<noteq> 0 then wslay_shift_ibuf ctx else ctx"
  have c: "rx_ok ?c" "same_but_buffer ctx ?c" "buffered ?c = buffered ctx" "fc_ibufmark ?c = 0" "fc_ibuflimit ?c = avail_ibuf ctx"
    using shift_ibuf [OF ok] ok by (auto simp: avail_ibuf_def)
  have room': "0 < 4096 - fc_ibuflimit ?c" using room c(5) by simp
  obtain r bs n' where r: "recv n (4096 - fc_ibuflimit ?c) = Some (r, bs, n')"
    and law: "if 0 < r then length bs = nat r \<and> nat r \<le> 4096 - fc_ibuflimit ?c \<and> pending n = bs @ pending n' \<and> ticks n' \<le> ticks n
       else pending n' = pending n \<and> (pending n \<noteq> [] \<longrightarrow> ticks n' < ticks n) \<and> ticks n' \<le> ticks n"
    using recv_law [OF room', of n] by blast
  show ?thesis
  proof (cases "0 < r")
    case True
    with law have l: "length bs = nat r" "fc_ibuflimit ?c + length bs \<le> 4096" "pending n = bs @ pending n'" "ticks n' \<le> ticks n"
      using room' by auto
    obtain buf where b: "wr_block (fc_ibuf ?c) (int (fc_ibuflimit ?c)) bs = Some buf"
      "rx_ok (?c\<lparr>fc_ibuf := buf, fc_ibuflimit := fc_ibuflimit ?c + length bs\<rparr>)"
      "buffered (?c\<lparr>fc_ibuf := buf, fc_ibuflimit := fc_ibuflimit ?c + length bs\<rparr>) = buffered ?c @ bs"
      using store_received [OF c(1) l(2)] by blast
    let ?d = "?c\<lparr>fc_ibuf := buf, fc_ibuflimit := fc_ibuflimit ?c + nat r\<rparr>"
    have "wslay_recv cb ctx n = Some (r, ?d, n')"
      unfolding wslay_recv_def Let_def assms(1) using r b(1) True by simp
    moreover have "same_but_buffer ctx ?d"
      using c(2) by (simp add: same_but_buffer_def)
    moreover have "avail_ibuf ?d = avail_ibuf ctx + nat r" using c(4,5) by (simp add: avail_ibuf_def)
    ultimately show ?thesis
      using True b(2,3) l c(3) by (auto simp: unread_def budget_def)
  next
    case False
    with law have l: "pending n' = pending n" "pending n \<noteq> [] \<longrightarrow> ticks n' < ticks n" "ticks n' \<le> ticks n" by auto
    have "wslay_recv cb ctx n = Some (WSLAY_ERR_WANT_READ, ?c, n')"
      unfolding wslay_recv_def Let_def assms(1) using r False by simp
    moreover have "avail_ibuf ?c = avail_ibuf ctx" using c(4,5) by (simp add: avail_ibuf_def)
    ultimately show ?thesis using l c by (auto simp: unread_def budget_def)
  qed
qed

end

text \<open>The order of the stages of a call.\<close>

fun stage_rank :: "wslay_frame_state \<Rightarrow> nat" where
  "stage_rank RECV_HEADER1 = 1"
| "stage_rank RECV_EXT_PAYLOADLEN = 2"
| "stage_rank RECV_MASKKEY = 3"
| "stage_rank RECV_PAYLOAD = 4"
| "stage_rank _ = 0"

lemma read_header:
  assumes "rx_ok c" and "k \<le> avail_ibuf c"
  shows "rd_block (fc_ibuf c) (fc_ibufmark c) k = Some (take k (buffered c))"
    and "buffered (c\<lparr>fc_ibufmark := fc_ibufmark c + k\<rparr>) = drop k (buffered c)"
    and "rx_ok (c\<lparr>fc_ibufmark := fc_ibufmark c + k\<rparr>)"
  using assms by (auto simp: rd_block_def rx_ok_def buffered_def avail_ibuf_def min_def drop_take add.commute)

lemma read_byte:
  assumes "rx_ok c" and "i < avail_ibuf c"
  shows "rd (fc_ibuf c) (fc_ibufmark c + i) = Some (buffered c ! i)"
  using assms by (auto simp: rd_def rx_ok_def buffered_def avail_ibuf_def)

lemma frame_len7_less: "frame_len7 n < 128"
  by (simp add: frame_len7_def)
lemma byte_of_nat_eq: "a < 256 \<Longrightarrow> b < 256 \<Longrightarrow> (of_nat a :: byte) = of_nat b \<longleftrightarrow> a = b"
  by (simp add: word_unat_eq_iff unat_of_nat)

lemma frame_len7_ext:
  "of_nat (frame_len7 n) = (126 :: byte) \<longleftrightarrow> 126 \<le> n \<and> n < 2 ^ 16"
  "of_nat (frame_len7 n) = (127 :: byte) \<longleftrightarrow> 2 ^ 16 \<le> n"
  "unat (of_nat (frame_len7 n) :: byte) = frame_len7 n"
proof -
  show "unat (of_nat (frame_len7 n) :: byte) = frame_len7 n"
    using frame_len7_less [of n] by (simp add: unat_of_nat)
  show "of_nat (frame_len7 n) = (126 :: byte) \<longleftrightarrow> 126 \<le> n \<and> n < 2 ^ 16"
    using byte_of_nat_eq [of "frame_len7 n" 126] frame_len7_less [of n] by (auto simp: frame_len7_def split: if_splits)
  show "of_nat (frame_len7 n) = (127 :: byte) \<longleftrightarrow> 2 ^ 16 \<le> n"
    using byte_of_nat_eq [of "frame_len7 n" 127] frame_len7_less [of n] by (auto simp: frame_len7_def split: if_splits)
qed

context frame_source
begin

lemma split_unread:
  assumes "rx_ok c" and "unread c n = a @ b" and "length a \<le> avail_ibuf c"
  shows "take (length a) (buffered c) = a" and "drop (length a) (buffered c) @ pending n = b"
proof -
  have l: "length a \<le> length (buffered c)" using assms(1,3) by (simp add: length_buffered)
  have "take (length a) (unread c n) = a" "drop (length a) (unread c n) = b" using assms(2) by simp_all
  then show "take (length a) (buffered c) = a" "drop (length a) (buffered c) @ pending n = b"
    using l by (simp_all add: unread_def)
qed

lemma recv_need_step:
  assumes "cb_recv cb = recv" and ok: "rx_ok ctx" and req: "fc_ireqread ctx \<le> 8"
    and len: "fc_ireqread ctx \<le> length (unread ctx n)"
  shows "\<exists>res. recv_need cb ctx n = Some res \<and>
     (case res of
        Inl (r, c, n') \<Rightarrow> r = WSLAY_ERR_WANT_READ \<and> rx_ok c \<and> same_but_buffer ctx c \<and> unread c n' = unread ctx n \<and>
          budget n' < budget n
      | Inr (c, n') \<Rightarrow> rx_ok c \<and> same_but_buffer ctx c \<and> unread c n' = unread ctx n \<and> budget n' \<le> budget n \<and>
          fc_ireqread ctx \<le> avail_ibuf c)"
proof (cases "avail_ibuf ctx < fc_ireqread ctx")
  case True
  then have room: "avail_ibuf ctx < 4096" using req by simp
  have pend: "pending n \<noteq> []"
    using True len ok by (auto simp: unread_def length_buffered)
  obtain r c n' where r: "wslay_recv cb ctx n = Some (r, c, n')" "rx_ok c" "same_but_buffer ctx c"
     "unread c n' = unread ctx n" "budget n' \<le> budget n"
    and c: "if 0 < r then avail_ibuf c = avail_ibuf ctx + nat r \<and> budget n' < budget n
      else r = WSLAY_ERR_WANT_READ \<and> avail_ibuf c = avail_ibuf ctx \<and> (pending n \<noteq> [] \<longrightarrow> budget n' < budget n)"
    using wslay_recv_step [OF assms(1) ok room, of n] by blast
  have i: "fc_ireqread c = fc_ireqread ctx" using r(3) by (rule same_but_bufferD)
  show ?thesis
    using True r c pend i by (auto simp: recv_need_def split: if_splits)
next
  case False
  then show ?thesis using ok by (simp add: recv_need_def)
qed

definition rx_res where
  "rx_res fr k rest n m res \<longleftrightarrow>
     (case res of
        Inl (r, c, n') \<Rightarrow> r = WSLAY_ERR_WANT_READ \<and> rx_at fr k rest c (unread c n') \<and> budget n' < budget n
      | Inr (c, n') \<Rightarrow> rx_at fr k rest c (unread c n') \<and> budget n' \<le> budget n \<and> m < stage_rank (fc_istate c))"

lemma rx_atD_header:
  assumes "rx_at fr k rest c s" and "fc_istate c = RECV_HEADER1"
  shows "k = 0" "fc_ireqread c = 2" "s = frame_bytes fr @ rest" "rx_ok c"
  using assms by (simp_all add: rx_at_def)

text \<open>The part of \<open>rx_at\<close> after the length of a frame is known.\<close>

lemma rx_at_after_length:
  assumes fr: "frame_ok fr" and "rx_ok c" "fc_imask c = fr_mask fr" "fc_iom_fin c = fr_fin fr" "fc_iom_rsv c = fr_rsv fr"
    "fc_iom_opcode c = fr_opcode fr" "fc_ipayloadlen c = length (fr_payload fr)" "fc_ipayloadoff c = 0"
    and u: "buffered c @ pending n = fr_key fr @ frame_body fr @ rest"
  shows "rx_at fr 0 rest (after_length c) (unread (after_length c) n)"
    and "2 < stage_rank (fc_istate (after_length c))"
proof -
  have "fr_mask fr = 0 \<or> fr_mask fr = 1" using fr by (auto simp: frame_ok_def)
  moreover have "fr_mask fr = 0 \<Longrightarrow> fr_key fr = []" using fr by (simp add: frame_ok_def)
  ultimately show "rx_at fr 0 rest (after_length c) (unread (after_length c) n)"
      "2 < stage_rank (fc_istate (after_length c))"
    using assms(2-) by (auto simp: after_length_def rx_at_def unread_def rx_ok_def buffered_def avail_ibuf_def)
qed

lemma need_stage:
  assumes cb: "cb_recv cb = recv" and at: "rx_at fr k rest ctx (unread ctx n)"
    and req: "fc_ireqread ctx \<le> 8" and len: "fc_ireqread ctx \<le> length (unread ctx n)"
    and go: "\<And>c n'. rx_ok c \<Longrightarrow> same_but_buffer ctx c \<Longrightarrow> unread c n' = unread ctx n \<Longrightarrow> budget n' \<le> budget n \<Longrightarrow>
      fc_ireqread ctx \<le> avail_ibuf c \<Longrightarrow> \<exists>res. g c n' = Some res \<and> rx_res fr k rest n m res"
  shows "\<exists>res. (do { res \<leftarrow> recv_need cb ctx n; case res of Inl ret \<Rightarrow> Some (Inl ret) | Inr (c, n') \<Rightarrow> g c n' }) = Some res \<and>
      rx_res fr k rest n m res"
proof -
  have ok: "rx_ok ctx" using at by (simp add: rx_at_def)
  obtain res where res: "recv_need cb ctx n = Some res"
    and s: "case res of
        Inl (r, c, n') \<Rightarrow> r = WSLAY_ERR_WANT_READ \<and> rx_ok c \<and> same_but_buffer ctx c \<and> unread c n' = unread ctx n \<and>
          budget n' < budget n
      | Inr (c, n') \<Rightarrow> rx_ok c \<and> same_but_buffer ctx c \<and> unread c n' = unread ctx n \<and> budget n' \<le> budget n \<and>
          fc_ireqread ctx \<le> avail_ibuf c"
    using recv_need_step [OF cb ok req len] by auto
  show ?thesis
  proof (cases res)
    case (Inl x)
    obtain r c n' where x: "x = (r, c, n')" by (cases x)
    have "rx_at fr k rest c (unread c n')" using s Inl x rx_at_buffer [OF at] by simp
    then show ?thesis using res s Inl x by (simp add: rx_res_def)
  next
    case (Inr x)
    then show ?thesis using res s go by (cases x) simp
  qed
qed

lemma header1_reads:
  assumes fr: "frame_ok fr" and c: "rx_ok c" "budget n' \<le> budget n" "2 \<le> avail_ibuf c"
    and ur: "unread c n' = frame_bytes fr @ rest"
  shows "\<exists>res. header1_read c n' = Some res \<and> rx_res fr 0 rest n 1 res"
proof -
  let ?len = "length (fr_payload fr)"
  have u: "unread c n' = [frame_b0 fr, frame_b1 fr] @ frame_ext ?len @ fr_key fr @ frame_body fr @ rest"
    using ur by (simp add: frame_bytes_def frame_head_def)
  have t: "take 2 (buffered c) = [frame_b0 fr, frame_b1 fr]"
    "drop 2 (buffered c) @ pending n' = frame_ext ?len @ fr_key fr @ frame_body fr @ rest"
    using split_unread [OF c(1) u] c(3) by (simp_all add: numeral_2_eq_2)
  have b: "buffered c ! 0 = frame_b0 fr" "buffered c ! 1 = frame_b1 fr"
    using t(1) nth_take [of 0 2 "buffered c"] nth_take [of 1 2 "buffered c"] by simp_all
  have rds: "rd (fc_ibuf c) (fc_ibufmark c) = Some (frame_b0 fr)"
    "rd (fc_ibuf c) (fc_ibufmark c + 1) = Some (frame_b1 fr)"
    using read_byte [OF c(1), of 0] read_byte [OF c(1), of 1] c(3) b by simp_all
  have fld: "drop_bit 7 (frame_b0 fr) AND 1 = fr_fin fr" "drop_bit 4 (frame_b0 fr) AND 7 = fr_rsv fr"
    "frame_b0 fr AND 0xf = fr_opcode fr"
    using fr bit_frame_fields [of "fr_fin fr" "fr_rsv fr" "fr_opcode fr"] by (auto simp: frame_b0_def frame_ok_def)
  have fld1: "drop_bit 7 (frame_b1 fr) AND 1 = fr_mask fr" "frame_b1 fr AND 0x7f = of_nat (frame_len7 ?len)"
    using fr bit_frame_length [of "fr_mask fr" "frame_len7 ?len"] frame_len7_less by (auto simp: frame_b1_def frame_ok_def)
  let ?c = "c\<lparr>fc_iom_opcode := fr_opcode fr, fc_iom_fin := fr_fin fr, fc_iom_rsv := fr_rsv fr,
              fc_imask := fr_mask fr, fc_ibufmark := fc_ibufmark c + 2\<rparr>"
  have ctl: "\<not> (wslay_is_ctrl_frame (fr_opcode fr) \<and> (125 < frame_len7 ?len \<or> fr_fin fr = 0))"
    using fr by (auto simp: frame_ok_def frame_len7_def)
  have ok: "rx_ok ?c" and bf: "buffered ?c = drop 2 (buffered c)"
    using read_header [OF c(1,3)] by (simp_all add: rx_ok_def buffered_def avail_ibuf_def)
  consider "?len < 126" | "126 \<le> ?len" "?len < 2 ^ 16" | "2 ^ 16 \<le> ?len" by linarith
  then show ?thesis
  proof cases
    case 1
    have l: "of_nat (frame_len7 ?len) \<noteq> (126 :: byte)" "of_nat (frame_len7 ?len) \<noteq> (127 :: byte)" "frame_len7 ?len = ?len"
        "unat (of_nat ?len :: byte) = ?len"
      using 1 frame_len7_ext [of ?len] by (simp_all add: frame_len7_def unat_of_nat)
    have e: "frame_ext ?len = []" using 1 by (simp add: frame_ext_def)
    have bd: "buffered (?c\<lparr>fc_ipayloadlen := ?len, fc_ipayloadoff := 0\<rparr>) @ pending n' = fr_key fr @ frame_body fr @ rest"
      using bf t(2) e by (simp add: buffered_def avail_ibuf_def)
    have okd: "rx_ok (?c\<lparr>fc_ipayloadlen := ?len, fc_ipayloadoff := 0\<rparr>)" using ok by (simp add: rx_ok_def)
    have "header1_read c n' = Some (Inr (after_length (?c\<lparr>fc_ipayloadlen := ?len, fc_ipayloadoff := 0\<rparr>), n'))"
      unfolding header1_read_def using rds fld fld1 ctl l
      by (simp add: frame_len7_ext(3) Let_def)
    then show ?thesis
      using rx_at_after_length [OF fr okd _ _ _ _ _ _ bd] c(2) by (auto simp: rx_res_def)
  next
    case 2
    have l: "of_nat (frame_len7 ?len) = (126 :: byte)" using 2 frame_len7_ext(1) [of ?len] by simp
    have nc: "\<not> wslay_is_ctrl_frame (fr_opcode fr)" using fr 2 by (auto simp: frame_ok_def)
    have "header1_read c n' = Some (Inr (?c\<lparr>fc_istate := RECV_EXT_PAYLOADLEN, fc_ireqread := 2\<rparr>, n'))"
      unfolding header1_read_def using rds fld fld1 nc l
      by (simp add: frame_len7_ext(3) Let_def)
    moreover have "frame_ext ?len = be_bytes 2 ?len" using 2 by (simp add: frame_ext_def)
    ultimately show ?thesis
      using ok bf t(2) 2 c(2) by (simp add: rx_res_def rx_at_def rx_ok_def unread_def buffered_def avail_ibuf_def)
  next
    case 3
    have l: "of_nat (frame_len7 ?len) = (127 :: byte)" using 3 frame_len7_ext(2) [of ?len] by simp
    have nc: "\<not> wslay_is_ctrl_frame (fr_opcode fr)" using fr 3 by (auto simp: frame_ok_def)
    have "header1_read c n' = Some (Inr (?c\<lparr>fc_istate := RECV_EXT_PAYLOADLEN, fc_ireqread := 8\<rparr>, n'))"
      unfolding header1_read_def using rds fld fld1 nc l
      by (simp add: frame_len7_ext(3) Let_def)
    moreover have "frame_ext ?len = be_bytes 8 ?len" using 3 by (simp add: frame_ext_def)
    ultimately show ?thesis
      using ok bf t(2) 3 c(2) by (simp add: rx_res_def rx_at_def rx_ok_def unread_def buffered_def avail_ibuf_def)
  qed
qed

lemma header1_stage:
  assumes cb: "cb_recv cb = recv" and fr: "frame_ok fr" and at: "rx_at fr k rest ctx (unread ctx n)"
    and st: "fc_istate ctx = RECV_HEADER1"
  shows "\<exists>res. recv_header1 cb ctx n = Some res \<and> rx_res fr k rest n 1 res"
proof -
  note h = rx_atD_header [OF at st]
  have len: "fc_ireqread ctx \<le> length (unread ctx n)" using h by (simp add: frame_bytes_def frame_head_def)
  show ?thesis
    unfolding recv_header1_def h(1)
    by (rule need_stage [OF cb at [unfolded h(1)] _ len]) (use h header1_reads [OF fr] in simp_all)
qed

lemma ext_stage:
  assumes cb: "cb_recv cb = recv" and fr: "frame_ok fr" and at: "rx_at fr k rest ctx (unread ctx n)"
    and st: "fc_istate ctx = RECV_EXT_PAYLOADLEN"
  shows "\<exists>res. recv_ext_payloadlen cb ctx n = Some res \<and> rx_res fr k rest n 2 res"
proof -
  let ?len = "length (fr_payload fr)" and ?ext = "frame_ext (length (fr_payload fr))"
  have h: "k = 0" "126 \<le> ?len" "fc_ireqread ctx = length ?ext" "fc_iom_fin ctx = fr_fin fr" "fc_iom_rsv ctx = fr_rsv fr"
    "fc_iom_opcode ctx = fr_opcode fr" "fc_imask ctx = fr_mask fr" "unread ctx n = ?ext @ fr_key fr @ frame_body fr @ rest"
    using at st by (simp_all add: rx_at_def)
  have l8: "length ?ext = (if ?len < 2 ^ 16 then 2 else 8)" using h(2) by (simp add: frame_ext_def)
  have v: "be_val ?ext = ?len"
    using fr h(2) be_val_be_bytes [of ?len 2] be_val_be_bytes [of ?len 8] by (simp add: frame_ext_def frame_ok_def)
  have l63: "?len < 2 ^ 63" using fr by (simp add: frame_ok_def)
  show ?thesis
    unfolding recv_ext_payloadlen_def
  proof (rule need_stage [OF cb at])
    show "fc_ireqread ctx \<le> 8" "fc_ireqread ctx \<le> length (unread ctx n)" using h l8 by simp_all
    fix c n'
    assume c: "rx_ok c" "same_but_buffer ctx c" "unread c n' = unread ctx n" "budget n' \<le> budget n" "fc_ireqread ctx \<le> avail_ibuf c"
    have a: "length ?ext \<le> avail_ibuf c" using c(5) h(3) by simp
    note t = split_unread [OF c(1) c(3) [unfolded h(8)] a]
    note rd = read_header [OF c(1) a, unfolded t(1)]
    let ?c = "c\<lparr>fc_ipayloadlen := ?len, fc_ipayloadoff := 0, fc_ibufmark := fc_ibufmark c + length ?ext\<rparr>"
    have ok: "rx_ok ?c" using rd(3) by (simp add: rx_ok_def)
    have bf: "buffered ?c @ pending n' = fr_key fr @ frame_body fr @ rest"
      using rd(2) t(2) by (simp add: buffered_def avail_ibuf_def)
    note f = same_but_bufferD [OF c(2)]
    have "rx_res fr k rest n 2 (Inr (after_length ?c, n'))"
      using rx_at_after_length [OF fr ok _ _ _ _ _ _ bf] h f c(4) by (simp add: rx_res_def)
    moreover have "\<not> (length ?ext = 8 \<and> (?len < 2 ^ 16 \<or> 2 ^ 63 \<le> ?len) \<or> length ?ext \<noteq> 8 \<and> ?len < 126)"
      using l8 h(2) l63 by (simp split: if_splits)
    ultimately show "\<exists>res. (do {
         bs \<leftarrow> rd_block (fc_ibuf c) (fc_ibufmark c) (fc_ireqread c);
         let len = be_val bs;
         let ctx = c\<lparr>fc_ipayloadlen := len, fc_ipayloadoff := 0, fc_ibufmark := fc_ibufmark c + fc_ireqread c\<rparr>;
         if fc_ireqread ctx = 8 \<and> (len < 2 ^ 16 \<or> len \<ge> 2 ^ 63) \<or> fc_ireqread ctx \<noteq> 8 \<and> len < 126
         then Some (Inl (WSLAY_ERR_PROTO, ctx, n'))
         else Some (Inr (after_length ctx, n'))
       }) = Some res \<and> rx_res fr k rest n 2 res"
      using rd(1) f(2) h(3) v by (auto simp: Let_def)
  qed
qed

lemma maskkey_stage:
  assumes cb: "cb_recv cb = recv" and fr: "frame_ok fr" and at: "rx_at fr k rest ctx (unread ctx n)"
    and st: "fc_istate ctx = RECV_MASKKEY"
  shows "\<exists>res. recv_maskkey cb ctx n = Some res \<and> rx_res fr k rest n 3 res"
proof -
  have h: "k = 0" "fr_mask fr = 1" "fc_ireqread ctx = 4" "fc_iom_fin ctx = fr_fin fr" "fc_iom_rsv ctx = fr_rsv fr"
    "fc_iom_opcode ctx = fr_opcode fr" "fc_imask ctx = fr_mask fr" "fc_ipayloadlen ctx = length (fr_payload fr)"
    "fc_ipayloadoff ctx = 0" "unread ctx n = fr_key fr @ frame_body fr @ rest"
    using at st by (simp_all add: rx_at_def)
  have k4: "length (fr_key fr) = 4" using fr h(2) by (simp add: frame_ok_def)
  show ?thesis
    unfolding recv_maskkey_def
  proof (rule need_stage [OF cb at])
    show "fc_ireqread ctx \<le> 8" "fc_ireqread ctx \<le> length (unread ctx n)" using h k4 by simp_all
    fix c n'
    assume c: "rx_ok c" "same_but_buffer ctx c" "unread c n' = unread ctx n" "budget n' \<le> budget n" "fc_ireqread ctx \<le> avail_ibuf c"
    have a: "length (fr_key fr) \<le> avail_ibuf c" using c(5) h(3) k4 by simp
    note t = split_unread [OF c(1) c(3) [unfolded h(10)] a]
    note rd = read_header [OF c(1) a, unfolded t(1), unfolded k4]
    note f = same_but_bufferD [OF c(2)]
    let ?c = "c\<lparr>fc_imaskkey := fr_key fr, fc_ibufmark := fc_ibufmark c + 4, fc_istate := RECV_PAYLOAD\<rparr>"
    have "rx_at fr 0 rest ?c (unread ?c n')"
      using rd(2,3) t(2) k4 h f by (simp add: rx_at_def rx_ok_def unread_def buffered_def avail_ibuf_def)
    then show "\<exists>res. (do {
         key \<leftarrow> rd_block (fc_ibuf c) (fc_ibufmark c) 4;
         Some (Inr (c\<lparr>fc_imaskkey := key, fc_ibufmark := fc_ibufmark c + 4, fc_istate := RECV_PAYLOAD\<rparr>, n'))
       }) = Some res \<and> rx_res fr k rest n 3 res"
      using rd(1) h(1) c(4) by (simp add: rx_res_def)
  qed
qed

lemma stage_compose:
  assumes res: "rx_res fr k rest n m s" and m: "stage_rank st = m'" "m' = Suc m"
    and f: "\<And>ctx n. rx_at fr k rest ctx (unread ctx n) \<Longrightarrow> fc_istate ctx = st \<Longrightarrow>
      \<exists>res. f ctx n = Some res \<and> rx_res fr k rest n m' res"
  shows "\<exists>res. recv_stage st f s = Some res \<and> rx_res fr k rest n m' res"
proof (cases s)
  case (Inl x)
  then show ?thesis using res by (cases x) (simp add: recv_stage_def rx_res_def)
next
  case (Inr x)
  obtain c n' where x: "x = (c, n')" by (cases x)
  have c: "rx_at fr k rest c (unread c n')" "budget n' \<le> budget n" "m < stage_rank (fc_istate c)"
    using res Inr x by (simp_all add: rx_res_def)
  show ?thesis
  proof (cases "fc_istate c = st")
    case True
    then obtain res where "f c n' = Some res" "rx_res fr k rest n' m' res" using f c(1) by blast
    then show ?thesis using True Inr x c(2) by (auto simp: recv_stage_def rx_res_def split: sum.splits)
  next
    case False
    then have "m' < stage_rank (fc_istate c)" using c(3) m by (cases "fc_istate c"; cases st) simp_all
    then show ?thesis using False Inr x c by (simp add: recv_stage_def rx_res_def)
  qed
qed

end

text \<open>What a call that returns data hands over, and a context between two frames.\<close>

definition iocb_bytes :: "wslay_frame_iocb \<Rightarrow> byte list" where
  "iocb_bytes iocb = take (io_data_length iocb) (drop (nat (io_data iocb)) (io_buf iocb))"

definition iocb_frame :: "ws_frame \<Rightarrow> wslay_frame_iocb \<Rightarrow> bool" where
  "iocb_frame fr iocb \<longleftrightarrow> io_fin iocb = fr_fin fr \<and> io_rsv iocb = fr_rsv fr \<and> io_opcode iocb = fr_opcode fr \<and>
     io_mask iocb = fr_mask fr \<and> io_payload_length iocb = length (fr_payload fr)"

definition rx_idle :: "wslay_frame_context \<Rightarrow> bool" where
  "rx_idle ctx \<longleftrightarrow> rx_ok ctx \<and> fc_istate ctx = RECV_HEADER1 \<and> fc_ireqread ctx = 2"

lemma unmask_body:
  assumes "frame_ok fr"
  shows "(if fr_mask fr \<noteq> 0 then mask_from (fr_key fr) k (take j (drop k (frame_body fr)))
          else take j (drop k (frame_body fr))) = take j (drop k (fr_payload fr))"
  using mask_from_drop [of k "fr_key fr" 0 "fr_payload fr"] mask_from_take [of j "fr_key fr" k "drop k (fr_payload fr)"]
  by (simp add: frame_body_def)

lemma unmask_in_place:
  assumes "rx_ok c" and j: "j \<le> avail_ibuf c" and bs: "length bs = j"
  shows "\<exists>buf. wr_block (fc_ibuf c) (int (fc_ibufmark c)) bs = Some buf \<and> length buf = 4096 \<and>
     take j (drop (fc_ibufmark c) buf) = bs \<and> drop (fc_ibufmark c + j) buf = drop (fc_ibufmark c + j) (fc_ibuf c)"
proof -
  have l: "length (fc_ibuf c) = 4096" "fc_ibufmark c + j \<le> 4096"
    using assms(1,2) by (auto simp: rx_ok_def avail_ibuf_def)
  let ?buf = "take (fc_ibufmark c) (fc_ibuf c) @ bs @ drop (fc_ibufmark c + j) (fc_ibuf c)"
  have m: "length (take (fc_ibufmark c) (fc_ibuf c)) = fc_ibufmark c" using l by simp
  have "wr_block (fc_ibuf c) (int (fc_ibufmark c)) bs = Some ?buf" using l bs by (simp add: wr_block_def)
  moreover have "length ?buf = 4096" using l bs by simp
  moreover have "take j (drop (fc_ibufmark c) ?buf) = bs" using m bs by simp
  moreover have "drop (fc_ibufmark c + j) ?buf = drop (fc_ibufmark c + j) (fc_ibuf c)" using m bs by simp
  ultimately show ?thesis by blast
qed

context frame_source
begin

definition rx_out where
  "rx_out fr k rest n out \<longleftrightarrow>
     (case out of (r, c, iocb, n') \<Rightarrow>
        r = WSLAY_ERR_WANT_READ \<and> rx_at fr k rest c (unread c n') \<and> budget n' < budget n \<or>
        (\<exists>j. r = int j \<and> k + j \<le> length (fr_payload fr) \<and> budget n' \<le> budget n \<and> iocb_frame fr iocb \<and>
             io_data_length iocb = j \<and> iocb_bytes iocb = take j (drop k (fr_payload fr)) \<and>
             (if k + j = length (fr_payload fr) then rx_idle c \<and> unread c n' = rest
              else 0 < j \<and> rx_at fr (k + j) rest c (unread c n'))))"

lemma rx_out_mono: "rx_out fr k rest n' out \<Longrightarrow> budget n' \<le> budget n \<Longrightarrow> rx_out fr k rest n out"
  unfolding rx_out_def by (cases out) (force elim: order.strict_trans2 order.trans)

lemma payload_deliver:
  assumes fr: "frame_ok fr" and at: "rx_at fr k rest c (unread c n')" and st: "fc_istate c = RECV_PAYLOAD"
    and av: "0 < avail_ibuf c \<or> k = length (fr_payload fr)" and bud: "budget n' \<le> budget n"
  shows "\<exists>out. payload_take c iocb n' (length (fr_payload fr) - k) = Some out \<and> rx_out fr k rest n out"
proof -
  let ?len = "length (fr_payload fr)"
  define j where "j = min (avail_ibuf c) (length (fr_payload fr) - k)"
  have h: "k \<le> ?len" "rx_ok c" "fc_iom_fin c = fr_fin fr" "fc_iom_rsv c = fr_rsv fr" "fc_iom_opcode c = fr_opcode fr"
    "fc_imask c = fr_mask fr" "fc_ipayloadlen c = ?len" "fc_ipayloadoff c = k"
    "fr_mask fr = 1 \<longrightarrow> fc_imaskkey c = fr_key fr" "unread c n' = drop k (frame_body fr) @ rest"
    using at st by (simp_all add: rx_at_def)
  have u: "unread c n' = take j (drop k (frame_body fr)) @ drop j (drop k (frame_body fr)) @ rest"
    using h(10) by (metis append.assoc append_take_drop_id)
  have j: "j \<le> avail_ibuf c" "j \<le> ?len - k" "k + j \<le> ?len" "k + j \<noteq> ?len \<Longrightarrow> 0 < j"
    using av h(1) by (auto simp: j_def)
  have tl: "length (take j (drop k (frame_body fr))) = j" using j by simp
  have t: "take j (buffered c) = take j (drop k (frame_body fr))"
     "drop j (buffered c) @ pending n' = drop j (drop k (frame_body fr)) @ rest"
    using split_unread [OF h(2) u] j(1) unfolding tl by simp_all
  have rd: "rd_block (fc_ibuf c) (fc_ibufmark c) j = Some (take j (drop k (frame_body fr)))"
    using read_header(1) [OF h(2) j(1)] t(1) by simp
  let ?bs = "take j (drop k (fr_payload fr))"
  have bs: "(if fc_imask c \<noteq> 0 then mask_from (fc_imaskkey c) (fc_ipayloadoff c) (take j (drop k (frame_body fr)))
             else take j (drop k (frame_body fr))) = ?bs"
  proof -
    have "fr_mask fr = 0 \<or> fr_mask fr = 1" using fr by (auto simp: frame_ok_def)
    then show ?thesis using unmask_body [OF fr, of k j] h(6,8,9) by auto
  qed
  have lbs: "length ?bs = j" using j by simp
  obtain buf where b: "wr_block (fc_ibuf c) (int (fc_ibufmark c)) ?bs = Some buf" "length buf = 4096"
    "take j (drop (fc_ibufmark c) buf) = ?bs" "drop (fc_ibufmark c + j) buf = drop (fc_ibufmark c + j) (fc_ibuf c)"
    using unmask_in_place [OF h(2) j(1) lbs] by auto
  let ?c = "c\<lparr>fc_ibuf := buf, fc_ibufmark := fc_ibufmark c + j, fc_ipayloadoff := k + j\<rparr>"
  let ?d = "if ?len = k + j then ?c\<lparr>fc_istate := RECV_HEADER1, fc_ireqread := 2\<rparr> else ?c"
  let ?io = "iocb\<lparr>io_fin := fr_fin fr, io_rsv := fr_rsv fr, io_opcode := fr_opcode fr, io_payload_length := ?len,
      io_mask := fr_mask fr, io_buf := buf, io_data := int (fc_ibufmark c), io_data_length := j\<rparr>"
  have run: "payload_take c iocb n' (length (fr_payload fr) - k) = Some (int j, ?d, ?io, n')"
    unfolding payload_take_def Let_def j_def [symmetric] rd bind.bind_lunit bs b(1) using h by simp
  have ok: "rx_ok ?c" using h(2) b(2) j(1) by (auto simp: rx_ok_def avail_ibuf_def)
  have "buffered ?c = take (fc_ibuflimit c - (fc_ibufmark c + j)) (drop (fc_ibufmark c + j) (fc_ibuf c))"
    using b(4) by (simp add: buffered_def avail_ibuf_def)
  also have "\<dots> = drop j (buffered c)"
    by (simp add: buffered_def avail_ibuf_def drop_take add.commute)
  finally have bd: "buffered ?c = drop j (buffered c)" .
  have un: "unread ?d n' = drop (k + j) (frame_body fr) @ rest"
    using bd t(2) by (auto simp: unread_def buffered_def avail_ibuf_def add.commute)
  have "rx_out fr k rest n (int j, ?d, ?io, n')"
  proof (cases "k + j = ?len")
    case True
    then have "rx_idle ?d" "unread ?d n' = rest" using ok un by (auto simp: rx_idle_def rx_ok_def)
    then show ?thesis using True b(3) bud by (auto simp: rx_out_def iocb_frame_def iocb_bytes_def)
  next
    case False
    have "rx_at fr (k + j) rest ?d (unread ?d n')"
      unfolding un using False h st ok j by (simp add: rx_at_def rx_ok_def)
    then show ?thesis
      unfolding rx_out_def prod.case
      by (intro disjI2 exI [of _ j]) (use False b(3) bud j in \<open>simp add: iocb_frame_def iocb_bytes_def\<close>)
  qed
  then show ?thesis using run by blast
qed

lemma payload_stage:
  assumes cb: "cb_recv cb = recv" and fr: "frame_ok fr" and at: "rx_at fr k rest ctx (unread ctx n)"
    and st: "fc_istate ctx = RECV_PAYLOAD"
  shows "\<exists>out. recv_payload cb ctx iocb n = Some out \<and> rx_out fr k rest n out"
proof -
  let ?len = "length (fr_payload fr)"
  have h: "rx_ok ctx" "k \<le> ?len" "fc_ipayloadlen ctx = ?len" "fc_ipayloadoff ctx = k"
    using at st by (simp_all add: rx_at_def)
  show ?thesis
  proof (cases "avail_ibuf ctx = 0 \<and> 0 < ?len - k")
    case True
    then have room: "avail_ibuf ctx < 4096" by simp
    have pend: "pending n \<noteq> []"
      using True at st length_buffered [OF h(1)] by (auto simp: rx_at_def unread_def)
    obtain r c n' where r: "wslay_recv cb ctx n = Some (r, c, n')" "rx_ok c" "same_but_buffer ctx c"
       "unread c n' = unread ctx n" "budget n' \<le> budget n"
      and c: "if 0 < r then avail_ibuf c = avail_ibuf ctx + nat r \<and> budget n' < budget n
        else r = WSLAY_ERR_WANT_READ \<and> avail_ibuf c = avail_ibuf ctx \<and> (pending n \<noteq> [] \<longrightarrow> budget n' < budget n)"
      using wslay_recv_step [OF cb h(1) room, of n] by blast
    have at': "rx_at fr k rest c (unread c n')" using rx_at_buffer [OF at r(3,2)] r(4) by simp
    show ?thesis
    proof (cases "0 < r")
      case True
      have "\<exists>out. payload_take c iocb n' (?len - k) = Some out \<and> rx_out fr k rest n out"
        using payload_deliver [OF fr at' _ _ r(5)] same_but_bufferD(1) [OF r(3)] st c True by simp
      then show ?thesis using \<open>avail_ibuf ctx = 0 \<and> 0 < ?len - k\<close> r(1) True h by (simp add: recv_payload_def)
    next
      case False
      then show ?thesis
        using \<open>avail_ibuf ctx = 0 \<and> 0 < ?len - k\<close> r(1) c h pend at' by (simp add: recv_payload_def rx_out_def)
    qed
  next
    case False
    then have "0 < avail_ibuf ctx \<or> k = ?len" using h(2) by auto
    then have "\<exists>out. payload_take ctx iocb n (?len - k) = Some out \<and> rx_out fr k rest n out"
      using payload_deliver [OF fr at st _ order_refl] by blast
    moreover have "recv_payload cb ctx iocb n = payload_take ctx iocb n (?len - k)"
      using h(3,4) False by (auto simp: recv_payload_def)
    ultimately show ?thesis by simp
  qed
qed

lemma frame_recv_step:
  assumes cb: "cb_recv cb = recv" and fr: "frame_ok fr" and at: "rx_at fr k rest ctx (unread ctx n)"
  shows "\<exists>out. wslay_frame_recv cb ctx iocb n = Some out \<and> rx_out fr k rest n out"
proof -
  have "0 < stage_rank (fc_istate ctx)" using at by (auto simp: rx_at_def split: wslay_frame_state.splits)
  then have s0: "rx_res fr k rest n 0 (Inr (ctx, n))" using at by (simp add: rx_res_def)
  have "\<exists>s1. recv_stage RECV_HEADER1 (recv_header1 cb) (Inr (ctx, n)) = Some s1 \<and> rx_res fr k rest n 1 s1"
    by (rule stage_compose [OF s0 _ _ header1_stage [OF cb fr]]) simp_all
  then obtain s1 where s1: "recv_stage RECV_HEADER1 (recv_header1 cb) (Inr (ctx, n)) = Some s1" "rx_res fr k rest n 1 s1"
    by blast
  have "\<exists>s2. recv_stage RECV_EXT_PAYLOADLEN (recv_ext_payloadlen cb) s1 = Some s2 \<and> rx_res fr k rest n 2 s2"
    by (rule stage_compose [OF s1(2) _ _ ext_stage [OF cb fr]]) simp_all
  then obtain s2 where s2: "recv_stage RECV_EXT_PAYLOADLEN (recv_ext_payloadlen cb) s1 = Some s2" "rx_res fr k rest n 2 s2"
    by blast
  have "\<exists>s3. recv_stage RECV_MASKKEY (recv_maskkey cb) s2 = Some s3 \<and> rx_res fr k rest n 3 s3"
    by (rule stage_compose [OF s2(2) _ _ maskkey_stage [OF cb fr]]) simp_all
  then obtain s3 where s3: "recv_stage RECV_MASKKEY (recv_maskkey cb) s2 = Some s3" "rx_res fr k rest n 3 s3"
    by blast
  show ?thesis
  proof (cases s3)
    case (Inl x)
    then show ?thesis using s1 s2 s3 by (cases x) (simp add: wslay_frame_recv_def rx_res_def rx_out_def)
  next
    case (Inr x)
    obtain c n' where x: "x = (c, n')" by (cases x)
    have c: "rx_at fr k rest c (unread c n')" "budget n' \<le> budget n" "3 < stage_rank (fc_istate c)"
      using s3(2) Inr x by (simp_all add: rx_res_def)
    then have st: "fc_istate c = RECV_PAYLOAD" by (cases "fc_istate c") simp_all
    obtain out where out: "recv_payload cb c iocb n' = Some out" "rx_out fr k rest n' out"
      using payload_stage [OF cb fr c(1) st] by blast
    have "wslay_frame_recv cb ctx iocb n = Some out"
      using s1(1) s2(1) s3(1) Inr x st out(1) by (simp add: wslay_frame_recv_def)
    then show ?thesis using rx_out_mono [OF out(2) c(2)] by blast
  qed
qed

end

section \<open>Sending: the frame goes out whole however it is written\<close>

text \<open>
  What a send callback promises: it takes a prefix of what it is offered, adds it to the
  stream \<open>wire\<close>, and refuses only finitely often (\<open>wticks\<close>).
\<close>

locale frame_sink =
  fixes send :: "'n \<Rightarrow> byte list \<Rightarrow> (int \<times> 'n) option"
    and wire :: "'n \<Rightarrow> byte list"
    and wticks :: "'n \<Rightarrow> nat"
  assumes send_law: "bs \<noteq> [] \<Longrightarrow> \<exists>r n'. send n bs = Some (r, n') \<and>
      (if 0 < r then nat r \<le> length bs \<and> wire n' = wire n @ take (nat r) bs \<and> wticks n' \<le> wticks n
       else wire n' = wire n \<and> wticks n' < wticks n)"

text \<open>
  A context with \<open>sent\<close> bytes of the frame on the wire, and the buffer that holds the payload at
  \<open>d\<close> with the header in front of it.
\<close>

definition tx_at :: "ws_frame \<Rightarrow> nat \<Rightarrow> nat \<Rightarrow> wslay_frame_context \<Rightarrow> byte list \<Rightarrow> bool" where
  "tx_at fr d sent ctx buf \<longleftrightarrow>
     fc_ostate ctx = SEND_PAYLOAD \<and> sent \<le> length (frame_bytes fr) \<and> length (frame_head fr) \<le> d \<and>
     fc_hdrtow ctx = length (frame_head fr) - sent \<and> fc_opayloadoff ctx = sent \<and>
     fc_opayloadlen ctx = length (frame_bytes fr) \<and> (fc_omask ctx \<noteq> 0 \<longleftrightarrow> fr_mask fr = 1) \<and>
     (fr_mask fr = 1 \<longrightarrow> fc_omaskkey ctx = fr_key fr \<and> fc_opayloadmaskoff ctx = sent - length (frame_head fr)) \<and>
     take (length (frame_bytes fr)) (drop (d - length (frame_head fr)) buf) = frame_head fr @ fr_payload fr"

lemma length_frame_bytes: "length (frame_bytes fr) = length (frame_head fr) + length (fr_payload fr)"
  by (simp add: frame_bytes_def)

text \<open>What \<open>temp\<close> is filled with is the next part of the frame.\<close>

lemma mask_block:
  assumes mask: "fr_mask fr = 1" and key: "fc_omaskkey ctx = fr_key fr"
    and h: "fc_hdrtow ctx = length (frame_head fr) - sent" and off: "fc_opayloadmaskoff ctx = sent - length (frame_head fr)"
  shows "fill_temp ctx (take w (drop sent (frame_head fr @ fr_payload fr))) = take w (drop sent (frame_bytes fr))"
proof -
  let ?H = "length (frame_head fr)"
  have body: "frame_body fr = mask_from (fr_key fr) 0 (fr_payload fr)" using mask by (simp add: frame_body_def)
  show ?thesis
  proof (cases "sent \<le> ?H")
    case True
    then show ?thesis
      using h off key by (simp add: fill_temp_def frame_bytes_def body take_drop mask_from_take min_def)
  next
    case False
    then have "fc_hdrtow ctx = 0" using h by simp
    then show ?thesis
      using False off key by (simp add: fill_temp_def frame_bytes_def body mask_from_take mask_from_drop)
  qed
qed

lemma tx_read:
  assumes "tx_at fr d sent ctx buf" and "sent + w \<le> length (frame_bytes fr)"
  shows "rd_block buf (d - length (frame_head fr) + sent) w = Some (take w (drop sent (frame_head fr @ fr_payload fr)))"
proof -
  let ?H = "length (frame_head fr)" and ?F = "length (frame_bytes fr)"
  have t: "take ?F (drop (d - ?H) buf) = frame_head fr @ fr_payload fr" using assms(1) by (simp add: tx_at_def)
  then have "length (take ?F (drop (d - ?H) buf)) = ?F" by (simp add: length_frame_bytes)
  then have l: "d - ?H + ?F \<le> length buf" by (cases "d - ?H \<le> length buf") (auto simp: length_frame_bytes frame_head_def)
  have "take w (drop sent (take ?F (drop (d - ?H) buf))) = take w (drop sent (drop (d - ?H) buf))"
    using assms(2) by (simp add: drop_take min_def)
  then show ?thesis using t l assms(2) by (simp add: rd_block_def add.commute)
qed

text \<open>The bookkeeping after \<open>r\<close> bytes were taken.\<close>

definition tx_advance :: "nat \<Rightarrow> wslay_frame_context \<Rightarrow> wslay_frame_context" where
  "tx_advance r ctx = ctx\<lparr>fc_opayloadoff := fc_opayloadoff ctx + r,
      fc_opayloadmaskoff := fc_opayloadmaskoff ctx + r - min (fc_hdrtow ctx) r\<rparr>"

lemma tx_sent:
  assumes tx: "tx_at fr d sent ctx buf" and r: "sent + r \<le> length (frame_bytes fr)"
    and s: "sent_header r (c, iocb, tot) = (c', iocb', tot')"
    and c: "c = tx_advance r ctx \<or> fr_mask fr \<noteq> 1 \<and> c = ctx\<lparr>fc_opayloadoff := fc_opayloadoff ctx + r\<rparr>"
  shows "tx_at fr d (sent + r) c' buf" and "io_buf iocb' = io_buf iocb"
    and "tot' = tot - int (min (length (frame_head fr) - sent) r)"
proof -
  have h: "fc_hdrtow c = length (frame_head fr) - sent" using tx c by (auto simp: tx_at_def tx_advance_def)
  then have c': "c' = c\<lparr>fc_hdrtow := length (frame_head fr) - (sent + r)\<rparr>"
    using s by (auto simp: sent_header_def Let_def min_def split: if_splits)
  show "tx_at fr d (sent + r) c' buf"
    unfolding c' using tx r c by (auto simp: tx_at_def tx_advance_def min_def)
  show "io_buf iocb' = io_buf iocb" using s by (auto simp: sent_header_def Let_def split: if_splits)
  show "tot' = tot - int (min (length (frame_head fr) - sent) r)"
    using s h by (auto simp: sent_header_def Let_def split: if_splits)
qed

context frame_sink
begin

text \<open>The bytes from \<open>sent\<close> to \<open>s\<close> of the frame have gone out.\<close>

definition tx_out :: "ws_frame \<Rightarrow> nat \<Rightarrow> nat \<Rightarrow> 'n \<Rightarrow> 'n \<Rightarrow> bool" where
  "tx_out fr sent s n n' \<longleftrightarrow> sent \<le> s \<and> s \<le> length (frame_bytes fr) \<and>
     wire n' = wire n @ take (s - sent) (drop sent (frame_bytes fr)) \<and>
     wticks n' \<le> wticks n"

definition tx_progress :: "nat \<Rightarrow> nat \<Rightarrow> 'n \<Rightarrow> 'n \<Rightarrow> bool" where
  "tx_progress sent s n n' \<longleftrightarrow> sent < s \<or> wticks n' < wticks n"

lemma tx_out_trans:
  assumes "tx_out fr a b n n'" and "tx_out fr b c n' n''"
  shows "tx_out fr a c n n''"
proof -
  have le: "a \<le> b" "b \<le> c" using assms by (simp_all add: tx_out_def)
  have "take (c - a) (drop a (frame_bytes fr)) =
      take (b - a) (drop a (frame_bytes fr)) @ take (c - b) (drop b (frame_bytes fr))"
    using le take_add [of "b - a" "c - b" "drop a (frame_bytes fr)"] by simp
  then show ?thesis using assms le by (simp add: tx_out_def)
qed

lemma send_step:
  assumes "cb_send cb = send" and "sent + w \<le> length (frame_bytes fr)" and "0 < w"
  shows "\<exists>r n'. cb_send cb n (take w (drop sent (frame_bytes fr))) = Some (r, n') \<and>
     (if 0 < r then nat r \<le> w \<and> tx_out fr sent (sent + nat r) n n' else tx_out fr sent sent n n' \<and> wticks n' < wticks n)"
proof -
  have l: "length (take w (drop sent (frame_bytes fr))) = w" using assms(2) by simp
  then have "take w (drop sent (frame_bytes fr)) \<noteq> []" using assms(3) by auto
  from send_law [OF this, of n] obtain r n' where "send n (take w (drop sent (frame_bytes fr))) = Some (r, n')"
    "if 0 < r then nat r \<le> w \<and> wire n' = wire n @ take (nat r) (take w (drop sent (frame_bytes fr))) \<and> wticks n' \<le> wticks n
       else wire n' = wire n \<and> wticks n' < wticks n"
    unfolding l by blast
  then show ?thesis
    using assms by (intro exI [of _ r] exI [of _ n']) (auto simp: tx_out_def min_def split: if_splits)
qed

text \<open>How a send ends: refused before a byte of payload went out, or \<open>tot\<close> bytes of payload further.\<close>

definition tx_end ::
  "ws_frame \<Rightarrow> nat \<Rightarrow> nat \<Rightarrow> nat \<Rightarrow> byte list \<Rightarrow> 'n \<Rightarrow>
   ((int \<times> wslay_frame_context \<times> wslay_frame_iocb \<times> 'n) + (wslay_frame_context \<times> wslay_frame_iocb \<times> int \<times> 'n)) \<Rightarrow> bool" where
  "tx_end fr d k0 sent buf n res \<longleftrightarrow>
     (case res of
        Inl (r, c, iocb, n') \<Rightarrow> r = WSLAY_ERR_WANT_WRITE \<and>
          (\<exists>s. tx_at fr d s c buf \<and> io_buf iocb = buf \<and> tx_out fr sent s n n' \<and> tx_progress sent s n n' \<and>
               s < length (frame_bytes fr) \<and> s - length (frame_head fr) = k0)
      | Inr (c, iocb, tot, n') \<Rightarrow>
          (\<exists>s. tx_at fr d s c buf \<and> io_buf iocb = buf \<and> tx_out fr sent s n n' \<and> tx_progress sent s n n' \<and>
               tot = int (s - length (frame_head fr)) - int k0 \<and> k0 \<le> s - length (frame_head fr)))"

lemma tx_end_trans:
  assumes "tx_out fr sent s n n'" and "tx_end fr d k0 s buf n' res"
  shows "tx_end fr d k0 sent buf n res"
proof -
  have p: "tx_progress sent t n m" if "tx_progress s t n' m" "tx_out fr s t n' m" for t m
    using assms(1) that by (auto simp: tx_progress_def tx_out_def)
  show ?thesis
  proof (cases res)
    case (Inl x)
    obtain r c iocb m where x: "x = (r, c, iocb, m)" by (cases x)
    show ?thesis using assms(2) p tx_out_trans [OF assms(1)] unfolding tx_end_def Inl x by auto
  next
    case (Inr x)
    obtain c iocb tot m where x: "x = (c, iocb, tot, m)" by (cases x)
    show ?thesis using assms(2) p tx_out_trans [OF assms(1)] unfolding tx_end_def Inr x by auto
  qed
qed

lemma tx_endI_sent:
  "tx_at fr d s c buf \<Longrightarrow> io_buf iocb = buf \<Longrightarrow> tx_out fr sent s n n' \<Longrightarrow> tx_progress sent s n n' \<Longrightarrow>
     tot = int (s - length (frame_head fr)) - int k0 \<Longrightarrow> k0 \<le> s - length (frame_head fr) \<Longrightarrow>
     tx_end fr d k0 sent buf n (Inr (c, iocb, tot, n'))"
  by (auto simp: tx_end_def)

lemma tx_endI_blocked:
  "tx_at fr d s c buf \<Longrightarrow> io_buf iocb = buf \<Longrightarrow> tx_out fr sent s n n' \<Longrightarrow> tx_progress sent s n n' \<Longrightarrow>
     s < length (frame_bytes fr) \<Longrightarrow> s - length (frame_head fr) = k0 \<Longrightarrow>
     tx_end fr d k0 sent buf n (Inl (WSLAY_ERR_WANT_WRITE, c, iocb, n'))"
  by (auto simp: tx_end_def)

lemma tx_payload_count:
  "0 < r \<Longrightarrow> int (s - h) + (r - int (min (h - s) (nat r))) = int (s + nat r - h)"
  by (cases "s \<le> h") (auto simp: min_def)

lemma send_masked_step:
  assumes cb: "cb_send cb = send" and mask: "fr_mask fr = 1"
  shows "tx_at fr d sent ctx buf \<Longrightarrow> io_buf iocb = buf \<Longrightarrow> sent < length (frame_bytes fr) \<Longrightarrow>
     tot = int (sent - length (frame_head fr)) - int k0 \<Longrightarrow> k0 \<le> sent - length (frame_head fr) \<Longrightarrow>
     \<exists>res. send_masked cb (d - length (frame_head fr) + sent) (d + length (fr_payload fr)) (ctx, iocb, tot) n = Some res \<and>
       tx_end fr d k0 sent buf n res"
proof (induction "length (frame_bytes fr) - sent" arbitrary: sent ctx iocb tot n rule: less_induct)
  case less
  let ?H = "length (frame_head fr)" and ?F = "length (frame_bytes fr)" and ?L = "d + length (fr_payload fr)"
  define w where "w = min 4096 (?F - sent)"
  have w: "0 < w" "sent + w \<le> ?F" using less.prems(3) by (auto simp: w_def)
  have dH: "?H \<le> d" and mk: "fc_omaskkey ctx = fr_key fr" "fc_opayloadmaskoff ctx = sent - ?H" "fc_hdrtow ctx = ?H - sent"
    using less.prems(1) mask by (simp_all add: tx_at_def)
  then have lim: "?L = d - ?H + ?F" by (simp add: length_frame_bytes)
  have cond: "d - ?H + sent < ?L" "min 4096 (?L - (d - ?H + sent)) = w" using less.prems(3) lim by (simp_all add: w_def)
  obtain r n' where r: "cb_send cb n (take w (drop sent (frame_bytes fr))) = Some (r, n')"
    and rl: "if 0 < r then nat r \<le> w \<and> tx_out fr sent (sent + nat r) n n' else tx_out fr sent sent n n' \<and> wticks n' < wticks n"
    using send_step [OF cb w(2,1)] by blast
  note unf = send_masked.simps [of cb "d - ?H + sent" ?L ctx iocb tot n, unfolded cond(2) Let_def]
  have call: "rd_block (io_buf iocb) (d - ?H + sent) w = Some (take w (drop sent (frame_head fr @ fr_payload fr)))"
    using tx_read [OF less.prems(1) w(2)] less.prems(2) by simp
  have fill: "fill_temp ctx (take w (drop sent (frame_head fr @ fr_payload fr))) = take w (drop sent (frame_bytes fr))"
    by (rule mask_block [OF mask mk(1,3,2)])
  show ?case
  proof (cases "0 < r")
    case True
    then have rw: "nat r \<le> w" "tx_out fr sent (sent + nat r) n n'" using rl by simp_all
    obtain c' iocb' tot' where s: "sent_header (nat r) (tx_advance (nat r) ctx, iocb, tot + r) = (c', iocb', tot')"
      by (cases "sent_header (nat r) (tx_advance (nat r) ctx, iocb, tot + r)")
    have run: "send_masked cb (d - ?H + sent) ?L (ctx, iocb, tot) n =
        send_masked cb (d - ?H + sent + nat r) ?L (c', iocb', tot') n'"
      unfolding unf using cond(1) call fill r True s by (simp add: tx_advance_def)
    have le: "sent + nat r \<le> ?F" using rw(1) w(2) by simp
    note t = tx_sent [OF less.prems(1) le s disjI1 [OF refl]]
    have tot': "tot' = int (sent + nat r - ?H) - int k0" "k0 \<le> sent + nat r - ?H"
      using t(3) less.prems(4,5) True tx_payload_count [OF True, of sent ?H] by (simp, linarith)
    show ?thesis
    proof (cases "sent + nat r = ?F")
      case True
      then have "send_masked cb (d - ?H + sent + nat r) ?L (c', iocb', tot') n' = Some (Inr (c', iocb', tot', n'))"
        using lim by (simp add: send_masked.simps)
      moreover have "tx_end fr d k0 sent buf n (Inr (c', iocb', tot', n'))"
        using t(1,2) less.prems(2) rw(2) tot' \<open>0 < r\<close> by (intro tx_endI_sent) (simp_all add: tx_progress_def)
      ultimately show ?thesis using run by simp
    next
      case False
      then have lt: "sent + nat r < ?F" "?F - (sent + nat r) < ?F - sent" using le \<open>0 < r\<close> by auto
      obtain res where "send_masked cb (d - ?H + (sent + nat r)) ?L (c', iocb', tot') n' = Some res"
        "tx_end fr d k0 (sent + nat r) buf n' res"
        using less.hyps [OF lt(2) t(1) _ lt(1) tot'] t(2) less.prems(2) by auto
      then show ?thesis using run tx_end_trans [OF rw(2)] by (auto simp: add.assoc)
    qed
  next
    case False
    then have b: "tx_out fr sent sent n n'" "tx_progress sent sent n n'" using rl by (simp_all add: tx_progress_def)
    show ?thesis
    proof (cases "0 < tot")
      case True
      have "send_masked cb (d - ?H + sent) ?L (ctx, iocb, tot) n = Some (Inr (ctx, iocb, tot, n'))"
        unfolding unf using cond(1) call fill r False True by simp
      then show ?thesis using tx_endI_sent [OF less.prems(1,2) b less.prems(4,5)] by blast
    next
      case tot0: False
      have "send_masked cb (d - ?H + sent) ?L (ctx, iocb, tot) n = Some (Inl (WSLAY_ERR_WANT_WRITE, ctx, iocb, n'))"
        unfolding unf using cond(1) call fill r False tot0 by simp
      moreover have "sent - ?H = k0" using tot0 less.prems(4,5) by simp
      ultimately show ?thesis using tx_endI_blocked [OF less.prems(1,2) b less.prems(3)] by blast
    qed
  qed
qed

lemma send_plain_step:
  assumes cb: "cb_send cb = send" and mask: "fr_mask fr = 0"
    and tx: "tx_at fr d sent ctx buf" and io: "io_buf iocb = buf" "io_data iocb = int (d - length (frame_head fr) + sent)"
      "io_data_length iocb = length (frame_bytes fr) - sent" and lt: "sent < length (frame_bytes fr)"
    and k0: "k0 = sent - length (frame_head fr)"
  shows "\<exists>res. send_plain cb ctx iocb n = Some res \<and> tx_end fr d k0 sent buf n res"
proof -
  let ?H = "length (frame_head fr)" and ?F = "length (frame_bytes fr)"
  have body: "frame_bytes fr = frame_head fr @ fr_payload fr" using mask by (simp add: frame_bytes_def frame_body_def)
  have w: "0 < ?F - sent" "sent + (?F - sent) \<le> ?F" using lt by simp_all
  obtain r n' where r: "cb_send cb n (take (?F - sent) (drop sent (frame_bytes fr))) = Some (r, n')"
    and rl: "if 0 < r then nat r \<le> ?F - sent \<and> tx_out fr sent (sent + nat r) n n'
             else tx_out fr sent sent n n' \<and> wticks n' < wticks n"
    using send_step [OF cb w(2,1)] by blast
  have call: "rd_block (io_buf iocb) (d - ?H + sent) (?F - sent) = Some (take (?F - sent) (drop sent (frame_bytes fr)))"
    using tx_read [OF tx w(2)] io(1) body by simp
  show ?thesis
  proof (cases "0 < r")
    case True
    then have le: "sent + nat r \<le> ?F" and out: "tx_out fr sent (sent + nat r) n n'" using rl w by auto
    obtain c' iocb' tot' where s: "sent_header (nat r) (ctx\<lparr>fc_opayloadoff := fc_opayloadoff ctx + nat r\<rparr>, iocb, r) = (c', iocb', tot')"
      by (cases "sent_header (nat r) (ctx\<lparr>fc_opayloadoff := fc_opayloadoff ctx + nat r\<rparr>, iocb, r)")
    have run: "send_plain cb ctx iocb n = Some (Inr (c', iocb', tot', n'))"
      unfolding send_plain_def io(2,3) using call r True s by (simp add: nat_int_add)
    note t = tx_sent [OF tx le s disjI2]
    have "tx_end fr d k0 sent buf n (Inr (c', iocb', tot', n'))"
      using t mask io(1) out True k0 tx_payload_count [OF True, of sent ?H] diff_le_mono [of sent "sent + nat r" ?H]
      by (intro tx_endI_sent) (auto simp: tx_progress_def)
    then show ?thesis using run by blast
  next
    case False
    then have "send_plain cb ctx iocb n = Some (Inl (WSLAY_ERR_WANT_WRITE, ctx, iocb, n'))"
      unfolding send_plain_def io(2,3) using call r by (simp add: nat_int_add)
    moreover have "tx_end fr d k0 sent buf n (Inl (WSLAY_ERR_WANT_WRITE, ctx, iocb, n'))"
      using tx io(1) rl False lt k0 by (intro tx_endI_blocked) (auto simp: tx_progress_def)
    ultimately show ?thesis by blast
  qed
qed

end

lemma header_bits:
  fixes f r oc :: byte
  assumes r: "take_bit 3 r = r" and oc: "take_bit 4 oc = oc"
  shows "push_bit 7 f AND 0x80 = push_bit 7 f" "push_bit 4 r AND 0x70 = push_bit 4 r" "oc AND 0xf = oc"
proof -
  have b: "n < 3" if "bit r n" for n using that r by (metis bit_take_bit_iff)
  have m: "(0x80 :: byte) = NOT (mask 7)" "(0x70 :: byte) = push_bit 4 (mask 3)" "(0xf :: byte) = mask 4"
    by (simp_all add: mask_eq_exp_minus_1)
  show "push_bit 7 f AND 0x80 = push_bit 7 f"
    unfolding m by (rule bit_word_eqI) (auto simp: bit_simps)
  show "push_bit 4 r AND 0x70 = push_bit 4 r"
    unfolding m by (rule bit_word_eqI) (auto simp: bit_simps dest: b)
  show "oc AND 0xf = oc"
    unfolding m using oc by (simp add: take_bit_eq_mask)
qed

lemma header_start_frame:
  assumes "frame_ok fr" and "iocb_frame fr iocb"
  shows "header_start iocb = Some ([frame_b0 fr, frame_b1 fr] @ frame_ext (length (fr_payload fr)))"
  using assms header_bits [of "fr_rsv fr" "fr_opcode fr"]
  by (simp add: header_start_def iocb_frame_def frame_ok_def frame_b0_def frame_b1_def frame_ext_def frame_len7_def Let_def or.assoc)

text \<open>The request the caller makes for the part of the frame after \<open>k\<close> bytes of payload.\<close>

definition tx_iocb :: "ws_frame \<Rightarrow> nat \<Rightarrow> nat \<Rightarrow> byte list \<Rightarrow> wslay_frame_iocb \<Rightarrow> bool" where
  "tx_iocb fr d k buf iocb \<longleftrightarrow> iocb_frame fr iocb \<and> io_buf iocb = buf \<and> io_data iocb = int (d + k) \<and>
     io_data_length iocb = length (fr_payload fr) - k"

text \<open>
  A context between two frames that can send \<open>fr\<close> as it is, and the buffer of a message. \<open>omask\<close> is never
  cleared, so a context that has sent a masked frame masks every later one.
\<close>

definition tx_idle :: "ws_frame \<Rightarrow> wslay_frame_context \<Rightarrow> bool" where
  "tx_idle fr ctx \<longleftrightarrow> fc_ostate ctx = PREP_HEADER \<and> (fc_omask ctx \<noteq> 0 \<longrightarrow> fr_mask fr = 1)"

definition tx_buffer :: "ws_frame \<Rightarrow> nat \<Rightarrow> byte list \<Rightarrow> bool" where
  "tx_buffer fr d buf \<longleftrightarrow> 16 \<le> d \<and> d + length (fr_payload fr) \<le> length buf \<and>
     take (length (fr_payload fr)) (drop d buf) = fr_payload fr"

lemma frame_head_length: "frame_ok fr \<Longrightarrow> length (frame_head fr) \<le> 16"
  by (simp add: frame_head_def frame_ext_def frame_ok_def)

text \<open>The context and the request after the header of \<open>fr\<close> has been put in front of the payload.\<close>

definition headed_ctx :: "ws_frame \<Rightarrow> wslay_frame_context \<Rightarrow> wslay_frame_context" where
  "headed_ctx fr ctx = (if fr_mask fr = 1 then ctx\<lparr>fc_omaskkey := fr_key fr\<rparr> else ctx)
     \<lparr>fc_omask := (if fr_mask fr = 1 then 1 else fc_omask ctx), fc_hdrtow := length (frame_head fr),
      fc_opayloadlen := length (fr_payload fr) + length (frame_head fr), fc_opayloadoff := 0, fc_opayloadmaskoff := 0, fc_ostate := SEND_PAYLOAD\<rparr>"

definition headed_buf :: "ws_frame \<Rightarrow> nat \<Rightarrow> byte list \<Rightarrow> byte list" where
  "headed_buf fr d buf = take (d - length (frame_head fr)) buf @ frame_head fr @ drop d buf"

definition headed_iocb :: "ws_frame \<Rightarrow> nat \<Rightarrow> byte list \<Rightarrow> wslay_frame_iocb \<Rightarrow> wslay_frame_iocb" where
  "headed_iocb fr d buf iocb = iocb\<lparr>io_buf := headed_buf fr d buf, io_data := int (d - length (frame_head fr)),
     io_data_length := length (fr_payload fr) + length (frame_head fr)\<rparr>"

lemma prep_header_run:
  assumes fr: "frame_ok fr" and buf: "tx_buffer fr d buf" and io: "tx_iocb fr d 0 buf iocb"
    and gen: "fr_mask fr = 1 \<Longrightarrow> cb_genmask cb n 4 = Some (0, fr_key fr, n')" "fr_mask fr = 0 \<Longrightarrow> n' = n"
  shows "prep_header cb ctx iocb n = Some (Inr (headed_ctx fr ctx, headed_iocb fr d buf iocb, n'))"
proof -
  let ?H = "length (frame_head fr)" and ?len = "length (fr_payload fr)"
  have H: "?H \<le> d" using frame_head_length [OF fr] buf by (simp add: tx_buffer_def)
  have d: "d + ?len \<le> length buf" using buf by (simp add: tx_buffer_def)
  have ctl: "\<not> (wslay_is_ctrl_frame (io_opcode iocb) \<and> io_payload_length iocb > 125)"
    and mask: "io_mask iocb = fr_mask fr" "fr_mask fr = 0 \<or> fr_mask fr = 1"
    using fr io by (auto simp: frame_ok_def tx_iocb_def iocb_frame_def)
  have start: "header_start iocb = Some ([frame_b0 fr, frame_b1 fr] @ frame_ext ?len)"
    using header_start_frame [OF fr] io by (simp add: tx_iocb_def)
  have key: "fr_mask fr = 0 \<Longrightarrow> fr_key fr = []" using fr by (simp add: frame_ok_def)
  have wr: "wr_block (io_buf iocb) (io_data iocb - int ?H) (frame_head fr) = Some (headed_buf fr d buf)"
    using io H d by (simp add: tx_iocb_def wr_block_def headed_buf_def nat_diff_distrib flip: of_nat_diff)
  have head: "[frame_b0 fr, frame_b1 fr] @ frame_ext ?len @ fr_key fr = frame_head fr" by (simp add: frame_head_def)
  have hl: "?H = Suc (Suc (length (frame_ext ?len) + length (fr_key fr)))" by (simp add: frame_head_def)
  have dat: "io_data iocb - int ?H = int (d - ?H)" "io_data_length iocb = ?len"
    using io H by (simp_all add: tx_iocb_def)
  show ?thesis
    using mask(2)
  proof
    assume m: "fr_mask fr = 0"
    show ?thesis
      unfolding prep_header_def start headed_ctx_def headed_iocb_def
      using ctl mask m gen(2) key wr head dat by (simp add: Let_def hl)
  next
    assume m: "fr_mask fr = 1"
    show ?thesis
      unfolding prep_header_def start headed_ctx_def headed_iocb_def
      using ctl mask m gen(1) wr head dat by (simp add: Let_def hl)
  qed
qed

lemma headed_bytes:
  assumes "frame_ok fr" "tx_buffer fr d buf"
  shows "take (length (frame_bytes fr)) (drop (d - length (frame_head fr)) (headed_buf fr d buf)) = frame_head fr @ fr_payload fr"
    "length (headed_buf fr d buf) = length buf" "length (frame_head fr) \<le> d"
proof -
  show H: "length (frame_head fr) \<le> d" using frame_head_length [OF assms(1)] assms(2) by (simp add: tx_buffer_def)
  have d: "d + length (fr_payload fr) \<le> length buf" "take (length (fr_payload fr)) (drop d buf) = fr_payload fr"
    using assms(2) by (simp_all add: tx_buffer_def)
  show "take (length (frame_bytes fr)) (drop (d - length (frame_head fr)) (headed_buf fr d buf)) = frame_head fr @ fr_payload fr"
    "length (headed_buf fr d buf) = length buf"
    using H d by (simp_all add: headed_buf_def length_frame_bytes)
qed

lemma prep_header_frame:
  assumes fr: "frame_ok fr" and idle: "tx_idle fr ctx" and buf: "tx_buffer fr d buf" and io: "tx_iocb fr d 0 buf iocb"
    and gen: "fr_mask fr = 1 \<Longrightarrow> cb_genmask cb n 4 = Some (0, fr_key fr, n')" "fr_mask fr = 0 \<Longrightarrow> n' = n"
  shows "\<exists>c iocb' buf'. prep_header cb ctx iocb n = Some (Inr (c, iocb', n')) \<and> tx_at fr d 0 c buf' \<and>
     io_buf iocb' = buf' \<and> io_data iocb' = int (d - length (frame_head fr)) \<and> io_data_length iocb' = length (frame_bytes fr) \<and>
     length buf' = length buf"
proof -
  have "fr_mask fr = 0 \<or> fr_mask fr = 1" using fr by (auto simp: frame_ok_def)
  then have "tx_at fr d 0 (headed_ctx fr ctx) (headed_buf fr d buf)"
    using idle headed_bytes [OF fr buf] buf
    by (auto simp: tx_at_def tx_idle_def tx_buffer_def headed_ctx_def length_frame_bytes)
  then show ?thesis
    using prep_header_run [OF fr buf io gen] headed_bytes(2) [OF fr buf] by (auto simp: headed_iocb_def length_frame_bytes)
qed

text \<open>A frame without a mask over a context that still has the mask of an earlier one.\<close>

lemma stale_mask_send:
  assumes fr: "frame_ok fr" "fr_mask fr = 0" "length (frame_bytes fr) \<le> 4096"
    and ctx: "fc_ostate ctx = PREP_HEADER" "fc_omask ctx \<noteq> 0"
    and buf: "tx_buffer fr d buf" and io: "tx_iocb fr d 0 buf iocb"
    and send: "cb_send cb n (frame_head fr @ mask_from (fc_omaskkey ctx) 0 (fr_payload fr)) = Some (int (length (frame_bytes fr)), n')"
  shows "\<exists>c iocb'. wslay_frame_send cb ctx iocb n = Some (int (length (fr_payload fr)), c, iocb', n') \<and> fc_ostate c = PREP_HEADER"
proof -
  let ?c = "headed_ctx fr ctx" and ?io = "headed_iocb fr d buf iocb" and ?H = "length (frame_head fr)"
  let ?m = "d - ?H" and ?L = "length (frame_bytes fr)"
  note hb = headed_bytes [OF fr(1) buf]
  have L: "?L = length (fr_payload fr) + ?H" "0 < ?H" by (simp_all add: length_frame_bytes frame_head_def)
  have rd: "rd_block (io_buf ?io) ?m (min 4096 (?m + ?L - ?m)) = Some (frame_head fr @ fr_payload fr)"
    using hb buf fr(3) by (auto simp: rd_block_def headed_iocb_def tx_buffer_def L)
  have fill: "fill_temp ?c (frame_head fr @ fr_payload fr) = frame_head fr @ mask_from (fc_omaskkey ctx) 0 (fr_payload fr)"
    using fr(2) by (simp add: fill_temp_def headed_ctx_def)
  have le: "0 < ?L" "?H \<le> ?L" "frame_head fr \<noteq> []" using L by auto
  have c0: "fc_hdrtow ?c = ?H" "fc_opayloadoff ?c = 0" "fc_opayloadmaskoff ?c = 0" by (simp_all add: headed_ctx_def)
  have "send_masked cb ?m (?m + ?L) (?c, ?io, 0) n = send_masked cb (?m + ?L) (?m + ?L)
      (sent_header ?L (?c\<lparr>fc_opayloadoff := ?L, fc_opayloadmaskoff := ?L - ?H\<rparr>, ?io, int ?L)) n'"
    using le c0 rd fill send by (subst send_masked.simps) (simp add: Let_def min_absorb1)
  moreover have "sent_header ?L (?c\<lparr>fc_opayloadoff := ?L, fc_opayloadmaskoff := ?L - ?H\<rparr>, ?io, int ?L) =
      (?c\<lparr>fc_opayloadoff := ?L, fc_opayloadmaskoff := ?L - ?H, fc_hdrtow := 0\<rparr>,
       ?io\<lparr>io_data := io_data ?io + int ?H, io_data_length := io_data_length ?io - ?H\<rparr>, int ?L - int ?H)"
    using le c0 by (simp add: sent_header_def min_absorb1 Let_def)
  moreover have "send_masked cb (?m + ?L) (?m + ?L) (c, i, t) n' = Some (Inr (c, i, t, n'))" for c i t
    by (simp add: send_masked.simps)
  ultimately have sm: "send_masked cb ?m (?m + ?L) (?c, ?io, 0) n = Some (Inr
      (?c\<lparr>fc_opayloadoff := ?L, fc_opayloadmaskoff := ?L - ?H, fc_hdrtow := 0\<rparr>,
       ?io\<lparr>io_data := io_data ?io + int ?H, io_data_length := io_data_length ?io - ?H\<rparr>, int ?L - int ?H, n'))"
    by simp
  have io': "io_data ?io = int ?m" "io_data_length ?io = ?L" "fc_omask ?c \<noteq> 0" "fc_opayloadlen ?c = ?L"
    using fr(2) ctx(2) by (simp_all add: headed_iocb_def headed_ctx_def L)
  have "prep_header cb ctx iocb n = Some (Inr (?c, ?io, n))"
    using prep_header_run [OF fr(1) buf io, of cb n n] fr(2) by simp
  then show ?thesis
    using ctx(1) sm io' L by (simp add: wslay_frame_send_def send_payload_def)
qed

context frame_sink
begin

text \<open>The outcome of a call of \<open>wslay_frame_send\<close>.\<close>

definition tx_done where
  "tx_done fr d sent buf n out \<longleftrightarrow>
     (case out of (r, c, iocb, n') \<Rightarrow>
        \<exists>s. tx_out fr sent s n n' \<and> tx_progress sent s n n' \<and> io_buf iocb = buf \<and>
            (if s = length (frame_bytes fr) then
               r = int (length (fr_payload fr)) - int (sent - length (frame_head fr)) \<and> tx_idle fr c
             else tx_at fr d s c buf \<and> s < length (frame_bytes fr) \<and>
               (r = WSLAY_ERR_WANT_WRITE \<and> s - length (frame_head fr) = sent - length (frame_head fr) \<or>
                r = int (s - length (frame_head fr)) - int (sent - length (frame_head fr)) \<and> 0 \<le> r \<and> length (frame_head fr) \<le> s)))"

lemma send_payload_step:
  assumes cb: "cb_send cb = send" and fr: "frame_ok fr" and tx: "tx_at fr d sent ctx buf" and lt: "sent < length (frame_bytes fr)"
    and io: "io_buf iocb = buf" "io_data iocb = int (d - length (frame_head fr) + sent)"
      "io_data_length iocb = length (frame_bytes fr) - sent"
  shows "\<exists>out. send_payload cb ctx iocb n = Some out \<and> tx_done fr d sent buf n out"
proof -
  let ?H = "length (frame_head fr)" and ?F = "length (frame_bytes fr)"
  have mask: "fr_mask fr = 0 \<or> fr_mask fr = 1" and om: "fc_omask ctx \<noteq> 0 \<longleftrightarrow> fr_mask fr = 1" and dH: "?H \<le> d"
    using fr tx by (auto simp: frame_ok_def tx_at_def)
  define how where "how = (if fc_omask ctx \<noteq> 0
     then send_masked cb (nat (io_data iocb)) (nat (io_data iocb) + io_data_length iocb) (ctx, iocb, 0) n
     else send_plain cb ctx iocb n)"
  have lim: "d - ?H + sent + (?F - sent) = d + length (fr_payload fr)" using lt dH by (simp add: length_frame_bytes)
  have "\<exists>res. how = Some res \<and> tx_end fr d (sent - ?H) sent buf n res"
  proof (cases "fr_mask fr = 1")
    case True
    have "how = send_masked cb (d - ?H + sent) (d + length (fr_payload fr)) (ctx, iocb, 0) n"
      unfolding how_def io(2,3) nat_int lim using om True by simp
    then show ?thesis
      using send_masked_step [OF cb True tx io(1) lt, of 0 "sent - ?H"] by simp
  next
    case False
    then show ?thesis
      unfolding how_def using send_plain_step [OF cb _ tx io lt refl] om mask by simp
  qed
  then obtain res where res: "how = Some res" "tx_end fr d (sent - ?H) sent buf n res" by blast
  have sp: "send_payload cb ctx iocb n = (case res of Inl ret \<Rightarrow> Some ret | Inr (c, iocb, tot, n') \<Rightarrow>
      if fc_hdrtow c \<noteq> 0 then Some (WSLAY_ERR_WANT_WRITE, c, iocb, n')
      else Some (tot, if fc_opayloadoff c = fc_opayloadlen c then c\<lparr>fc_ostate := PREP_HEADER\<rparr> else c, iocb, n'))"
  proof -
    have "0 < io_data_length iocb" "0 \<le> io_data iocb" using io(2,3) lt by simp_all
    then show ?thesis
      unfolding send_payload_def using res(1) by (cases "fc_omask ctx = 0") (simp_all add: how_def split: sum.splits prod.splits)
  qed
  show ?thesis
  proof (cases res)
    case (Inl x)
    obtain r c iocb' n' where x: "x = (r, c, iocb', n')" by (cases x)
    obtain s where "r = WSLAY_ERR_WANT_WRITE" "tx_at fr d s c buf" "io_buf iocb' = buf" "tx_out fr sent s n n'"
        "tx_progress sent s n n'" "s < ?F" "s - ?H = sent - ?H"
      using res(2) unfolding Inl x tx_end_def by auto
    then have "tx_done fr d sent buf n x" unfolding tx_done_def x prod.case by (intro exI [of _ s]) simp
    then show ?thesis using sp Inl by simp
  next
    case (Inr x)
    obtain c iocb' tot n' where x: "x = (c, iocb', tot, n')" by (cases x)
    obtain s where s: "tx_at fr d s c buf" "io_buf iocb' = buf" "tx_out fr sent s n n'" "tx_progress sent s n n'"
       "tot = int (s - ?H) - int (sent - ?H)" "sent - ?H \<le> s - ?H"
      using res(2) unfolding Inr x tx_end_def by auto
    have c: "fc_hdrtow c = ?H - s" "fc_opayloadoff c = s" "fc_opayloadlen c = ?F" "s \<le> ?F" using s(1) by (simp_all add: tx_at_def)
    consider "s < ?H" | "?H \<le> s" "s < ?F" | "s = ?F" using c(4) by linarith
    then show ?thesis
    proof cases
      case 1
      then have "send_payload cb ctx iocb n = Some (WSLAY_ERR_WANT_WRITE, c, iocb', n')" using sp Inr x c by simp
      moreover have "s - ?H = sent - ?H" "s < ?F" using 1 s(6) by (simp_all add: length_frame_bytes)
      ultimately show ?thesis using s by (auto simp: tx_done_def intro!: exI [of _ s])
    next
      case 2
      then have "send_payload cb ctx iocb n = Some (tot, c, iocb', n')" using sp Inr x c by simp
      then show ?thesis using s 2 by (auto simp: tx_done_def intro!: exI [of _ s])
    next
      case 3
      then have "send_payload cb ctx iocb n = Some (tot, c\<lparr>fc_ostate := PREP_HEADER\<rparr>, iocb', n')"
        using sp Inr x c by (simp add: length_frame_bytes)
      moreover have "tx_idle fr (c\<lparr>fc_ostate := PREP_HEADER\<rparr>)" using s(1) by (simp add: tx_idle_def tx_at_def)
      moreover have "tot = int (length (fr_payload fr)) - int (sent - ?H)" using 3 s(5) by (simp add: length_frame_bytes)
      ultimately show ?thesis using s 3 by (auto simp: tx_done_def intro!: exI [of _ s])
    qed
  qed
qed

lemma frame_send_resume:
  assumes cb: "cb_send cb = send" and fr: "frame_ok fr" and tx: "tx_at fr d sent ctx buf" and lt: "sent < length (frame_bytes fr)"
    and io: "tx_iocb fr d (sent - length (frame_head fr)) buf iocb"
  shows "\<exists>out. wslay_frame_send cb ctx iocb n = Some out \<and> tx_done fr d sent buf n out"
proof -
  let ?H = "length (frame_head fr)"
  let ?io = "if fc_hdrtow ctx \<noteq> 0 then iocb\<lparr>io_data := io_data iocb - int (fc_hdrtow ctx),
      io_data_length := io_data_length iocb + fc_hdrtow ctx\<rparr> else iocb"
  have c: "fc_ostate ctx = SEND_PAYLOAD" "fc_hdrtow ctx = ?H - sent" "?H \<le> d" using tx by (simp_all add: tx_at_def)
  have "io_buf ?io = buf" "io_data ?io = int (d - ?H + sent)" "io_data_length ?io = length (frame_bytes fr) - sent"
    using io c(2,3) lt by (auto simp: tx_iocb_def length_frame_bytes)
  then show ?thesis
    using send_payload_step [OF cb fr tx lt] c(1) by (simp add: wslay_frame_send_def Let_def)
qed

lemma frame_send_start:
  assumes cb: "cb_send cb = send" and fr: "frame_ok fr" and idle: "tx_idle fr ctx" and buf: "tx_buffer fr d buf"
    and io: "tx_iocb fr d 0 buf iocb"
    and gen: "fr_mask fr = 1 \<Longrightarrow> cb_genmask cb n 4 = Some (0, fr_key fr, n')" "fr_mask fr = 0 \<Longrightarrow> n' = n"
  shows "\<exists>out buf'. wslay_frame_send cb ctx iocb n = Some out \<and> tx_done fr d 0 buf' n' out"
proof -
  obtain c iocb' buf' where p: "prep_header cb ctx iocb n = Some (Inr (c, iocb', n'))" "tx_at fr d 0 c buf'"
    "io_buf iocb' = buf'" "io_data iocb' = int (d - length (frame_head fr))" "io_data_length iocb' = length (frame_bytes fr)"
    using prep_header_frame [OF fr idle buf io gen] by blast
  have "0 < length (frame_bytes fr)" by (simp add: frame_bytes_def frame_head_def)
  then obtain out where "send_payload cb c iocb' n' = Some out" "tx_done fr d 0 buf' n' out"
    using send_payload_step [OF cb fr p(2) _ p(3), of n'] p(4,5) by auto
  then show ?thesis using p(1) idle by (auto simp: wslay_frame_send_def tx_idle_def)
qed

end

section \<open>Whole frames\<close>

text \<open>
  A caller that sends one frame: it calls \<open>wslay_frame_send\<close> for what is left of the payload until
  the frame is out, as \<open>wslay_event_send\<close> does over several rounds of events.
\<close>

definition tx_request :: "ws_frame \<Rightarrow> nat \<Rightarrow> nat \<Rightarrow> byte list \<Rightarrow> wslay_frame_iocb" where
  "tx_request fr d k buf =
     \<lparr>io_fin = fr_fin fr, io_rsv = fr_rsv fr, io_opcode = fr_opcode fr, io_payload_length = length (fr_payload fr),
      io_mask = fr_mask fr, io_buf = buf, io_data = int (d + k), io_data_length = length (fr_payload fr) - k\<rparr>"

primrec send_whole ::
  "nat \<Rightarrow> 'n wslay_frame_callbacks \<Rightarrow> ws_frame \<Rightarrow> nat \<Rightarrow> nat \<Rightarrow> byte list \<Rightarrow> wslay_frame_context \<Rightarrow> 'n \<Rightarrow>
   (wslay_frame_context \<times> 'n) option" where
  "send_whole 0 cb fr d k buf ctx n = None"
| "send_whole (Suc m) cb fr d k buf ctx n = do {
     (r, ctx, iocb, n) \<leftarrow> wslay_frame_send cb ctx (tx_request fr d k buf) n;
     if 0 \<le> r then
       (if k + nat r = length (fr_payload fr) then Some (ctx, n)
        else send_whole m cb fr d (k + nat r) (io_buf iocb) ctx n)
     else if r = WSLAY_ERR_WANT_WRITE then send_whole m cb fr d k (io_buf iocb) ctx n
     else None
   }"

text \<open>A caller that receives one frame and gathers the payload from the calls of \<open>wslay_frame_recv\<close>.\<close>

definition rx_request :: wslay_frame_iocb where
  "rx_request = \<lparr>io_fin = 0, io_rsv = 0, io_opcode = 0, io_payload_length = 0, io_mask = 0, io_buf = [],
     io_data = 0, io_data_length = 0\<rparr>"

primrec recv_whole ::
  "nat \<Rightarrow> 'n wslay_frame_callbacks \<Rightarrow> wslay_frame_context \<Rightarrow> 'n \<Rightarrow>
   (byte list \<times> wslay_frame_iocb \<times> wslay_frame_context \<times> 'n) option" where
  "recv_whole 0 cb ctx n = None"
| "recv_whole (Suc m) cb ctx n = do {
     (r, ctx, iocb, n) \<leftarrow> wslay_frame_recv cb ctx rx_request n;
     if 0 \<le> r then
       (if fc_istate ctx = RECV_HEADER1 then Some (iocb_bytes iocb, iocb, ctx, n)
        else do { (bs, last, ctx, n) \<leftarrow> recv_whole m cb ctx n; Some (iocb_bytes iocb @ bs, last, ctx, n) })
     else if r = WSLAY_ERR_WANT_READ then recv_whole m cb ctx n
     else None
   }"

lemma tx_request_iocb: "tx_iocb fr d k buf (tx_request fr d k buf)"
  by (simp add: tx_iocb_def tx_request_def iocb_frame_def)

context frame_source
begin

lemma recv_whole_step:
  assumes cb: "cb_recv cb = recv" and fr: "frame_ok fr"
  shows "rx_at fr k rest ctx (unread ctx n) \<Longrightarrow> budget n + (length (fr_payload fr) - k) < m \<Longrightarrow>
     \<exists>iocb c n'. recv_whole m cb ctx n = Some (drop k (fr_payload fr), iocb, c, n') \<and> iocb_frame fr iocb \<and>
       rx_idle c \<and> unread c n' = rest"
proof (induction m arbitrary: k ctx n)
  case (Suc m)
  obtain r c iocb n' where call: "wslay_frame_recv cb ctx rx_request n = Some (r, c, iocb, n')"
    and out: "rx_out fr k rest n (r, c, iocb, n')"
    using frame_recv_step [OF cb fr Suc.prems(1)] by (metis prod_cases4)
  from out consider (blocked) "r = WSLAY_ERR_WANT_READ" "rx_at fr k rest c (unread c n')" "budget n' < budget n"
    | (data) j where "r = int j" "k + j \<le> length (fr_payload fr)" "budget n' \<le> budget n" "iocb_frame fr iocb"
        "iocb_bytes iocb = take j (drop k (fr_payload fr))"
        "if k + j = length (fr_payload fr) then rx_idle c \<and> unread c n' = rest
         else 0 < j \<and> rx_at fr (k + j) rest c (unread c n')"
    unfolding rx_out_def by auto
  then show ?case
  proof cases
    case blocked
    then show ?thesis using Suc.IH [OF blocked(2)] Suc.prems(2) call by simp
  next
    case data
    show ?thesis
    proof (cases "k + j = length (fr_payload fr)")
      case True
      then have "take j (drop k (fr_payload fr)) = drop k (fr_payload fr)" by simp
      then show ?thesis using data True call by (simp add: rx_idle_def)
    next
      case False
      then have at: "0 < j" "rx_at fr (k + j) rest c (unread c n')" using data(6) by simp_all
      then have "fc_istate c \<noteq> RECV_HEADER1" by (auto simp: rx_at_def)
      moreover have "budget n' + (length (fr_payload fr) - (k + j)) < m" using Suc.prems(2) data(2,3) at(1) by simp
      ultimately show ?thesis
        using Suc.IH [OF at(2)] data(1,5) call append_take_drop_id [of j "drop k (fr_payload fr)"]
        by (fastforce simp: add.commute)
    qed
  qed
qed simp

end

context frame_sink
begin

lemma send_whole_step:
  assumes cb: "cb_send cb = send" and fr: "frame_ok fr"
  shows "tx_at fr d sent ctx buf \<Longrightarrow> sent < length (frame_bytes fr) \<Longrightarrow> length (frame_bytes fr) - sent + wticks n < m \<Longrightarrow>
     \<exists>c n'. send_whole m cb fr d (sent - length (frame_head fr)) buf ctx n = Some (c, n') \<and>
       wire n' = wire n @ drop sent (frame_bytes fr) \<and> tx_idle fr c"
proof (induction m arbitrary: sent ctx n)
  case (Suc m)
  let ?H = "length (frame_head fr)" and ?F = "length (frame_bytes fr)" and ?k = "sent - length (frame_head fr)"
  obtain r c iocb n' where call: "wslay_frame_send cb ctx (tx_request fr d ?k buf) n = Some (r, c, iocb, n')"
    and out: "tx_done fr d sent buf n (r, c, iocb, n')"
    using frame_send_resume [OF cb fr Suc.prems(1,2) tx_request_iocb] by (metis prod_cases4)
  then obtain s where s: "tx_out fr sent s n n'" "tx_progress sent s n n'" "io_buf iocb = buf"
    and e: "if s = ?F then r = int (length (fr_payload fr)) - int ?k \<and> tx_idle fr c
       else tx_at fr d s c buf \<and> s < ?F \<and> (r = WSLAY_ERR_WANT_WRITE \<and> s - ?H = ?k \<or> r = int (s - ?H) - int ?k \<and> 0 \<le> r \<and> ?H \<le> s)"
    unfolding tx_done_def by auto
  have le: "?k \<le> length (fr_payload fr)" using Suc.prems(2) by (simp add: length_frame_bytes)
  show ?case
  proof (cases "s = ?F")
    case True
    then have "?k + nat r = length (fr_payload fr)" "0 \<le> r" "tx_idle fr c" using e le by auto
    moreover have "wire n' = wire n @ drop sent (frame_bytes fr)" using s(1) True by (simp add: tx_out_def)
    ultimately show ?thesis using call le by simp
  next
    case False
    then have t: "tx_at fr d s c buf" "s < ?F" using e by simp_all
    have "length (frame_bytes fr) - s + wticks n' < m"
      using Suc.prems(2,3) s(1,2) t(2) by (auto simp: tx_out_def tx_progress_def)
    then obtain c' n'' where ih: "send_whole m cb fr d (s - ?H) buf c n' = Some (c', n'')"
      "wire n'' = wire n' @ drop s (frame_bytes fr)" "tx_idle fr c'"
      using Suc.IH [OF t] by blast
    have w: "wire n'' = wire n @ drop sent (frame_bytes fr)"
      using ih(2) s(1) append_take_drop_id [of "s - sent" "drop sent (frame_bytes fr)"] by (simp add: tx_out_def)
    have "send_whole (Suc m) cb fr d ?k buf ctx n = Some (c', n'')"
    proof (cases "r = WSLAY_ERR_WANT_WRITE")
      case True
      then have "s - ?H = ?k" using e False by auto
      then show ?thesis using call True ih(1) s(3) by simp
    next
      case nb: False
      then have r: "r = int (s - ?H) - int ?k" "0 \<le> r" "?H \<le> s" using e False by auto
      then have k: "?k + nat r = s - ?H" by simp
      have "s - ?H \<noteq> length (fr_payload fr)" using t(2) r(3) by (simp add: length_frame_bytes)
      then show ?thesis using call r(2) k ih(1) s(3) by simp
    qed
    then show ?thesis using w ih(3) by blast
  qed
qed simp

lemma send_whole_frame:
  assumes cb: "cb_send cb = send" and fr: "frame_ok fr" and idle: "tx_idle fr ctx" and buf: "tx_buffer fr d buf"
    and gen: "fr_mask fr = 1 \<Longrightarrow> cb_genmask cb n 4 = Some (0, fr_key fr, n0)" "fr_mask fr = 0 \<Longrightarrow> n0 = n"
    and same: "wire n0 = wire n" and m: "length (frame_bytes fr) + wticks n0 < m"
  shows "\<exists>c n'. send_whole m cb fr d 0 buf ctx n = Some (c, n') \<and> wire n' = wire n @ frame_bytes fr \<and> tx_idle fr c"
proof -
  let ?H = "length (frame_head fr)" and ?F = "length (frame_bytes fr)"
  obtain m' where m': "m = Suc m'" using m by (cases m) auto
  obtain r c iocb n' buf' where call: "wslay_frame_send cb ctx (tx_request fr d 0 buf) n = Some (r, c, iocb, n')"
    and out: "tx_done fr d 0 buf' n0 (r, c, iocb, n')"
    using frame_send_start [OF cb fr idle buf tx_request_iocb gen] by (metis prod_cases4)
  then obtain s where s: "tx_out fr 0 s n0 n'" "tx_progress 0 s n0 n'" "io_buf iocb = buf'"
    and e0: "if s = ?F then r = int (length (fr_payload fr)) - int (0 - ?H) \<and> tx_idle fr c
       else tx_at fr d s c buf' \<and> s < ?F \<and>
         (r = WSLAY_ERR_WANT_WRITE \<and> s - ?H = 0 - ?H \<or> r = int (s - ?H) - int (0 - ?H) \<and> 0 \<le> r \<and> ?H \<le> s)"
    unfolding tx_done_def by auto
  from e0 have e: "if s = ?F then r = int (length (fr_payload fr)) \<and> tx_idle fr c
       else tx_at fr d s c buf' \<and> s < ?F \<and> (r = WSLAY_ERR_WANT_WRITE \<and> s - ?H = 0 \<or> r = int (s - ?H) \<and> ?H \<le> s)"
    by (auto split: if_splits)
  show ?thesis
  proof (cases "s = ?F")
    case True
    then show ?thesis using e s(1) call same m' by (simp add: tx_out_def)
  next
    case False
    then have t: "tx_at fr d s c buf'" "s < ?F" using e by simp_all
    have "length (frame_bytes fr) - s + wticks n' < m'"
      using m m' s(1,2) t(2) by (auto simp: tx_out_def tx_progress_def)
    then obtain c' n'' where ih: "send_whole m' cb fr d (s - ?H) buf' c n' = Some (c', n'')"
      "wire n'' = wire n' @ drop s (frame_bytes fr)" "tx_idle fr c'"
      using send_whole_step [OF cb fr t] by blast
    have w: "wire n'' = wire n @ frame_bytes fr"
      using ih(2) s(1) same append_take_drop_id [of s "frame_bytes fr"] by (simp add: tx_out_def)
    have "s - ?H \<noteq> length (fr_payload fr) \<or> s < ?H" using t(2) by (auto simp: length_frame_bytes)
    then have "send_whole m cb fr d 0 buf ctx n = Some (c', n'')"
      using call e False ih(1) s(3) m' by (auto simp del: of_nat_diff)
    then show ?thesis using w ih(3) by blast
  qed
qed

end

end
