(* ===== verification/Ws_Io.thy ===== *)
theory Ws_Io
  imports Ws_Frame
begin

text \<open>
  How WebSocket frames reach a connection: the socket callbacks of
  \<open>src/src/ws/iwn_ws_server.c\<close>, the direct poller adapter of
  \<open>src/src/poller/iwn_direct_poller_adapter.c\<close> they call and the flags of the event context of
  \<open>src/src/wslay/wslay_event.c\<close> they set. The contract of a poller adapter is the locale
  \<open>poller_adapter\<close>; from it the callbacks keep the contracts of \<open>Ws_Frame\<close>.
\<close>

section \<open>Sockets\<close>

datatype errno = EINTR | EAGAIN | EOTHER

text \<open>
  A connected socket in non-blocking mode: what \<open>read\<close> will meet, in order, and whether the peer has
  closed; what \<open>write\<close> will meet before it takes everything; the bytes that went out.
\<close>

datatype sk_event = SkData byte "byte list" | SkIntr | SkAgain
datatype sk_room = SkTake nat | SkWIntr | SkWAgain

record socket =
  sk_in :: "sk_event list"
  sk_closed :: bool
  sk_room :: "sk_room list"
  sk_out :: "byte list"

fun sk_read :: "socket \<Rightarrow> nat \<Rightarrow> int \<times> byte list \<times> errno \<times> socket" where
  "sk_read s len =
     (case sk_in s of
        [] \<Rightarrow> if sk_closed s then (0, [], EOTHER, s) else (-1, [], EAGAIN, s)
      | SkIntr # es \<Rightarrow> (-1, [], EINTR, s\<lparr>sk_in := es\<rparr>)
      | SkAgain # es \<Rightarrow> (-1, [], EAGAIN, s\<lparr>sk_in := es\<rparr>)
      | SkData b bs # es \<Rightarrow>
          let got = take len (b # bs); left = drop len (b # bs)
          in (int (length got), got, EOTHER,
              s\<lparr>sk_in := (case left of [] \<Rightarrow> es | c # cs \<Rightarrow> SkData c cs # es)\<rparr>))"

fun sk_write :: "socket \<Rightarrow> byte list \<Rightarrow> int \<times> errno \<times> socket" where
  "sk_write s bs =
     (case sk_room s of
        [] \<Rightarrow> (int (length bs), EOTHER, s\<lparr>sk_out := sk_out s @ bs\<rparr>)
      | SkWIntr # rs \<Rightarrow> (-1, EINTR, s\<lparr>sk_room := rs\<rparr>)
      | SkWAgain # rs \<Rightarrow> (-1, EAGAIN, s\<lparr>sk_room := rs\<rparr>)
      | SkTake k # rs \<Rightarrow>
          let got = take (Suc k) bs
          in (int (length got), EOTHER, s\<lparr>sk_room := rs, sk_out := sk_out s @ got\<rparr>))"

section \<open>The direct poller adapter\<close>

definition dpa_has_pending_write_bytes :: "socket \<Rightarrow> bool" where
  "dpa_has_pending_write_bytes a = False"

definition dpa_read :: "socket \<Rightarrow> nat \<Rightarrow> int \<times> byte list \<times> errno \<times> socket" where
  "dpa_read a len = sk_read a len"

definition dpa_write :: "socket \<Rightarrow> byte list \<Rightarrow> int \<times> errno \<times> socket" where
  "dpa_write a bs = sk_write a bs"

section \<open>The flags of an event context\<close>

text \<open>The part of \<open>struct wslay_event_context\<close> the callbacks write, with the adapter of the connection.\<close>

record 's event_io =
  eio_error :: int
  eio_read_enabled :: bool
  eio_write_enabled :: bool
  eio_pa :: 's

abbreviation WSLAY_ERR_WOULDBLOCK :: int where "WSLAY_ERR_WOULDBLOCK \<equiv> -401"
abbreviation WSLAY_ERR_CALLBACK_FAILURE :: int where "WSLAY_ERR_CALLBACK_FAILURE \<equiv> -400"

definition wslay_event_set_error :: "'s event_io \<Rightarrow> int \<Rightarrow> 's event_io" where
  "wslay_event_set_error io val = io\<lparr>eio_error := val\<rparr>"

definition wslay_event_shutdown_read :: "'s event_io \<Rightarrow> 's event_io" where
  "wslay_event_shutdown_read io = io\<lparr>eio_read_enabled := False\<rparr>"

definition wslay_event_shutdown_write :: "'s event_io \<Rightarrow> 's event_io" where
  "wslay_event_shutdown_write io = io\<lparr>eio_write_enabled := False\<rparr>"

section \<open>The callbacks\<close>

text \<open>The adapter's \<open>read\<close> and \<open>write\<close> are arguments; \<open>goto again\<close> after \<open>EINTR\<close> is the recursive call.\<close>

partial_function (option) wslay_recv_callback ::
  "('s \<Rightarrow> nat \<Rightarrow> int \<times> byte list \<times> errno \<times> 's) \<Rightarrow> 's event_io \<Rightarrow> nat \<Rightarrow> (int \<times> byte list \<times> 's event_io) option" where
  "wslay_recv_callback pa_read io len =
     (let (rci, bs, e, s) = pa_read (eio_pa io) len; io = io\<lparr>eio_pa := s\<rparr>
      in if rci = -1 then
           (if e = EINTR then wslay_recv_callback pa_read io len
            else if e = EAGAIN then Some (-1, [], wslay_event_set_error io WSLAY_ERR_WOULDBLOCK)
            else Some (-1, [], wslay_event_set_error io WSLAY_ERR_CALLBACK_FAILURE))
         else if rci = 0 then Some (-1, [], wslay_event_shutdown_read io)
         else Some (rci, bs, io))"

partial_function (option) wslay_send_callback ::
  "('s \<Rightarrow> byte list \<Rightarrow> int \<times> errno \<times> 's) \<Rightarrow> 's event_io \<Rightarrow> byte list \<Rightarrow> (int \<times> 's event_io) option" where
  "wslay_send_callback pa_write io bs =
     (let (rci, e, s) = pa_write (eio_pa io) bs; io = io\<lparr>eio_pa := s\<rparr>
      in if rci = -1 then
           (if e = EINTR then wslay_send_callback pa_write io bs
            else if e = EAGAIN then Some (-1, wslay_event_set_error io WSLAY_ERR_WOULDBLOCK)
            else Some (-1, wslay_event_set_error io WSLAY_ERR_CALLBACK_FAILURE))
         else if rci = 0 then Some (-1, wslay_event_shutdown_write io)
         else Some (rci, io))"

section \<open>The contract of a poller adapter\<close>

text \<open>
  \<open>pending\<close> are the bytes the adapter will deliver and \<open>sent\<close> those it has taken; \<open>rticks\<close> and
  \<open>wticks\<close> bound how often it can still come back empty-handed.
\<close>

locale poller_adapter =
  fixes pa_read :: "'s \<Rightarrow> nat \<Rightarrow> int \<times> byte list \<times> errno \<times> 's"
    and pa_write :: "'s \<Rightarrow> byte list \<Rightarrow> int \<times> errno \<times> 's"
    and pending :: "'s \<Rightarrow> byte list" and sent :: "'s \<Rightarrow> byte list"
    and rticks :: "'s \<Rightarrow> nat" and wticks :: "'s \<Rightarrow> nat"
  assumes read_law: "0 < k \<Longrightarrow> pa_read s k = (r, bs, e, s') \<Longrightarrow>
      (if 0 < r then length bs = nat r \<and> nat r \<le> k \<and> pending s = bs @ pending s' \<and> rticks s' \<le> rticks s
       else -1 \<le> r \<and> pending s' = pending s \<and> rticks s' \<le> rticks s \<and>
            (pending s \<noteq> [] \<or> r = -1 \<and> e = EINTR \<longrightarrow> rticks s' < rticks s))"
    and write_law: "bs \<noteq> [] \<Longrightarrow> pa_write s bs = (r, e, s') \<Longrightarrow>
      (if 0 < r then nat r \<le> length bs \<and> sent s' = sent s @ take (nat r) bs \<and> wticks s' \<le> wticks s
       else -1 \<le> r \<and> sent s' = sent s \<and> wticks s' < wticks s)"
begin

lemma recv_callback_law:
  assumes "0 < k"
  shows "\<exists>r bs n'. wslay_recv_callback pa_read n k = Some (r, bs, n') \<and>
    (if 0 < r then length bs = nat r \<and> nat r \<le> k \<and> pending (eio_pa n) = bs @ pending (eio_pa n') \<and>
         rticks (eio_pa n') \<le> rticks (eio_pa n)
     else pending (eio_pa n') = pending (eio_pa n) \<and> (pending (eio_pa n) \<noteq> [] \<longrightarrow> rticks (eio_pa n') < rticks (eio_pa n)) \<and>
         rticks (eio_pa n') \<le> rticks (eio_pa n))"
proof (induction "rticks (eio_pa n)" arbitrary: n rule: less_induct)
  case less
  obtain r bs e s where rd: "pa_read (eio_pa n) k = (r, bs, e, s)" by (cases "pa_read (eio_pa n) k")
  note law = read_law [OF assms rd]
  note run = wslay_recv_callback.simps [of pa_read n k, unfolded rd]
  show ?case
  proof (cases "r = -1 \<and> e = EINTR")
    case True
    then have lt: "rticks s < rticks (eio_pa n)" and p: "pending s = pending (eio_pa n)" using law by auto
    show ?thesis using less.hyps [of "n\<lparr>eio_pa := s\<rparr>"] lt p run True by (fastforce simp: Let_def split: if_splits)
  next
    case False
    then show ?thesis
      using run law
      by (cases "0 < r") (auto simp: Let_def wslay_event_set_error_def wslay_event_shutdown_read_def)
  qed
qed

lemma send_callback_law:
  assumes "bs \<noteq> []"
  shows "\<exists>r n'. wslay_send_callback pa_write n bs = Some (r, n') \<and>
    (if 0 < r then nat r \<le> length bs \<and> sent (eio_pa n') = sent (eio_pa n) @ take (nat r) bs \<and>
         wticks (eio_pa n') \<le> wticks (eio_pa n)
     else sent (eio_pa n') = sent (eio_pa n) \<and> wticks (eio_pa n') < wticks (eio_pa n))"
proof (induction "wticks (eio_pa n)" arbitrary: n rule: less_induct)
  case less
  obtain r e s where wr: "pa_write (eio_pa n) bs = (r, e, s)" by (cases "pa_write (eio_pa n) bs")
  note law = write_law [OF assms wr]
  note run = wslay_send_callback.simps [of pa_write n bs, unfolded wr]
  show ?case
  proof (cases "r = -1 \<and> e = EINTR")
    case True
    then have lt: "wticks s < wticks (eio_pa n)" and p: "sent s = sent (eio_pa n)" using law by auto
    show ?thesis using less.hyps [of "n\<lparr>eio_pa := s\<rparr>"] lt p run True by (fastforce simp: Let_def split: if_splits)
  next
    case False
    then show ?thesis
      using run law
      by (cases "0 < r") (auto simp: Let_def wslay_event_set_error_def wslay_event_shutdown_write_def)
  qed
qed

end

sublocale poller_adapter \<subseteq> source: frame_source "wslay_recv_callback pa_read" "\<lambda>n. pending (eio_pa n)" "\<lambda>n. rticks (eio_pa n)"
  by unfold_locales (rule recv_callback_law)

sublocale poller_adapter \<subseteq> sink: frame_sink "wslay_send_callback pa_write" "\<lambda>n. sent (eio_pa n)" "\<lambda>n. wticks (eio_pa n)"
  by unfold_locales (rule send_callback_law)

text \<open>What a socket still holds, and how often it can refuse.\<close>

fun sk_bytes :: "sk_event \<Rightarrow> byte list" where
  "sk_bytes (SkData b bs) = b # bs"
| "sk_bytes _ = []"

definition sk_pending :: "socket \<Rightarrow> byte list" where
  "sk_pending s = concat (map sk_bytes (sk_in s))"

definition sk_rticks :: "socket \<Rightarrow> nat" where
  "sk_rticks s = length (filter (\<lambda>e. sk_bytes e = []) (sk_in s))"

definition sk_wticks :: "socket \<Rightarrow> nat" where
  "sk_wticks s = length (sk_room s)"

lemma dpa_read_law:
  assumes "0 < k" and "dpa_read s k = (r, bs, e, s')"
  shows "if 0 < r then length bs = nat r \<and> nat r \<le> k \<and> sk_pending s = bs @ sk_pending s' \<and> sk_rticks s' \<le> sk_rticks s
       else -1 \<le> r \<and> sk_pending s' = sk_pending s \<and> sk_rticks s' \<le> sk_rticks s \<and>
            (sk_pending s \<noteq> [] \<or> r = -1 \<and> e = EINTR \<longrightarrow> sk_rticks s' < sk_rticks s)"
proof (cases "sk_in s")
  case Nil
  then show ?thesis using assms by (auto simp: dpa_read_def sk_pending_def split: if_splits)
next
  case (Cons ev es)
  show ?thesis
  proof (cases ev)
    case (SkData b bs')
    have r: "bs = take k (b # bs')" "r = int (length bs)"
      "s' = s\<lparr>sk_in := (case drop k (b # bs') of [] \<Rightarrow> es | c # cs \<Rightarrow> SkData c cs # es)\<rparr>"
      using assms(2) Cons SkData by (auto simp: dpa_read_def Let_def)
    have "sk_pending s = bs @ sk_pending s'" "sk_rticks s' = sk_rticks s"
      using append_take_drop_id [of k "b # bs'"]
      by (auto simp: sk_pending_def sk_rticks_def Cons SkData r(1,3) simp del: append_take_drop_id split: list.splits)
    moreover have "0 < r" "nat r \<le> k" using r(1,2) assms(1) by (cases k; simp)+
    ultimately show ?thesis using r(2) by simp
  qed (use assms Cons in \<open>auto simp: dpa_read_def sk_pending_def sk_rticks_def\<close>)
qed

lemma dpa_write_law:
  assumes "bs \<noteq> []" and "dpa_write s bs = (r, e, s')"
  shows "if 0 < r then nat r \<le> length bs \<and> sk_out s' = sk_out s @ take (nat r) bs \<and> sk_wticks s' \<le> sk_wticks s
       else -1 \<le> r \<and> sk_out s' = sk_out s \<and> sk_wticks s' < sk_wticks s"
proof (cases "sk_room s")
  case Nil
  then show ?thesis using assms by (auto simp: dpa_write_def sk_wticks_def)
next
  case (Cons ev rs)
  then show ?thesis
    using assms by (cases ev) (auto simp: dpa_write_def sk_wticks_def Let_def min_def nat_add_distrib split: if_splits)
qed

interpretation direct: poller_adapter dpa_read dpa_write sk_pending sk_out sk_rticks sk_wticks
  by unfold_locales (rule dpa_read_law, assumption+, rule dpa_write_law, assumption+)

section \<open>Frames over a socket\<close>

text \<open>The callbacks of a connection over the direct adapter; \<open>genmask\<close> is the source of masking keys.\<close>

definition socket_callbacks ::
  "(socket event_io \<Rightarrow> nat \<Rightarrow> (int \<times> byte list \<times> socket event_io) option) \<Rightarrow> socket event_io wslay_frame_callbacks" where
  "socket_callbacks genmask =
     \<lparr>cb_send = wslay_send_callback dpa_write, cb_recv = wslay_recv_callback dpa_read, cb_genmask = genmask\<rparr>"

text \<open>A small frame, a sender whose socket refuses, stalls and splits, and a peer.\<close>

definition hello_frame :: ws_frame where
  "hello_frame = \<lparr>fr_fin = 1, fr_rsv = 0, fr_opcode = 1, fr_mask = 1, fr_key = [1, 2, 3, 4], fr_payload = [72, 105]\<rparr>"

definition hello_key :: "socket event_io \<Rightarrow> nat \<Rightarrow> (int \<times> byte list \<times> socket event_io) option" where
  "hello_key io k = Some (0, [1, 2, 3, 4], io)"

definition hello_io :: "socket \<Rightarrow> socket event_io" where
  "hello_io s = \<lparr>eio_error = 0, eio_read_enabled = True, eio_write_enabled = True, eio_pa = s\<rparr>"

definition hello_sender :: socket where
  "hello_sender = \<lparr>sk_in = [], sk_closed = False, sk_room = [SkWIntr, SkTake 0, SkWAgain], sk_out = []\<rparr>"

definition hello_peer :: socket where
  "hello_peer = \<lparr>sk_in = [SkData 129 [130], SkIntr, SkData 1 [2, 3, 4, 73, 107]], sk_closed = False, sk_room = [], sk_out = []\<rparr>"

definition hello_buf :: "byte list" where
  "hello_buf = replicate 16 0 @ [72, 105]"

lemma hello_fields:
  "fr_mask hello_frame = 1" "fr_key hello_frame = [1, 2, 3, 4]" "fr_opcode hello_frame = 1" "fr_payload hello_frame = [72, 105]"
  "hello_key io k = Some (0, [1, 2, 3, 4], io)" "eio_pa (hello_io s) = s" "length (sk_room hello_sender) = 3" "sk_out hello_sender = []"
  "sk_wticks hello_sender = 3"
  by (simp_all add: hello_frame_def hello_key_def hello_io_def hello_sender_def sk_wticks_def)

lemma hello_facts:
  "frame_ok hello_frame" "tx_idle hello_frame wslay_frame_context_init" "tx_buffer hello_frame 16 hello_buf"
  "fc_ostate wslay_frame_context_init = PREP_HEADER" "fc_omask wslay_frame_context_init = 0"
  "length (fr_payload hello_frame) = 2" "length (frame_bytes hello_frame) = 8"
  "rx_idle wslay_frame_context_init" "buffered wslay_frame_context_init = []"
  "frame_bytes hello_frame = [129, 130, 1, 2, 3, 4, 73, 107]" "sk_pending hello_peer = [129, 130, 1, 2, 3, 4, 73, 107]"
  "sk_rticks hello_peer = 1"
  by (simp_all add: frame_ok_def hello_frame_def wslay_is_ctrl_frame_def tx_idle_def wslay_frame_context_init_def tx_buffer_def
      hello_buf_def frame_bytes_def frame_head_def frame_body_def mask_from_def frame_b0_def frame_b1_def frame_ext_def
      frame_len7_def rx_idle_def rx_ok_def buffered_def avail_ibuf_def sk_pending_def hello_peer_def sk_rticks_def upt_rec)

lemma tx_idle_eq: "tx_idle fr ctx \<longleftrightarrow> fc_ostate ctx = PREP_HEADER \<and> (fr_mask fr = 1 \<or> fc_omask ctx = 0)"
  by (auto simp: tx_idle_def)



text \<open>
  C20: A frame is received whatever pieces the stream arrives in: when the bytes buffered and those
  still to come start with the encoding of a frame, calling \<open>wslay_frame_recv\<close> ends after finitely
  many calls with exactly the payload, unmasked, and the frame's flags and opcode, and leaves the
  bytes after the frame unread.
\<close>

theorem frame_recv_payload:
  assumes "frame_ok fr" and "rx_idle ctx" and "buffered ctx @ sk_pending (eio_pa io) = frame_bytes fr @ rest"
    and "length (sk_pending (eio_pa io)) + sk_rticks (eio_pa io) + length (fr_payload fr) < m"
  shows "\<exists>iocb c io'. recv_whole m (socket_callbacks genmask) ctx io = Some (fr_payload fr, iocb, c, io') \<and>
     iocb_frame fr iocb \<and> rx_idle c \<and> buffered c @ sk_pending (eio_pa io') = rest"
proof -
  have "rx_at fr 0 rest ctx (direct.source.unread ctx io)"
    using assms(2,3) by (simp add: rx_at_def rx_idle_def direct.source.unread_def)
  then show ?thesis
    using direct.source.recv_whole_step [OF _ assms(1), of "socket_callbacks genmask" 0 rest ctx io m] assms(4)
    by (simp add: socket_callbacks_def direct.source.budget_def direct.source.unread_def)
qed

theorem frame_recv_payload_witness:
  "frame_ok hello_frame \<and>
   (\<exists>iocb c io'. recv_whole 20 (socket_callbacks hello_key) wslay_frame_context_init (hello_io hello_peer) =
      Some ([72, 105], iocb, c, io') \<and> io_opcode iocb = 1)"
  using frame_recv_payload [of hello_frame wslay_frame_context_init "hello_io hello_peer" "[]" 20 hello_key]
  by (auto simp: hello_facts hello_fields iocb_frame_def)



text \<open>
  C0: A frame without a mask that is sent over a context after a masked one is not sent as it is: its
  payload goes out masked with the key of the earlier frame, while its header says that there is no
  mask, so that the receiver takes the masked bytes for the payload.
\<close>

theorem stale_mask_on_wire:
  assumes "frame_ok fr" "fr_mask fr = 0" "length (frame_bytes fr) \<le> 4096"
    and "fc_ostate ctx = PREP_HEADER" "fc_omask ctx \<noteq> 0" "tx_buffer fr d buf" "tx_iocb fr d 0 buf iocb"
    and "sk_room (eio_pa io) = []"
  shows "\<exists>c iocb' io'. wslay_frame_send (socket_callbacks genmask) ctx iocb io = Some (int (length (fr_payload fr)), c, iocb', io') \<and>
    sk_out (eio_pa io') = sk_out (eio_pa io) @ frame_head fr @ mask_from (fc_omaskkey ctx) 0 (fr_payload fr)"
proof -
  let ?bs = "frame_head fr @ mask_from (fc_omaskkey ctx) 0 (fr_payload fr)"
  have len: "length ?bs = length (frame_bytes fr)" "frame_bytes fr \<noteq> []"
    by (simp_all add: length_frame_bytes, simp add: frame_bytes_def frame_head_def)
  let ?io = "io\<lparr>eio_pa := (eio_pa io)\<lparr>sk_out := sk_out (eio_pa io) @ ?bs\<rparr>\<rparr>"
  have "cb_send (socket_callbacks genmask) io ?bs = Some (int (length (frame_bytes fr)), ?io)"
    unfolding socket_callbacks_def wslay_frame_callbacks.simps
    using len assms(8) by (subst wslay_send_callback.simps) (simp add: dpa_write_def Let_def)
  from stale_mask_send [OF assms(1-7) this] show ?thesis by fastforce
qed

theorem stale_mask_on_wire_witness:
  "\<exists>c iocb' io'. wslay_frame_send (socket_callbacks hello_key)
     (wslay_frame_context_init\<lparr>fc_omask := 1, fc_omaskkey := [1, 2, 3, 4]\<rparr>)
     \<lparr>io_fin = 1, io_rsv = 0, io_opcode = 1, io_payload_length = 2, io_mask = 0, io_buf = hello_buf, io_data = 16, io_data_length = 2\<rparr>
     (hello_io hello_peer) = Some (2, c, iocb', io') \<and> sk_out (eio_pa io') = [129, 2, 73, 107]"
proof -
  let ?fr = "\<lparr>fr_fin = 1, fr_rsv = 0, fr_opcode = 1, fr_mask = 0, fr_key = [], fr_payload = [72, 105]\<rparr>"
  let ?ctx = "wslay_frame_context_init\<lparr>fc_omask := 1, fc_omaskkey := [1, 2, 3, 4]\<rparr>"
  let ?iocb = "\<lparr>io_fin = 1, io_rsv = 0, io_opcode = 1, io_payload_length = 2, io_mask = 0, io_buf = hello_buf, io_data = 16, io_data_length = 2\<rparr>"
  have h: "frame_ok ?fr" "length (frame_bytes ?fr) \<le> 4096" "tx_buffer ?fr 16 hello_buf" "tx_iocb ?fr 16 0 hello_buf ?iocb"
    by (simp_all add: frame_ok_def wslay_is_ctrl_frame_def frame_bytes_def frame_head_def frame_ext_def frame_body_def tx_buffer_def
        tx_iocb_def iocb_frame_def hello_buf_def)
  have w: "frame_head ?fr @ mask_from [1, 2, 3, 4] 0 [72, 105] = [129, 2, 73, 107]"
    by (simp add: frame_head_def frame_b0_def frame_b1_def frame_ext_def frame_len7_def mask_from_def upt_rec)
  have s: "sk_room hello_peer = []" "sk_out hello_peer = []" by (simp_all add: hello_peer_def)
  show ?thesis
    using stale_mask_on_wire [OF h(1) _ h(2) _ _ h(3,4), of ?ctx "hello_io hello_peer" hello_key] w s
    by (auto simp: hello_fields wslay_frame_context_init_def)
qed

end
