(* ===== verification/Ws_Event.thy ===== *)
theory Ws_Event
  imports Ws_Io
begin

text \<open>
  WebSocket messages: \<open>src/src/wslay/wslay_event.c\<close> with the types of \<open>wslay_event.h\<close>, and the part of
  \<open>src/src/ws/iwn_ws_server.c\<close> that drives it. Messages are put together from frames and cut into
  frames; control messages go before others; the closing handshake is kept.

  The queues of messages and of chunks are lists: \<open>Pairs\<close> shows that \<open>wslay_queue.c\<close> implements the list
  operations used here. Allocation succeeds. The part of the context that the socket callbacks
  touch is the field \<open>ec_io\<close>. A function pointer of a fragmented message is a number, and the
  table of callbacks says what it does.
\<close>

abbreviation WSLAY_ERR_NO_MORE_MSG :: int where "WSLAY_ERR_NO_MORE_MSG \<equiv> -302"

abbreviation WSLAY_CONTINUATION_FRAME :: byte where "WSLAY_CONTINUATION_FRAME \<equiv> 0"
abbreviation WSLAY_TEXT_FRAME :: byte where "WSLAY_TEXT_FRAME \<equiv> 1"
abbreviation WSLAY_BINARY_FRAME :: byte where "WSLAY_BINARY_FRAME \<equiv> 2"
abbreviation WSLAY_CONNECTION_CLOSE :: byte where "WSLAY_CONNECTION_CLOSE \<equiv> 8"
abbreviation WSLAY_PING :: byte where "WSLAY_PING \<equiv> 9"
abbreviation WSLAY_PONG :: byte where "WSLAY_PONG \<equiv> 10"

section \<open>The UTF-8 automaton\<close>

text \<open>The table, runs of equal entries written as \<open>replicate\<close>: the classes of bytes, then the transitions.\<close>

definition utf8d :: "nat list" where
  "utf8d =
    replicate 128 0 @ replicate 16 1 @ replicate 16 9 @ replicate 32 7 @
    replicate 2 8 @ replicate 30 2 @
    [10] @ replicate 12 3 @ [4] @ replicate 2 3 @ [11] @ replicate 3 6 @ [5] @ replicate 11 8 @
    [0, 12, 24, 36, 60, 96, 84, 12, 12, 12, 48, 72, 12, 12, 12, 12, 12, 12, 12, 12, 12, 12, 12, 12,
     12, 0, 12, 12, 12, 12, 12, 0, 12, 0, 12, 12, 12, 24, 12, 12, 12, 12, 12, 24, 12, 24, 12, 12,
     12, 12, 12, 12, 12, 12, 12, 24, 12, 12, 12, 12, 12, 24, 12, 12, 12, 12, 12, 12, 12, 24, 12, 12,
     12, 12, 12, 12, 12, 12, 12, 36, 12, 36, 12, 12, 12, 36, 12, 12, 12, 12, 12, 36, 12, 36, 12, 12,
     12, 36, 12, 12, 12, 12, 12, 12, 12, 12, 12, 12]"

abbreviation UTF8_ACCEPT :: nat where "UTF8_ACCEPT \<equiv> 0"
abbreviation UTF8_REJECT :: nat where "UTF8_REJECT \<equiv> 12"

text \<open>The new state and the new code point.\<close>

definition decode :: "nat \<Rightarrow> 32 word \<Rightarrow> byte \<Rightarrow> nat \<times> 32 word" where
  "decode state codep b =
     (let type = utf8d ! unat b
      in (utf8d ! (256 + state + type),
          if state \<noteq> UTF8_ACCEPT then (ucast b AND 0x3f) OR push_bit 6 codep else drop_bit type 0xff AND ucast b))"

text \<open>The loop over received bytes: it stops at the first byte that is rejected.\<close>

fun utf8_scan :: "nat \<Rightarrow> byte list \<Rightarrow> nat" where
  "utf8_scan state [] = state"
| "utf8_scan state (b # bs) =
     (let state = fst (decode state 0 b) in if state = UTF8_REJECT then state else utf8_scan state bs)"

section \<open>Contexts\<close>

record event_imsg =
  im_fin :: byte
  im_rsv :: byte
  im_opcode :: byte
  im_utf8state :: nat
  im_chunks :: "byte list list"
  im_msg_length :: nat

datatype event_msg_type = WSLAY_NON_FRAGMENTED | WSLAY_FRAGMENTED

text \<open>\<open>om_buf\<close> is the memory behind the structure: \<open>WSLAY_FRAME_HDR_SIZ\<close> bytes for the header, then the data.\<close>

record event_omsg =
  om_fin :: byte
  om_opcode :: byte
  om_rsv :: byte
  om_type :: event_msg_type
  om_buf :: "byte list"
  om_data_length :: nat
  om_source :: int
  om_read_callback :: nat

text \<open>\<open>ec_imsg\<close> says which of the two entries of \<open>imsgs\<close> is the current one.\<close>

record ('s, 'u) event_context =
  ec_no_buffering :: bool
  ec_max_recv_msg_length :: nat
  ec_server :: bool
  ec_close_status :: byte
  ec_status_code_recv :: nat
  ec_status_code_sent :: nat
  ec_frame_ctx :: wslay_frame_context
  ec_io :: "'s event_io"
  ec_imsgs :: "event_imsg list"
  ec_imsg :: nat
  ec_ipayloadlen :: nat
  ec_ipayloadoff :: nat
  ec_omsg :: "event_omsg option"
  ec_send_queue :: "event_omsg list"
  ec_send_ctrl_queue :: "event_omsg list"
  ec_queued_msg_count :: "64 word"
  ec_queued_msg_length :: "64 word"
  ec_obuf :: "byte list"
  ec_obuflimit :: nat
  ec_obufmark :: nat
  ec_opayloadlen :: nat
  ec_opayloadoff :: nat
  ec_allowed_rsv_bits :: byte
  ec_user_data :: 'u

record event_msg =
  ms_opcode :: byte
  ms_msg :: "byte list"

record on_msg_recv_arg =
  ra_rsv :: byte
  ra_opcode :: byte
  ra_msg :: "byte list"
  ra_status_code :: nat

text \<open>
  The callbacks of a context. A callback that is not set is \<open>None\<close>. The one that reads a piece of a
  fragmented message returns its status, the bytes it stored, the end mark and the source.
\<close>

record ('s, 'u) event_callbacks =
  ecb_frame :: "'s event_io wslay_frame_callbacks"
  ecb_on_frame_recv_start :: "(('s, 'u) event_context \<Rightarrow> wslay_frame_iocb \<Rightarrow> ('s, 'u) event_context) option"
  ecb_on_frame_recv_chunk :: "(('s, 'u) event_context \<Rightarrow> byte list \<Rightarrow> ('s, 'u) event_context) option"
  ecb_on_frame_recv_end :: "(('s, 'u) event_context \<Rightarrow> ('s, 'u) event_context) option"
  ecb_on_msg_recv :: "(('s, 'u) event_context \<Rightarrow> on_msg_recv_arg \<Rightarrow> ('s, 'u) event_context) option"
  ecb_read :: "nat \<Rightarrow> ('s, 'u) event_context \<Rightarrow> nat \<Rightarrow> int \<Rightarrow> int \<times> byte list \<times> bool \<times> int \<times> ('s, 'u) event_context"

abbreviation read_enabled :: "('s, 'u) event_context \<Rightarrow> bool" where "read_enabled ctx \<equiv> eio_read_enabled (ec_io ctx)"
abbreviation write_enabled :: "('s, 'u) event_context \<Rightarrow> bool" where "write_enabled ctx \<equiv> eio_write_enabled (ec_io ctx)"

definition set_read_enabled :: "('s, 'u) event_context \<Rightarrow> bool \<Rightarrow> ('s, 'u) event_context" where
  "set_read_enabled ctx v = ctx\<lparr>ec_io := (ec_io ctx)\<lparr>eio_read_enabled := v\<rparr>\<rparr>"

definition set_write_enabled :: "('s, 'u) event_context \<Rightarrow> bool \<Rightarrow> ('s, 'u) event_context" where
  "set_write_enabled ctx v = ctx\<lparr>ec_io := (ec_io ctx)\<lparr>eio_write_enabled := v\<rparr>\<rparr>"

definition WSLAY_CLOSE_RECEIVED :: byte where "WSLAY_CLOSE_RECEIVED = 1"
definition WSLAY_CLOSE_QUEUED :: byte where "WSLAY_CLOSE_QUEUED = 2"
definition WSLAY_CLOSE_SENT :: byte where "WSLAY_CLOSE_SENT = 4"

definition wslay_get_rsv1 :: "byte \<Rightarrow> bool" where "wslay_get_rsv1 rsv \<longleftrightarrow> drop_bit 2 rsv AND 1 \<noteq> 0"

definition wslay_event_imsg_set :: "event_imsg \<Rightarrow> byte \<Rightarrow> byte \<Rightarrow> byte \<Rightarrow> event_imsg" where
  "wslay_event_imsg_set m fin rsv opcode = m\<lparr>im_fin := fin, im_rsv := rsv, im_opcode := opcode, im_msg_length := 0\<rparr>"

definition wslay_event_imsg_reset :: "event_imsg \<Rightarrow> event_imsg" where
  "wslay_event_imsg_reset m = m\<lparr>im_opcode := 0xff, im_utf8state := UTF8_ACCEPT, im_chunks := []\<rparr>"

text \<open>A new chunk is memory that is not initialised: zeros here; all of it is written before it is read.\<close>

definition wslay_event_imsg_append_chunk :: "event_imsg \<Rightarrow> nat \<Rightarrow> event_imsg" where
  "wslay_event_imsg_append_chunk m len =
     (if len = 0 then m
      else m\<lparr>im_chunks := im_chunks m @ [replicate len 0], im_msg_length := (im_msg_length m + len) mod 2 ^ 64\<rparr>)"

definition wslay_event_omsg_non_fragmented_init :: "byte \<Rightarrow> byte \<Rightarrow> byte list \<Rightarrow> event_omsg" where
  "wslay_event_omsg_non_fragmented_init opcode rsv msg =
     \<lparr>om_fin = 1, om_opcode = opcode, om_rsv = rsv, om_type = WSLAY_NON_FRAGMENTED, om_buf = replicate 16 0 @ msg,
      om_data_length = length msg, om_source = 0, om_read_callback = 0\<rparr>"

definition wslay_event_omsg_fragmented_init :: "byte \<Rightarrow> byte \<Rightarrow> int \<Rightarrow> nat \<Rightarrow> event_omsg" where
  "wslay_event_omsg_fragmented_init opcode rsv source cb =
     \<lparr>om_fin = 0, om_opcode = opcode, om_rsv = rsv, om_type = WSLAY_FRAGMENTED, om_buf = [], om_data_length = 0, om_source = source, om_read_callback = cb\<rparr>"

text \<open>The asserted length of the flattened message.\<close>

definition wslay_event_flatten_queue :: "byte list list \<Rightarrow> nat \<Rightarrow> byte list option" where
  "wslay_event_flatten_queue queue len =
     (if len = 0 then Some [] else if length (concat queue) = len then Some (concat queue) else None)"

section \<open>Queueing\<close>

definition wslay_event_is_msg_queueable :: "('s, 'u) event_context \<Rightarrow> bool" where
  "wslay_event_is_msg_queueable ctx \<longleftrightarrow> write_enabled ctx \<and> ec_close_status ctx AND WSLAY_CLOSE_QUEUED = 0"

definition wslay_event_verify_rsv_bits :: "('s, 'u) event_context \<Rightarrow> byte \<Rightarrow> bool" where
  "wslay_event_verify_rsv_bits ctx rsv \<longleftrightarrow> rsv AND NOT (ec_allowed_rsv_bits ctx) = 0"

definition wslay_event_queue_msg_ex ::
  "('s, 'u) event_context \<Rightarrow> event_msg \<Rightarrow> byte \<Rightarrow> int \<times> ('s, 'u) event_context" where
  "wslay_event_queue_msg_ex ctx arg rsv =
     (if \<not> wslay_event_is_msg_queueable ctx then (WSLAY_ERR_NO_MORE_MSG, ctx)
      else if wslay_is_ctrl_frame (ms_opcode arg) \<and> (length (ms_msg arg) > 125 \<or> wslay_get_rsv1 rsv) \<or>
          \<not> wslay_event_verify_rsv_bits ctx rsv
      then (WSLAY_ERR_INVALID_ARGUMENT, ctx)
      else
        let omsg = wslay_event_omsg_non_fragmented_init (ms_opcode arg) rsv (ms_msg arg);
            ctx = (if wslay_is_ctrl_frame (ms_opcode arg) then ctx\<lparr>ec_send_ctrl_queue := ec_send_ctrl_queue ctx @ [omsg]\<rparr>
                   else ctx\<lparr>ec_send_queue := ec_send_queue ctx @ [omsg]\<rparr>)
        in (0, ctx\<lparr>ec_queued_msg_count := ec_queued_msg_count ctx + 1,
                   ec_queued_msg_length := ec_queued_msg_length ctx + of_nat (length (ms_msg arg))\<rparr>))"

definition wslay_event_queue_msg :: "('s, 'u) event_context \<Rightarrow> event_msg \<Rightarrow> int \<times> ('s, 'u) event_context" where
  "wslay_event_queue_msg ctx arg = wslay_event_queue_msg_ex ctx arg 0"

definition wslay_event_queue_close :: "('s, 'u) event_context \<Rightarrow> nat \<Rightarrow> byte list \<Rightarrow> int \<times> ('s, 'u) event_context" where
  "wslay_event_queue_close ctx status_code reason =
     (if \<not> wslay_event_is_msg_queueable ctx then (WSLAY_ERR_NO_MORE_MSG, ctx)
      else if length reason > 123 then (WSLAY_ERR_INVALID_ARGUMENT, ctx)
      else
        let msg = (if status_code = 0 then [] else be_bytes 2 status_code @ reason);
            (r, ctx) = wslay_event_queue_msg ctx \<lparr>ms_opcode = WSLAY_CONNECTION_CLOSE, ms_msg = msg\<rparr>
        in (r, if r = 0 then ctx\<lparr>ec_close_status := ec_close_status ctx OR WSLAY_CLOSE_QUEUED\<rparr> else ctx))"

definition wslay_event_queue_close_wrapper ::
  "('s, 'u) event_context \<Rightarrow> nat \<Rightarrow> byte list \<Rightarrow> int \<times> ('s, 'u) event_context" where
  "wslay_event_queue_close_wrapper ctx status_code reason =
     (let (r, ctx) = wslay_event_queue_close (set_read_enabled ctx False) status_code reason
      in (if r \<noteq> 0 \<and> r \<noteq> WSLAY_ERR_NO_MORE_MSG then r else 0, ctx))"

definition wslay_event_queue_fragmented_msg_ex ::
  "('s, 'u) event_context \<Rightarrow> byte \<Rightarrow> int \<Rightarrow> nat \<Rightarrow> byte \<Rightarrow> int \<times> ('s, 'u) event_context" where
  "wslay_event_queue_fragmented_msg_ex ctx opcode source cb rsv =
     (if \<not> wslay_event_is_msg_queueable ctx then (WSLAY_ERR_NO_MORE_MSG, ctx)
      else if wslay_is_ctrl_frame opcode \<or> \<not> wslay_event_verify_rsv_bits ctx rsv then (WSLAY_ERR_INVALID_ARGUMENT, ctx)
      else (0, ctx\<lparr>ec_send_queue := ec_send_queue ctx @ [wslay_event_omsg_fragmented_init opcode rsv source cb],
                   ec_queued_msg_count := ec_queued_msg_count ctx + 1\<rparr>))"

definition wslay_event_queue_fragmented_msg ::
  "('s, 'u) event_context \<Rightarrow> byte \<Rightarrow> int \<Rightarrow> nat \<Rightarrow> int \<times> ('s, 'u) event_context" where
  "wslay_event_queue_fragmented_msg ctx opcode source cb = wslay_event_queue_fragmented_msg_ex ctx opcode source cb 0"

section \<open>Creating a context\<close>

definition wslay_event_context_init :: "'s \<Rightarrow> 'u \<Rightarrow> ('s, 'u) event_context" where
  "wslay_event_context_init pa user_data =
     (let im = wslay_event_imsg_reset
            \<lparr>im_fin = 0, im_rsv = 0, im_opcode = 0, im_utf8state = 0, im_chunks = [], im_msg_length = 0\<rparr>
      in \<lparr>ec_no_buffering = False, ec_max_recv_msg_length = 2 ^ 31 - 1, ec_server = False, ec_close_status = 0,
          ec_status_code_recv = 1006, ec_status_code_sent = 1006, ec_frame_ctx = wslay_frame_context_init,
          ec_io = \<lparr>eio_error = 0, eio_read_enabled = True, eio_write_enabled = True, eio_pa = pa\<rparr>,
          ec_imsgs = [im, im], ec_imsg = 0, ec_ipayloadlen = 0, ec_ipayloadoff = 0, ec_omsg = None, ec_send_queue = [],
          ec_send_ctrl_queue = [], ec_queued_msg_count = 0, ec_queued_msg_length = 0, ec_obuf = replicate 4096 0,
          ec_obuflimit = 16, ec_obufmark = 16, ec_opayloadlen = 0, ec_opayloadoff = 0, ec_allowed_rsv_bits = 0,
          ec_user_data = user_data\<rparr>)"

definition wslay_event_context_server_init :: "'s \<Rightarrow> 'u \<Rightarrow> ('s, 'u) event_context" where
  "wslay_event_context_server_init pa user_data = (wslay_event_context_init pa user_data)\<lparr>ec_server := True\<rparr>"

definition wslay_event_context_client_init :: "'s \<Rightarrow> 'u \<Rightarrow> ('s, 'u) event_context" where
  "wslay_event_context_client_init pa user_data = (wslay_event_context_init pa user_data)\<lparr>ec_server := False\<rparr>"

section \<open>Receiving\<close>

text \<open>How a part of a loop body ends: it goes on with a value, leaves the loop, or returns.\<close>

datatype ('a, 'c) flow = Go 'a | Brk 'c | Ret int 'c

definition then_flow :: "('a, 'c) flow option \<Rightarrow> ('a \<Rightarrow> ('b, 'c) flow option) \<Rightarrow> ('b, 'c) flow option" where
  "then_flow m f = (case m of None \<Rightarrow> None | Some (Go x) \<Rightarrow> f x | Some (Brk c) \<Rightarrow> Some (Brk c) | Some (Ret r c) \<Rightarrow> Some (Ret r c))"

definition close_break :: "('s, 'u) event_context \<Rightarrow> nat \<Rightarrow> ('a, ('s, 'u) event_context) flow" where
  "close_break ctx code = (let (r, ctx) = wslay_event_queue_close_wrapper ctx code [] in if r \<noteq> 0 then Ret r ctx else Brk ctx)"

definition wslay_event_is_valid_status_code :: "nat \<Rightarrow> bool" where
  "wslay_event_is_valid_status_code status_code \<longleftrightarrow>
     1000 \<le> status_code \<and> status_code \<le> 1011 \<and> status_code \<noteq> 1004 \<and> status_code \<noteq> 1005 \<and> status_code \<noteq> 1006 \<or>
     3000 \<le> status_code \<and> status_code \<le> 4999"

abbreviation cur_imsg :: "('s, 'u) event_context \<Rightarrow> event_imsg" where
  "cur_imsg ctx \<equiv> ec_imsgs ctx ! ec_imsg ctx"

definition set_imsg :: "('s, 'u) event_context \<Rightarrow> event_imsg \<Rightarrow> ('s, 'u) event_context" where
  "set_imsg ctx m = ctx\<lparr>ec_imsgs := (ec_imsgs ctx)[ec_imsg ctx := m]\<rparr>"

text \<open>Which frames may come: \<open>True\<close> when a new frame starts.\<close>

definition recv_admit ::
  "('s, 'u) event_context \<Rightarrow> wslay_frame_iocb \<Rightarrow> (bool \<times> ('s, 'u) event_context, ('s, 'u) event_context) flow" where
  "recv_admit ctx iocb =
     (if \<not> wslay_event_verify_rsv_bits ctx (io_rsv iocb) \<or>
         wslay_get_rsv1 (io_rsv iocb) \<and> (wslay_is_ctrl_frame (io_opcode iocb) \<or> io_opcode iocb = WSLAY_CONTINUATION_FRAME) \<or>
         ec_server ctx \<and> io_mask iocb = 0 \<or> \<not> ec_server ctx \<and> io_mask iocb \<noteq> 0
      then close_break ctx 1002
      else if im_opcode (cur_imsg ctx) = 0xff then
        (if io_opcode iocb \<in> {WSLAY_TEXT_FRAME, WSLAY_BINARY_FRAME, WSLAY_CONNECTION_CLOSE, WSLAY_PING, WSLAY_PONG}
         then Go (True, set_imsg ctx (wslay_event_imsg_set (cur_imsg ctx) (io_fin iocb) (io_rsv iocb) (io_opcode iocb)))
         else close_break ctx 1002)
      else if ec_ipayloadlen ctx = 0 \<and> ec_ipayloadoff ctx = 0 then
        (if io_opcode iocb = WSLAY_CONTINUATION_FRAME
         then Go (True, set_imsg ctx ((cur_imsg ctx)\<lparr>im_fin := io_fin iocb\<rparr>))
         else if io_opcode iocb \<in> {WSLAY_CONNECTION_CLOSE, WSLAY_PING, WSLAY_PONG}
         then let ctx = ctx\<lparr>ec_imsg := 1\<rparr>
              in Go (True, set_imsg ctx (wslay_event_imsg_set (cur_imsg ctx) (io_fin iocb) (io_rsv iocb) (io_opcode iocb)))
         else close_break ctx 1002)
      else Go (False, ctx))"

definition buffered_frame :: "('s, 'u) event_context \<Rightarrow> wslay_frame_iocb \<Rightarrow> bool" where
  "buffered_frame ctx iocb \<longleftrightarrow> \<not> ec_no_buffering ctx \<or> wslay_is_ctrl_frame (io_opcode iocb)"

definition recv_begin ::
  "('s, 'u) event_callbacks \<Rightarrow> wslay_frame_iocb \<Rightarrow> bool \<times> ('s, 'u) event_context \<Rightarrow>
   (('s, 'u) event_context, ('s, 'u) event_context) flow" where
  "recv_begin cb iocb nc =
     (let (new_frame, ctx) = nc
      in if new_frame then
           (if (im_msg_length (cur_imsg ctx) + io_payload_length iocb) mod 2 ^ 64 > ec_max_recv_msg_length ctx
            then close_break ctx 1009
            else
              let ctx = ctx\<lparr>ec_ipayloadlen := io_payload_length iocb\<rparr>;
                  ctx = (case ecb_on_frame_recv_start cb of None \<Rightarrow> ctx | Some f \<Rightarrow> f ctx iocb)
              in Go (if buffered_frame ctx iocb
                     then set_imsg ctx (wslay_event_imsg_append_chunk (cur_imsg ctx) (io_payload_length iocb)) else ctx))
         else Go ctx)"

definition recv_utf8 ::
  "byte list \<Rightarrow> ('s, 'u) event_context \<Rightarrow> (('s, 'u) event_context, ('s, 'u) event_context) flow" where
  "recv_utf8 data ctx =
     (let m = cur_imsg ctx
      in if \<not> wslay_get_rsv1 (im_rsv m) \<and> im_opcode m = WSLAY_TEXT_FRAME \<or> im_opcode m = WSLAY_CONNECTION_CLOSE
         then let i = (if im_opcode m = WSLAY_CONNECTION_CLOSE then 2 else 0);
                  state = utf8_scan (im_utf8state m) (drop i data);
                  ctx = set_imsg ctx (m\<lparr>im_utf8state := state\<rparr>)
              in if state = UTF8_REJECT \<and> drop i data \<noteq> [] then close_break ctx 1007
                 else if state = UTF8_REJECT then Brk ctx else Go ctx
         else if im_utf8state m = UTF8_REJECT then Brk ctx else Go ctx)"

definition recv_store ::
  "('s, 'u) event_callbacks \<Rightarrow> wslay_frame_iocb \<Rightarrow> byte list \<Rightarrow> ('s, 'u) event_context \<Rightarrow> ('s, 'u) event_context option" where
  "recv_store cb iocb data ctx =
     (let ctx = (case ecb_on_frame_recv_chunk cb of None \<Rightarrow> ctx | Some f \<Rightarrow> f ctx data)
      in if data \<noteq> [] then
           (if buffered_frame ctx iocb
            then let m = cur_imsg ctx
                 in if im_chunks m = [] then None
                    else case wr_block (last (im_chunks m)) (int (ec_ipayloadoff ctx)) data of
                      None \<Rightarrow> None
                    | Some c \<Rightarrow> Some ((set_imsg ctx (m\<lparr>im_chunks := butlast (im_chunks m) @ [c]\<rparr>))
                        \<lparr>ec_ipayloadoff := ec_ipayloadoff ctx + length data\<rparr>)
            else Some (ctx\<lparr>ec_ipayloadoff := ec_ipayloadoff ctx + length data\<rparr>))
         else Some ctx)"

text \<open>A whole message: the reply to a close or a ping is queued, then the message is handed over.\<close>

definition recv_close ::
  "byte list \<Rightarrow> ('s, 'u) event_context \<Rightarrow> (nat \<times> ('s, 'u) event_context, ('s, 'u) event_context) flow" where
  "recv_close msg ctx =
     (let n = im_msg_length (cur_imsg ctx);
          status_code = (if n \<ge> 2 then be_val (take 2 msg) else 0);
          reason = (if n \<ge> 2 then drop 2 msg else [])
      in if n \<ge> 2 \<and> \<not> wslay_event_is_valid_status_code status_code then close_break ctx 1002
         else
           let ctx = ctx\<lparr>ec_close_status := ec_close_status ctx OR WSLAY_CLOSE_RECEIVED,
                         ec_status_code_recv := (if status_code = 0 then 1005 else status_code)\<rparr>;
               (r, ctx) = wslay_event_queue_close_wrapper ctx status_code reason
           in if r \<noteq> 0 then Ret r ctx else Go (status_code, ctx))"

definition recv_ping ::
  "byte list \<Rightarrow> ('s, 'u) event_context \<Rightarrow> (nat \<times> ('s, 'u) event_context, ('s, 'u) event_context) flow" where
  "recv_ping msg ctx =
     (let (r, ctx) = wslay_event_queue_msg ctx \<lparr>ms_opcode = WSLAY_PONG, ms_msg = msg\<rparr>
      in if r \<noteq> 0 \<and> r \<noteq> WSLAY_ERR_NO_MORE_MSG then Ret r (set_read_enabled ctx False) else Go (0, ctx))"

definition recv_message ::
  "('s, 'u) event_callbacks \<Rightarrow> wslay_frame_iocb \<Rightarrow> ('s, 'u) event_context \<Rightarrow>
   (('s, 'u) event_context, ('s, 'u) event_context) flow option" where
  "recv_message cb iocb ctx =
     (let m = cur_imsg ctx
      in if ecb_on_msg_recv cb \<noteq> None \<or> im_opcode m = WSLAY_CONNECTION_CLOSE \<or> im_opcode m = WSLAY_PING
         then case (if buffered_frame ctx iocb then wslay_event_flatten_queue (im_chunks m) (im_msg_length m) else Some []) of
             None \<Rightarrow> None
           | Some msg \<Rightarrow>
               let ctx = (if buffered_frame ctx iocb \<and> im_msg_length m \<noteq> 0 then set_imsg ctx (m\<lparr>im_chunks := []\<rparr>) else ctx)
               in then_flow
                 (Some (if im_opcode m = WSLAY_CONNECTION_CLOSE then recv_close msg ctx
                        else if im_opcode m = WSLAY_PING then recv_ping msg ctx else Go (0, ctx)))
                 (\<lambda>(status_code, ctx). Some (Go (case ecb_on_msg_recv cb of None \<Rightarrow> ctx
                    | Some f \<Rightarrow> f (ctx\<lparr>ec_io := (ec_io ctx)\<lparr>eio_error := 0\<rparr>\<rparr>)
                        \<lparr>ra_rsv = im_rsv m, ra_opcode = im_opcode m, ra_msg = msg, ra_status_code = status_code\<rparr>)))
         else Some (Go ctx))"

definition recv_frame_end ::
  "('s, 'u) event_callbacks \<Rightarrow> wslay_frame_iocb \<Rightarrow> ('s, 'u) event_context \<Rightarrow>
   (('s, 'u) event_context, ('s, 'u) event_context) flow option" where
  "recv_frame_end cb iocb ctx =
     (let m = cur_imsg ctx
      in if im_fin m \<noteq> 0 \<and> (im_opcode m = WSLAY_TEXT_FRAME \<or> im_opcode m = WSLAY_CONNECTION_CLOSE) \<and> im_utf8state m \<noteq> UTF8_ACCEPT
         then Some (close_break ctx 1007)
         else
           let ctx = (case ecb_on_frame_recv_end cb of None \<Rightarrow> ctx | Some f \<Rightarrow> f ctx)
           in then_flow
             (if im_fin (cur_imsg ctx) \<noteq> 0
              then then_flow (recv_message cb iocb ctx)
                (\<lambda>ctx. let ctx = set_imsg ctx (wslay_event_imsg_reset (cur_imsg ctx))
                  in Some (Go (if ec_imsg ctx = 1 then ctx\<lparr>ec_imsg := 0\<rparr> else ctx)))
              else Some (Go ctx))
             (\<lambda>ctx. Some (Go (ctx\<lparr>ec_ipayloadlen := 0, ec_ipayloadoff := 0\<rparr>))))"

definition recv_data ::
  "('s, 'u) event_callbacks \<Rightarrow> wslay_frame_iocb \<Rightarrow> byte list \<Rightarrow> ('s, 'u) event_context \<Rightarrow>
   (('s, 'u) event_context, ('s, 'u) event_context) flow option" where
  "recv_data cb iocb data ctx =
     then_flow (Some (recv_utf8 data ctx)) (\<lambda>ctx.
       case recv_store cb iocb data ctx of
         None \<Rightarrow> None
       | Some ctx \<Rightarrow> if ec_ipayloadoff ctx = ec_ipayloadlen ctx then recv_frame_end cb iocb ctx else Some (Go ctx))"

text \<open>The body of the loop once \<open>wslay_frame_recv\<close> has returned a piece of a frame.\<close>

definition recv_piece ::
  "('s, 'u) event_callbacks \<Rightarrow> wslay_frame_iocb \<Rightarrow> ('s, 'u) event_context \<Rightarrow>
   (('s, 'u) event_context, ('s, 'u) event_context) flow option" where
  "recv_piece cb iocb ctx =
     (case rd_block (io_buf iocb) (nat (io_data iocb)) (io_data_length iocb) of
        None \<Rightarrow> None
      | Some data \<Rightarrow>
          then_flow (Some (recv_admit ctx iocb)) (\<lambda>nc.
          then_flow (Some (recv_begin cb iocb nc)) (recv_data cb iocb data)))"

text \<open>\<open>memset (&iocb, 0, ...)\<close>\<close>

definition iocb0 :: wslay_frame_iocb where
  "iocb0 = \<lparr>io_fin = 0, io_rsv = 0, io_opcode = 0, io_payload_length = 0, io_mask = 0, io_buf = [], io_data = 0, io_data_length = 0\<rparr>"

definition recv_turn ::
  "('s, 'u) event_callbacks \<Rightarrow> ('s, 'u) event_context \<Rightarrow> (('s, 'u) event_context, ('s, 'u) event_context) flow option" where
  "recv_turn cb ctx =
     (case wslay_frame_recv (ecb_frame cb) (ec_frame_ctx ctx) iocb0 (ec_io ctx) of
        None \<Rightarrow> None
      | Some (r, fc, iocb, io) \<Rightarrow>
          let ctx = ctx\<lparr>ec_frame_ctx := fc, ec_io := io\<rparr>
          in if r \<ge> 0 then recv_piece cb iocb ctx
             else if r \<noteq> WSLAY_ERR_WANT_READ \<or> eio_error io \<noteq> WSLAY_ERR_WOULDBLOCK \<and> eio_error io \<noteq> 0
             then let (r, ctx) = wslay_event_queue_close_wrapper ctx 0 []
                  in Some (if r \<noteq> 0 then Ret r ctx else Ret WSLAY_ERR_CALLBACK_FAILURE ctx)
             else Some (Brk ctx))"

partial_function (option) wslay_event_recv ::
  "('s, 'u) event_callbacks \<Rightarrow> ('s, 'u) event_context \<Rightarrow> (int \<times> ('s, 'u) event_context) option" where
  "wslay_event_recv cb ctx =
     (if read_enabled ctx
      then Option.bind (recv_turn cb ctx) (\<lambda>fl. case fl of
          Go ctx \<Rightarrow> wslay_event_recv cb ctx | Brk ctx \<Rightarrow> Some (0, ctx) | Ret r ctx \<Rightarrow> Some (r, ctx))
      else Some (0, ctx))"

section \<open>Sending\<close>

definition wslay_event_on_non_fragmented_msg_popped :: "('s, 'u) event_context \<Rightarrow> ('s, 'u) event_context" where
  "wslay_event_on_non_fragmented_msg_popped ctx = (case ec_omsg ctx of
     None \<Rightarrow> ctx
   | Some m \<Rightarrow> ctx\<lparr>ec_omsg := Some (m\<lparr>om_fin := 1\<rparr>), ec_opayloadlen := om_data_length m, ec_opayloadoff := 0\<rparr>)"

text \<open>The next control message becomes \<open>omsg\<close>; the queue is not empty.\<close>

definition wslay_event_send_ctrl_queue_pop :: "('s, 'u) event_context \<Rightarrow> ('s, 'u) event_context" where
  "wslay_event_send_ctrl_queue_pop ctx =
     (if ec_close_status ctx AND WSLAY_CLOSE_QUEUED \<noteq> 0
      then (case dropWhile (\<lambda>m. om_opcode m \<noteq> WSLAY_CONNECTION_CLOSE) (ec_send_ctrl_queue ctx) of
          [] \<Rightarrow> ctx\<lparr>ec_send_ctrl_queue := [], ec_omsg := None\<rparr>
        | m # ms \<Rightarrow> ctx\<lparr>ec_send_ctrl_queue := ms, ec_omsg := Some m\<rparr>)
      else ctx\<lparr>ec_send_ctrl_queue := tl (ec_send_ctrl_queue ctx), ec_omsg := Some (hd (ec_send_ctrl_queue ctx))\<rparr>)"

text \<open>Which message goes on: a control message goes before the rest of another one between its frames.\<close>

definition send_pick :: "('s, 'u) event_context \<Rightarrow> (('s, 'u) event_context, ('s, 'u) event_context) flow" where
  "send_pick ctx = (case ec_omsg ctx of
     None \<Rightarrow>
       (let ctx = (if ec_send_ctrl_queue ctx = []
              then ctx\<lparr>ec_omsg := Some (hd (ec_send_queue ctx)), ec_send_queue := tl (ec_send_queue ctx)\<rparr>
              else wslay_event_send_ctrl_queue_pop ctx)
        in case ec_omsg ctx of
             None \<Rightarrow> Brk ctx
           | Some m \<Rightarrow> Go (if om_type m = WSLAY_NON_FRAGMENTED then wslay_event_on_non_fragmented_msg_popped ctx else ctx))
   | Some m \<Rightarrow>
       if \<not> wslay_is_ctrl_frame (om_opcode m) \<and> fc_ostate (ec_frame_ctx ctx) = PREP_HEADER \<and> ec_send_ctrl_queue ctx \<noteq> []
       then let ctx = wslay_event_send_ctrl_queue_pop (ctx\<lparr>ec_send_queue := m # ec_send_queue ctx\<rparr>)
            in if ec_omsg ctx = None then Brk ctx else Go (wslay_event_on_non_fragmented_msg_popped ctx)
       else Go ctx)"

text \<open>What happens after \<open>wslay_frame_send\<close> reported an error.\<close>

definition send_failed ::
  "int \<Rightarrow> ('s, 'u) event_context \<Rightarrow> (('s, 'u) event_context, ('s, 'u) event_context) flow" where
  "send_failed r ctx =
     (if r \<noteq> WSLAY_ERR_WANT_WRITE \<or> eio_error (ec_io ctx) \<noteq> WSLAY_ERR_WOULDBLOCK \<and> eio_error (ec_io ctx) \<noteq> 0
      then Ret WSLAY_ERR_CALLBACK_FAILURE (set_write_enabled ctx False) else Brk ctx)"

text \<open>The end of a message that is not fragmented; a close ends sending.\<close>

definition send_msg_done :: "event_omsg \<Rightarrow> ('s, 'u) event_context \<Rightarrow> ('s, 'u) event_context" where
  "send_msg_done m ctx =
     (let ctx = ctx\<lparr>ec_queued_msg_count := ec_queued_msg_count ctx - 1,
                   ec_queued_msg_length := ec_queued_msg_length ctx - of_nat (om_data_length m)\<rparr>;
          status_code = (if om_data_length m \<ge> 2 then be_val (take 2 (drop 16 (om_buf m))) else 0);
          ctx = (if om_opcode m = WSLAY_CONNECTION_CLOSE
                 then (set_write_enabled ctx False)\<lparr>ec_close_status := ec_close_status ctx OR WSLAY_CLOSE_SENT,
                        ec_status_code_sent := (if status_code = 0 then 1005 else status_code)\<rparr>
                 else ctx)
      in ctx\<lparr>ec_omsg := None\<rparr>)"

definition send_non_fragmented ::
  "('s, 'u) event_callbacks \<Rightarrow> event_omsg \<Rightarrow> ('s, 'u) event_context \<Rightarrow>
   (('s, 'u) event_context, ('s, 'u) event_context) flow option" where
  "send_non_fragmented cb m ctx =
     (let iocb = \<lparr>io_fin = 1, io_rsv = om_rsv m, io_opcode = om_opcode m, io_payload_length = ec_opayloadlen ctx,
            io_mask = (if ec_server ctx then 0 else 1), io_buf = om_buf m, io_data = 16 + int (ec_opayloadoff ctx),
            io_data_length = ec_opayloadlen ctx - ec_opayloadoff ctx\<rparr>
      in case wslay_frame_send (ecb_frame cb) (ec_frame_ctx ctx) iocb (ec_io ctx) of
           None \<Rightarrow> None
         | Some (r, fc, iocb, io) \<Rightarrow>
             let m = m\<lparr>om_buf := io_buf iocb\<rparr>; ctx = ctx\<lparr>ec_frame_ctx := fc, ec_io := io, ec_omsg := Some m\<rparr>
             in Some (if r \<ge> 0
                then let ctx = ctx\<lparr>ec_opayloadoff := ec_opayloadoff ctx + nat r\<rparr>
                     in if ec_opayloadoff ctx = ec_opayloadlen ctx then Go (send_msg_done m ctx) else Brk ctx
                else send_failed r ctx))"

text \<open>A fragmented message: the next piece is read when the buffer is empty.\<close>

definition send_read ::
  "('s, 'u) event_callbacks \<Rightarrow> event_omsg \<Rightarrow> ('s, 'u) event_context \<Rightarrow>
   (event_omsg \<times> ('s, 'u) event_context, ('s, 'u) event_context) flow option" where
  "send_read cb m ctx =
     (if om_fin m = 0 \<and> ec_obuflimit ctx = ec_obufmark ctx
      then let (r, bs, eof, source, ctx) = ecb_read cb (om_read_callback m) ctx (4096 - 16) (om_source m);
               m = m\<lparr>om_source := source\<rparr>; ctx = ctx\<lparr>ec_omsg := Some m\<rparr>
           in if r = 0 \<and> \<not> eof then Some (Brk ctx)
              else if r < 0 then Some (Ret WSLAY_ERR_CALLBACK_FAILURE (set_write_enabled ctx False))
              else case wr_block (ec_obuf ctx) 16 bs of
                  None \<Rightarrow> None
                | Some buf \<Rightarrow>
                    let m = (if eof then m\<lparr>om_fin := 1\<rparr> else m)
                    in Some (Go (m, ctx\<lparr>ec_obuf := buf, ec_obuflimit := 16 + nat r, ec_omsg := Some m,
                         ec_opayloadlen := nat r, ec_opayloadoff := 0\<rparr>))
      else Some (Go (m, ctx)))"

definition send_piece_done :: "event_omsg \<Rightarrow> ('s, 'u) event_context \<Rightarrow> ('s, 'u) event_context" where
  "send_piece_done m ctx =
     (let ctx = ctx\<lparr>ec_obufmark := 16, ec_obuflimit := 16\<rparr>
      in if om_fin m \<noteq> 0 then ctx\<lparr>ec_queued_msg_count := ec_queued_msg_count ctx - 1, ec_omsg := None\<rparr>
         else ctx\<lparr>ec_omsg := Some (m\<lparr>om_opcode := WSLAY_CONTINUATION_FRAME, om_rsv := om_rsv m AND NOT 4\<rparr>)\<rparr>)"

definition send_fragmented ::
  "('s, 'u) event_callbacks \<Rightarrow> event_omsg \<Rightarrow> ('s, 'u) event_context \<Rightarrow>
   (('s, 'u) event_context, ('s, 'u) event_context) flow option" where
  "send_fragmented cb m ctx =
     then_flow (send_read cb m ctx) (\<lambda>(m, ctx).
       let iocb = \<lparr>io_fin = om_fin m, io_rsv = om_rsv m, io_opcode = om_opcode m, io_payload_length = ec_opayloadlen ctx,
            io_mask = (if ec_server ctx then 0 else 1), io_buf = ec_obuf ctx, io_data = int (ec_obufmark ctx),
            io_data_length = ec_obuflimit ctx - ec_obufmark ctx\<rparr>
       in case wslay_frame_send (ecb_frame cb) (ec_frame_ctx ctx) iocb (ec_io ctx) of
            None \<Rightarrow> None
          | Some (r, fc, iocb, io) \<Rightarrow>
              let ctx = ctx\<lparr>ec_frame_ctx := fc, ec_io := io, ec_obuf := io_buf iocb\<rparr>
              in Some (if r \<ge> 0
                 then let ctx = ctx\<lparr>ec_obufmark := ec_obufmark ctx + nat r\<rparr>
                      in if ec_obufmark ctx = ec_obuflimit ctx then Go (send_piece_done m ctx) else Brk ctx
                 else send_failed r ctx))"

definition send_turn ::
  "('s, 'u) event_callbacks \<Rightarrow> ('s, 'u) event_context \<Rightarrow> (('s, 'u) event_context, ('s, 'u) event_context) flow option" where
  "send_turn cb ctx =
     then_flow (Some (send_pick ctx)) (\<lambda>ctx. case ec_omsg ctx of
         None \<Rightarrow> None
       | Some m \<Rightarrow> if om_type m = WSLAY_NON_FRAGMENTED then send_non_fragmented cb m ctx else send_fragmented cb m ctx)"

definition wslay_event_want_read :: "('s, 'u) event_context \<Rightarrow> bool" where
  "wslay_event_want_read ctx = read_enabled ctx"

definition wslay_event_want_write :: "('s, 'u) event_context \<Rightarrow> bool" where
  "wslay_event_want_write ctx \<longleftrightarrow>
     write_enabled ctx \<and> (ec_send_queue ctx \<noteq> [] \<or> ec_send_ctrl_queue ctx \<noteq> [] \<or> ec_omsg ctx \<noteq> None)"

partial_function (option) wslay_event_send ::
  "('s, 'u) event_callbacks \<Rightarrow> ('s, 'u) event_context \<Rightarrow> (int \<times> ('s, 'u) event_context) option" where
  "wslay_event_send cb ctx =
     (if write_enabled ctx \<and> (ec_send_queue ctx \<noteq> [] \<or> ec_send_ctrl_queue ctx \<noteq> [] \<or> ec_omsg ctx \<noteq> None)
      then Option.bind (send_turn cb ctx) (\<lambda>fl. case fl of
          Go ctx \<Rightarrow> wslay_event_send cb ctx | Brk ctx \<Rightarrow> Some (0, ctx) | Ret r ctx \<Rightarrow> Some (r, ctx))
      else Some (0, ctx))"

section \<open>Settings and state\<close>

definition wslay_event_get_close_received :: "('s, 'u) event_context \<Rightarrow> bool" where
  "wslay_event_get_close_received ctx \<longleftrightarrow> ec_close_status ctx AND WSLAY_CLOSE_RECEIVED \<noteq> 0"

definition wslay_event_get_close_sent :: "('s, 'u) event_context \<Rightarrow> bool" where
  "wslay_event_get_close_sent ctx \<longleftrightarrow> ec_close_status ctx AND WSLAY_CLOSE_SENT \<noteq> 0"

definition wslay_event_config_set_allowed_rsv_bits :: "('s, 'u) event_context \<Rightarrow> byte \<Rightarrow> ('s, 'u) event_context" where
  "wslay_event_config_set_allowed_rsv_bits ctx rsv = ctx\<lparr>ec_allowed_rsv_bits := rsv AND 4\<rparr>"

definition wslay_event_config_set_no_buffering :: "('s, 'u) event_context \<Rightarrow> bool \<Rightarrow> ('s, 'u) event_context" where
  "wslay_event_config_set_no_buffering ctx val = ctx\<lparr>ec_no_buffering := val\<rparr>"

definition wslay_event_config_set_max_recv_msg_length :: "('s, 'u) event_context \<Rightarrow> nat \<Rightarrow> ('s, 'u) event_context" where
  "wslay_event_config_set_max_recv_msg_length ctx val = ctx\<lparr>ec_max_recv_msg_length := val\<rparr>"

definition wslay_event_get_queued_msg_count :: "('s, 'u) event_context \<Rightarrow> 64 word" where
  "wslay_event_get_queued_msg_count ctx = ec_queued_msg_count ctx"

definition wslay_event_get_queued_msg_length :: "('s, 'u) event_context \<Rightarrow> 64 word" where
  "wslay_event_get_queued_msg_length ctx = ec_queued_msg_length ctx"

section \<open>The server\<close>

text \<open>
  The messages of a session that wait for the handler; the handler itself is the parameter of
  \<open>on_poller_adapter_event\<close>.
\<close>

record ws_msg =
  wm_opcode :: byte
  wm_buf :: "byte list"

record ws_spec =
  sp_handler_set :: bool
  sp_ping_pong :: bool

definition wslay_msg_recv_callback ::
  "ws_spec \<Rightarrow> ('s, ws_msg list) event_context \<Rightarrow> on_msg_recv_arg \<Rightarrow> ('s, ws_msg list) event_context" where
  "wslay_msg_recv_callback spec ctx arg =
     (if \<not> sp_handler_set spec \<or>
         \<not> (length (ra_msg arg) > 0 \<and> (ra_opcode arg = WSLAY_TEXT_FRAME \<or> ra_opcode arg = WSLAY_BINARY_FRAME) \<or>
             sp_ping_pong spec \<and> (ra_opcode arg = WSLAY_PING \<or> ra_opcode arg = WSLAY_PONG))
      then ctx
      else ctx\<lparr>ec_user_data := ec_user_data ctx @ [\<lparr>wm_opcode = ra_opcode arg, wm_buf = ra_msg arg\<rparr>]\<rparr>)"

definition server_callbacks ::
  "'s event_io wslay_frame_callbacks \<Rightarrow> ws_spec \<Rightarrow> ('s, ws_msg list) event_callbacks" where
  "server_callbacks fcb spec =
     \<lparr>ecb_frame = fcb, ecb_on_frame_recv_start = None, ecb_on_frame_recv_chunk = None, ecb_on_frame_recv_end = None,
      ecb_on_msg_recv = Some (wslay_msg_recv_callback spec), ecb_read = (\<lambda>_ ctx _ src. (-1, [], False, src, ctx))\<rparr>"

text \<open>The messages are handed to \<open>handler\<close>, in order, until it refuses one.\<close>

fun handle_msgs :: "('h \<Rightarrow> ws_msg \<Rightarrow> bool \<times> 'h) \<Rightarrow> 'h \<Rightarrow> int \<Rightarrow> ws_msg list \<Rightarrow> int \<times> 'h" where
  "handle_msgs handler h ret [] = (ret, h)"
| "handle_msgs handler h ret (m # ms) =
     (if ret \<noteq> -1
      then let (ok, h) = handler h m in handle_msgs handler h (if ok then ret else -1) ms
      else handle_msgs handler h ret ms)"

definition on_poller_adapter_event ::
  "('s, ws_msg list) event_callbacks \<Rightarrow> ('h \<Rightarrow> ws_msg \<Rightarrow> bool \<times> 'h) \<Rightarrow> 'h \<Rightarrow> ('s, ws_msg list) event_context \<Rightarrow>
   (int \<times> 'h \<times> ('s, ws_msg list) event_context) option" where
  "on_poller_adapter_event cb handler h ctx = do {
     (r, ctx) \<leftarrow> (if wslay_event_want_write ctx then wslay_event_send cb ctx else Some (0, ctx));
     if r < 0 then Some (-1, h, ctx)
     else do {
       (r, ctx) \<leftarrow> (if wslay_event_want_read ctx then wslay_event_recv cb ctx else Some (0, ctx));
       if r < 0 then Some (-1, h, ctx)
       else do {
         let ret = (if wslay_event_want_read ctx then 1 else 0) + (if wslay_event_want_write ctx then 4 else 0);
         let (ret, h) = handle_msgs handler h ret (ec_user_data ctx);
         Some (if ret = 0 then -1 else ret, h, ctx\<lparr>ec_user_data := []\<rparr>)
       }
     }
   }"

text \<open>\<open>arm\<close> is the poller's: its status is an argument.\<close>

definition ws_server_write ::
  "('s, 'u) event_context \<Rightarrow> byte list \<Rightarrow> byte \<Rightarrow> int \<Rightarrow> bool \<times> ('s, 'u) event_context" where
  "ws_server_write ctx buf opc arm_status =
     (let ctx = (if opc = WSLAY_CONNECTION_CLOSE then set_read_enabled ctx False else ctx);
          (r, ctx) = wslay_event_queue_msg ctx \<lparr>ms_opcode = opc, ms_msg = buf\<rparr>
      in if r \<noteq> 0 then (False, ctx) else (arm_status = 0, ctx))"

section \<open>UTF-8\<close>

text \<open>The grammar of RFC 3629, section 4.\<close>

definition utf8_tail :: "byte \<Rightarrow> bool" where "utf8_tail b \<longleftrightarrow> 0x80 \<le> b \<and> b \<le> 0xBF"

fun valid_utf8 :: "byte list \<Rightarrow> bool" where
  "valid_utf8 [] \<longleftrightarrow> True"
| "valid_utf8 (a # bs) \<longleftrightarrow>
     (if a \<le> 0x7F then valid_utf8 bs
      else if 0xC2 \<le> a \<and> a \<le> 0xDF then (case bs of b # r \<Rightarrow> utf8_tail b \<and> valid_utf8 r | _ \<Rightarrow> False)
      else if 0xE0 \<le> a \<and> a \<le> 0xEF then
        (case bs of b # c # r \<Rightarrow> (if a = 0xE0 then 0xA0 \<le> b \<and> b \<le> 0xBF else if a = 0xED then 0x80 \<le> b \<and> b \<le> 0x9F else utf8_tail b) \<and>
             utf8_tail c \<and> valid_utf8 r | _ \<Rightarrow> False)
      else if 0xF0 \<le> a \<and> a \<le> 0xF4 then
        (case bs of b # c # d # r \<Rightarrow>
             (if a = 0xF0 then 0x90 \<le> b \<and> b \<le> 0xBF else if a = 0xF4 then 0x80 \<le> b \<and> b \<le> 0x8F else utf8_tail b) \<and>
             utf8_tail c \<and> utf8_tail d \<and> valid_utf8 r | _ \<Rightarrow> False)
      else False)"

definition utf8_next :: "nat \<Rightarrow> nat \<Rightarrow> nat" where
  "utf8_next s n = utf8d ! (256 + s + utf8d ! n)"

lemma decode_next: "fst (decode s c b) = utf8_next s (unat b)"
  by (simp add: decode_def utf8_next_def Let_def)

definition from_start :: "nat \<Rightarrow> nat" where
  "from_start n = (if n < 0x80 then 0 else if 0xC2 \<le> n \<and> n \<le> 0xDF then 24 else if n = 0xE0 then 48 else if n = 0xED then 60
     else if 0xE0 \<le> n \<and> n \<le> 0xEF then 36 else if n = 0xF0 then 72 else if n = 0xF4 then 96 else if 0xF0 \<le> n \<and> n \<le> 0xF4 then 84 else 12)"

definition utf8_class :: "nat \<Rightarrow> nat" where
  "utf8_class n = (if n < 0x80 then 0 else if n < 0x90 then 1 else if n < 0xA0 then 9 else if n < 0xC0 then 7 else if n < 0xC2 then 8
     else if n < 0xE0 then 2 else if n = 0xE0 then 10 else if n = 0xED then 4 else if n < 0xF0 then 3 else if n = 0xF0 then 11
     else if n < 0xF4 then 6 else if n = 0xF4 then 5 else 8)"

definition utf8_classes :: "nat list" where
  "utf8_classes = replicate 128 0 @ replicate 16 1 @ replicate 16 9 @ replicate 32 7 @ replicate 2 8 @ replicate 30 2 @
    [10] @ replicate 12 3 @ [4] @ replicate 2 3 @ [11] @ replicate 3 6 @ [5] @ replicate 11 8"

definition utf8_trans :: "nat list" where
  "utf8_trans =
    [0, 12, 24, 36, 60, 96, 84, 12, 12, 12, 48, 72, 12, 12, 12, 12, 12, 12, 12, 12, 12, 12, 12, 12,
     12, 0, 12, 12, 12, 12, 12, 0, 12, 0, 12, 12, 12, 24, 12, 12, 12, 12, 12, 24, 12, 24, 12, 12,
     12, 12, 12, 12, 12, 12, 12, 24, 12, 12, 12, 12, 12, 24, 12, 12, 12, 12, 12, 12, 12, 24, 12, 12,
     12, 12, 12, 12, 12, 12, 12, 36, 12, 36, 12, 12, 12, 36, 12, 12, 12, 12, 12, 36, 12, 36, 12, 12,
     12, 36, 12, 12, 12, 12, 12, 12, 12, 12, 12, 12]"

lemma utf8d_split: "utf8d = utf8_classes @ utf8_trans" "length utf8_classes = 256"
  by (simp_all add: utf8d_def utf8_classes_def utf8_trans_def)

lemma utf8d_trans: "utf8d ! (256 + k) = utf8_trans ! k"
  unfolding utf8d_split(1) nth_append utf8d_split(2) by simp

lemma utf8_runs:
  "m < 128 \<Longrightarrow> utf8_classes ! (0 + m) = 0"
  "m < 16 \<Longrightarrow> utf8_classes ! (128 + m) = 1"
  "m < 16 \<Longrightarrow> utf8_classes ! (144 + m) = 9"
  "m < 32 \<Longrightarrow> utf8_classes ! (160 + m) = 7"
  "m < 2 \<Longrightarrow> utf8_classes ! (192 + m) = 8"
  "m < 30 \<Longrightarrow> utf8_classes ! (194 + m) = 2"
  "m < 1 \<Longrightarrow> utf8_classes ! (224 + m) = 10"
  "m < 12 \<Longrightarrow> utf8_classes ! (225 + m) = 3"
  "m < 1 \<Longrightarrow> utf8_classes ! (237 + m) = 4"
  "m < 2 \<Longrightarrow> utf8_classes ! (238 + m) = 3"
  "m < 1 \<Longrightarrow> utf8_classes ! (240 + m) = 11"
  "m < 3 \<Longrightarrow> utf8_classes ! (241 + m) = 6"
  "m < 1 \<Longrightarrow> utf8_classes ! (244 + m) = 5"
  "m < 11 \<Longrightarrow> utf8_classes ! (245 + m) = 8"
  by (simp_all add: utf8_classes_def nth_append)

lemma utf8d_class:
  assumes "n < 256"
  shows "utf8d ! n = utf8_class n"
proof -
  have "utf8_classes ! n = utf8_class n"
    using assms
    apply (cases "n < 128")
     apply (use utf8_runs(1) [of "n - 0"] in \<open>simp add: utf8_class_def\<close>)
    apply (cases "n < 144")
     apply (use utf8_runs(2) [of "n - 128"] in \<open>simp add: utf8_class_def\<close>)
    apply (cases "n < 160")
     apply (use utf8_runs(3) [of "n - 144"] in \<open>simp add: utf8_class_def\<close>)
    apply (cases "n < 192")
     apply (use utf8_runs(4) [of "n - 160"] in \<open>simp add: utf8_class_def\<close>)
    apply (cases "n < 194")
     apply (use utf8_runs(5) [of "n - 192"] in \<open>simp add: utf8_class_def\<close>)
    apply (cases "n < 224")
     apply (use utf8_runs(6) [of "n - 194"] in \<open>simp add: utf8_class_def\<close>)
    apply (cases "n = 224")
     apply (use utf8_runs(7) [of "n - 224"] in \<open>simp add: utf8_class_def\<close>)
    apply (cases "n < 237")
     apply (use utf8_runs(8) [of "n - 225"] in \<open>simp add: utf8_class_def\<close>)
    apply (cases "n = 237")
     apply (use utf8_runs(9) [of "n - 237"] in \<open>simp add: utf8_class_def\<close>)
    apply (cases "n < 240")
     apply (use utf8_runs(10) [of "n - 238"] in \<open>simp add: utf8_class_def\<close>)
    apply (cases "n = 240")
     apply (use utf8_runs(11) [of "n - 240"] in \<open>simp add: utf8_class_def\<close>)
    apply (cases "n < 244")
     apply (use utf8_runs(12) [of "n - 241"] in \<open>simp add: utf8_class_def\<close>)
    apply (cases "n = 244")
     apply (use utf8_runs(13) [of "n - 244"] in \<open>simp add: utf8_class_def\<close>)
    apply (use utf8_runs(14) [of "n - 245"] in \<open>simp add: utf8_class_def\<close>)
    done
  then show ?thesis using assms by (simp add: utf8d_split nth_append)
qed

lemma utf8_transitions:
  assumes "n < 256"
  shows "utf8_next 0 n = from_start n"
    "utf8_next 12 n = 12"
    "utf8_next 24 n = (if 0x80 \<le> n \<and> n \<le> 0xBF then 0 else 12)"
    "utf8_next 36 n = (if 0x80 \<le> n \<and> n \<le> 0xBF then 24 else 12)"
    "utf8_next 48 n = (if 0xA0 \<le> n \<and> n \<le> 0xBF then 24 else 12)"
    "utf8_next 60 n = (if 0x80 \<le> n \<and> n \<le> 0x9F then 24 else 12)"
    "utf8_next 72 n = (if 0x90 \<le> n \<and> n \<le> 0xBF then 36 else 12)"
    "utf8_next 84 n = (if 0x80 \<le> n \<and> n \<le> 0xBF then 36 else 12)"
    "utf8_next 96 n = (if 0x80 \<le> n \<and> n \<le> 0x8F then 36 else 12)"
  unfolding utf8_next_def utf8d_class [OF assms] add.assoc utf8d_trans
  by (auto simp: utf8_class_def utf8_trans_def from_start_def)

text \<open>What may still come in each state of the automaton.\<close>

definition lang1 :: "byte list \<Rightarrow> bool" where "lang1 bs = (case bs of b # r \<Rightarrow> utf8_tail b \<and> valid_utf8 r | _ \<Rightarrow> False)"
definition lang2 :: "byte list \<Rightarrow> bool" where "lang2 bs = (case bs of b # r \<Rightarrow> utf8_tail b \<and> lang1 r | _ \<Rightarrow> False)"

definition utf8_lang :: "nat \<Rightarrow> byte list \<Rightarrow> bool" where
  "utf8_lang s bs =
     (if s = 0 then valid_utf8 bs
      else if s = 24 then lang1 bs
      else if s = 36 then lang2 bs
      else case bs of [] \<Rightarrow> False | b # r \<Rightarrow>
        (s = 48 \<and> 0xA0 \<le> b \<and> b \<le> 0xBF \<or> s = 60 \<and> 0x80 \<le> b \<and> b \<le> 0x9F) \<and> lang1 r \<or>
        (s = 72 \<and> 0x90 \<le> b \<and> b \<le> 0xBF \<or> s = 84 \<and> utf8_tail b \<or> s = 96 \<and> 0x80 \<le> b \<and> b \<le> 0x8F) \<and> lang2 r)"

lemma utf8_lang_12: "\<not> utf8_lang 12 bs"
  by (simp add: utf8_lang_def split: list.split)

lemma utf8_lang_simps:
  "utf8_lang 0 bs = valid_utf8 bs" "utf8_lang 24 bs = lang1 bs" "utf8_lang 36 bs = lang2 bs"
  "utf8_lang 48 (b # bs) \<longleftrightarrow> 0xA0 \<le> b \<and> b \<le> 0xBF \<and> lang1 bs" "utf8_lang 60 (b # bs) \<longleftrightarrow> 0x80 \<le> b \<and> b \<le> 0x9F \<and> lang1 bs"
  "utf8_lang 72 (b # bs) \<longleftrightarrow> 0x90 \<le> b \<and> b \<le> 0xBF \<and> lang2 bs" "utf8_lang 84 (b # bs) \<longleftrightarrow> utf8_tail b \<and> lang2 bs"
  "utf8_lang 96 (b # bs) \<longleftrightarrow> 0x80 \<le> b \<and> b \<le> 0x8F \<and> lang2 bs"
  "lang1 (b # bs) \<longleftrightarrow> utf8_tail b \<and> valid_utf8 bs" "lang2 (b # bs) \<longleftrightarrow> utf8_tail b \<and> lang1 bs"
  by (auto simp: utf8_lang_def lang1_def lang2_def)

lemma valid_from_start: "valid_utf8 (a # bs) \<longleftrightarrow> utf8_lang (from_start (unat a)) bs"
  unfolding from_start_def utf8_lang_def
  by (auto simp: word_le_nat_alt word_less_nat_alt lang1_def lang2_def word_unat_eq_iff split: list.split)

lemma lang_step:
  assumes "s \<in> {0, 24, 36, 48, 60, 72, 84, 96}"
  shows "utf8_lang s (b # bs) \<longleftrightarrow> utf8_lang (utf8_next s (unat b)) bs"
proof -
  have n: "unat b < 256" using unsigned_less [of b, where 'a = nat] by simp
  show ?thesis
  proof (cases "s = 0")
    case True
    then show ?thesis using valid_from_start [of b bs] by (simp add: utf8_transitions [OF n] utf8_lang_def)
  next
    case False
    then show ?thesis
      using assms
      by (elim insertE emptyE; hypsubst; auto simp: utf8_transitions [OF n] utf8_lang_simps utf8_lang_12 utf8_tail_def word_le_nat_alt)
  qed
qed

lemma next_state: "s \<in> {0, 24, 36, 48, 60, 72, 84, 96} \<Longrightarrow> utf8_next s (unat (b :: byte)) \<in> {0, 12, 24, 36, 48, 60, 72, 84, 96}"
proof -
  have n: "unat b < 256" using unsigned_less [of b, where 'a = nat] by simp
  show "s \<in> {0, 24, 36, 48, 60, 72, 84, 96} \<Longrightarrow> ?thesis"
    by (elim insertE emptyE; hypsubst; simp add: utf8_transitions [OF n] from_start_def)
qed

lemma utf8_scan_lang: "s \<in> {0, 24, 36, 48, 60, 72, 84, 96} \<Longrightarrow> utf8_scan s bs = UTF8_ACCEPT \<longleftrightarrow> utf8_lang s bs"
proof (induction bs arbitrary: s)
  case Nil
  then show ?case by (auto simp: utf8_lang_def lang1_def lang2_def)
next
  case (Cons b bs)
  show ?case
  proof (cases "utf8_next s (unat b) = 12")
    case True
    then show ?thesis using lang_step [OF Cons.prems, of b bs] by (simp add: decode_next utf8_lang_12)
  next
    case False
    then show ?thesis
      using lang_step [OF Cons.prems, of b bs] Cons.IH [of "utf8_next s (unat b)"] next_state [OF Cons.prems, of b]
      by (simp add: decode_next)
  qed
qed

lemma utf8_scan_state: "s \<in> {0, 24, 36, 48, 60, 72, 84, 96} \<Longrightarrow> utf8_scan s bs \<in> {0, 12, 24, 36, 48, 60, 72, 84, 96}"
proof (induction bs arbitrary: s)
  case (Cons b bs)
  show ?case
  proof (cases "utf8_next s (unat b) = 12")
    case False
    then have "utf8_next s (unat b) \<in> {0, 24, 36, 48, 60, 72, 84, 96}" using next_state [OF Cons.prems, of b] by simp
    from Cons.IH [OF this] show ?thesis using False by (simp only: utf8_scan.simps decode_next Let_def if_False)
  qed (simp add: decode_next)
qed auto

lemma utf8_scan_append: "utf8_scan s xs \<noteq> 12 \<Longrightarrow> utf8_scan s (xs @ ys) = utf8_scan (utf8_scan s xs) ys"
  by (induction xs arbitrary: s) (auto simp: Let_def split: if_splits)

lemma utf8_scan_reject: "utf8_scan s xs = 12 \<Longrightarrow> xs \<noteq> [] \<Longrightarrow> utf8_scan s (xs @ ys) = 12"
proof (induction xs arbitrary: s)
  case (Cons x xs)
  then show ?case by (cases "xs = []") (auto simp: Let_def split: if_splits)
qed simp

text \<open>
  C0: The automaton of the table accepts exactly the byte strings that are UTF-8 by the grammar of
  RFC 3629: no overlong forms, no surrogates, nothing above U+10FFFF.\<close>

theorem utf8_automaton: "utf8_scan UTF8_ACCEPT bs = UTF8_ACCEPT \<longleftrightarrow> valid_utf8 bs"
  using utf8_scan_lang [of 0 bs] by (simp add: utf8_lang_simps)

end
