(* ===== verification/Ws_Message.thy ===== *)
theory Ws_Message
  imports Ws_Event
begin

text \<open>
  How \<open>wslay_event_recv\<close> of \<open>src/src/wslay/wslay_event.c\<close> puts a message together: lemmas on the stages of
  \<open>recv_piece\<close> for one piece, one frame and all frames of a message, and the property of whole messages.
\<close>

section \<open>Messages put together from pieces\<close>

text \<open>
  The frame layer hands over a frame in pieces, each with the header fields of the frame, and a message
  comes in one or more frames. \<open>frame_iocbs\<close> are the pieces \<open>ds\<close> of a frame from a client,
  \<open>message_iocbs\<close> those of a message whose frames come in the pieces \<open>dss\<close>.
\<close>

definition piece_iocb :: "byte \<Rightarrow> byte \<Rightarrow> nat \<Rightarrow> byte list \<Rightarrow> wslay_frame_iocb" where
  "piece_iocb fin opcode n d = \<lparr>io_fin = fin, io_rsv = 0, io_opcode = opcode, io_payload_length = n, io_mask = 1,
     io_buf = d, io_data = 0, io_data_length = length d\<rparr>"

definition frame_iocbs :: "byte \<Rightarrow> byte \<Rightarrow> byte list list \<Rightarrow> wslay_frame_iocb list" where
  "frame_iocbs fin opcode ds = map (piece_iocb fin opcode (length (concat ds))) ds"

fun message_iocbs :: "byte \<Rightarrow> byte list list list \<Rightarrow> wslay_frame_iocb list" where
  "message_iocbs opcode [] = []"
| "message_iocbs opcode (ds # dss) = frame_iocbs (if dss = [] then 1 else 0) opcode ds @ message_iocbs WSLAY_CONTINUATION_FRAME dss"

fun recv_pieces ::
  "('s, 'u) event_callbacks \<Rightarrow> wslay_frame_iocb list \<Rightarrow> ('s, 'u) event_context \<Rightarrow>
   (('s, 'u) event_context, ('s, 'u) event_context) flow option" where
  "recv_pieces cb [] ctx = Some (Go ctx)"
| "recv_pieces cb (io # ios) ctx = then_flow (recv_piece cb io ctx) (recv_pieces cb ios)"

text \<open>The pieces of a payload are not empty; an empty payload is one empty piece.\<close>

definition payload_pieces :: "byte list list \<Rightarrow> bool" where
  "payload_pieces ds \<longleftrightarrow> ds = [[]] \<or> ds \<noteq> [] \<and> [] \<notin> set ds"

text \<open>A server context between two messages.\<close>

definition idle :: "('s, 'u) event_context \<Rightarrow> bool" where
  "idle ctx \<longleftrightarrow> ec_server ctx \<and> \<not> ec_no_buffering ctx \<and> length (ec_imsgs ctx) = 2 \<and> ec_imsg ctx = 0 \<and>
     im_opcode (ec_imsgs ctx ! 0) = 0xff \<and> im_chunks (ec_imsgs ctx ! 0) = [] \<and> im_utf8state (ec_imsgs ctx ! 0) = UTF8_ACCEPT \<and>
     ec_ipayloadlen ctx = 0 \<and> ec_ipayloadoff ctx = 0"

text \<open>
  The context in the middle of a message: the chunks \<open>cs\<close> of the frames before, the part \<open>q\<close> of the payload
  \<open>p\<close> of the current frame and the state \<open>us\<close> of the UTF-8 check.
\<close>

definition chunk :: "byte list \<Rightarrow> byte list list" where "chunk p = (if p = [] then [] else [p])"

definition mid_imsg :: "event_imsg \<Rightarrow> byte \<Rightarrow> byte \<Rightarrow> byte list list \<Rightarrow> byte list \<Rightarrow> byte list \<Rightarrow> nat \<Rightarrow> event_imsg" where
  "mid_imsg m fin opcode cs p q us = m\<lparr>im_fin := fin, im_rsv := 0, im_opcode := opcode, im_utf8state := us,
     im_chunks := (if p = [] then cs else cs @ [q @ replicate (length p - length q) 0]), im_msg_length := length (concat cs) + length p\<rparr>"

definition mid ::
  "('s, 'u) event_context \<Rightarrow> byte \<Rightarrow> byte \<Rightarrow> byte list list \<Rightarrow> byte list \<Rightarrow> byte list \<Rightarrow> nat \<Rightarrow> ('s, 'u) event_context" where
  "mid ctx fin opcode cs p q us = ctx\<lparr>ec_imsgs := (ec_imsgs ctx)[0 := mid_imsg (ec_imsgs ctx ! 0) fin opcode cs p q us],
     ec_ipayloadlen := length p, ec_ipayloadoff := length q\<rparr>"

text \<open>Callbacks of a server: none of them but the one for messages.\<close>

definition plain_callbacks :: "('s, 'u) event_callbacks \<Rightarrow> bool" where
  "plain_callbacks cb \<longleftrightarrow> ecb_on_frame_recv_start cb = None \<and> ecb_on_frame_recv_chunk cb = None \<and> ecb_on_frame_recv_end cb = None"

definition msg_opcode :: "byte \<Rightarrow> bool" where "msg_opcode opcode \<longleftrightarrow> opcode = WSLAY_TEXT_FRAME \<or> opcode = WSLAY_BINARY_FRAME"

definition scan_state :: "byte \<Rightarrow> nat \<Rightarrow> byte list \<Rightarrow> nat" where
  "scan_state opcode us d = (if opcode = WSLAY_TEXT_FRAME then utf8_scan us d else us)"

lemma then_flow_simps [simp]:
  "then_flow None f = None" "then_flow (Some (Go x)) f = f x" "then_flow (Some (Brk c)) f = Some (Brk c)"
  "then_flow (Some (Ret r c)) f = Some (Ret r c)"
  by (simp_all add: then_flow_def)

lemma then_flow_assoc: "then_flow (then_flow m f) g = then_flow m (\<lambda>x. then_flow (f x) g)"
  by (simp add: then_flow_def split: option.splits flow.splits)

lemma recv_pieces_append: "recv_pieces cb (xs @ ys) ctx = then_flow (recv_pieces cb xs ctx) (recv_pieces cb ys)"
proof (induction xs arbitrary: ctx)
  case (Cons x xs)
  then have "recv_pieces cb (xs @ ys) = (\<lambda>ctx. then_flow (recv_pieces cb xs ctx) (recv_pieces cb ys))" by (simp add: fun_eq_iff)
  then show ?case by (simp add: then_flow_assoc)
qed simp

lemma piece_iocb_simps [simp]:
  "io_fin (piece_iocb fin opcode n d) = fin" "io_rsv (piece_iocb fin opcode n d) = 0" "io_opcode (piece_iocb fin opcode n d) = opcode"
  "io_payload_length (piece_iocb fin opcode n d) = n" "io_mask (piece_iocb fin opcode n d) = 1"
  "rd_block (io_buf (piece_iocb fin opcode n d)) (nat (io_data (piece_iocb fin opcode n d))) (io_data_length (piece_iocb fin opcode n d)) = Some d"
  by (simp_all add: piece_iocb_def rd_block_def)

lemma mid_simps [simp]:
  "ec_imsg (mid ctx fin opcode cs p q us) = ec_imsg ctx" "ec_ipayloadlen (mid ctx fin opcode cs p q us) = length p"
  "ec_ipayloadoff (mid ctx fin opcode cs p q us) = length q" "ec_io (mid ctx fin opcode cs p q us) = ec_io ctx"
  "ec_no_buffering (mid ctx fin opcode cs p q us) = ec_no_buffering ctx" "ec_server (mid ctx fin opcode cs p q us) = ec_server ctx"
  "ec_user_data (mid ctx fin opcode cs p q us) = ec_user_data ctx" "ec_send_queue (mid ctx fin opcode cs p q us) = ec_send_queue ctx"
  "ec_send_ctrl_queue (mid ctx fin opcode cs p q us) = ec_send_ctrl_queue ctx" "ec_close_status (mid ctx fin opcode cs p q us) = ec_close_status ctx"
  "ec_allowed_rsv_bits (mid ctx fin opcode cs p q us) = ec_allowed_rsv_bits ctx"
  "ec_max_recv_msg_length (mid ctx fin opcode cs p q us) = ec_max_recv_msg_length ctx"
  by (simp_all add: mid_def)

lemma mid_imsg_simps [simp]:
  "im_fin (mid_imsg m fin opcode cs p q us) = fin" "im_rsv (mid_imsg m fin opcode cs p q us) = 0"
  "im_opcode (mid_imsg m fin opcode cs p q us) = opcode" "im_utf8state (mid_imsg m fin opcode cs p q us) = us"
  "im_msg_length (mid_imsg m fin opcode cs p q us) = length (concat cs) + length p"
  "im_chunks (mid_imsg m fin opcode cs p q us) = (if p = [] then cs else cs @ [q @ replicate (length p - length q) 0])"
  "mid_imsg m fin opcode cs p q us\<lparr>im_utf8state := us'\<rparr> = mid_imsg m fin opcode cs p q us'"
  "mid_imsg m fin opcode cs p q us\<lparr>im_fin := fin'\<rparr> = mid_imsg m fin' opcode cs p q us"
  by (cases m, simp add: mid_imsg_def)+

lemma mid_imsg_chunks:
  "p \<noteq> [] \<Longrightarrow> mid_imsg m fin opcode cs p q us\<lparr>im_chunks := cs @ [q' @ replicate (length p - length q') 0]\<rparr> = mid_imsg m fin opcode cs p q' us"
  by (cases m) (simp add: mid_imsg_def)

lemma mid_imsg_start:
  "im_chunks m = [] \<Longrightarrow> im_utf8state m = UTF8_ACCEPT \<Longrightarrow> wslay_event_imsg_set m fin 0 opcode = mid_imsg m fin opcode [] [] [] UTF8_ACCEPT"
  by (cases m) (simp add: mid_imsg_def wslay_event_imsg_set_def)

lemma mid_imsg_append:
  "length (concat cs) + length p < 2 ^ 63 \<Longrightarrow>
   wslay_event_imsg_append_chunk (mid_imsg m fin opcode cs [] [] us) (length p) = mid_imsg m fin opcode cs p [] us"
  by (cases m) (simp add: mid_imsg_def wslay_event_imsg_append_chunk_def)

lemma mid_imsg_full: "mid_imsg m fin opcode cs p p us = mid_imsg m fin opcode (cs @ chunk p) [] [] us"
  by (simp add: mid_imsg_def chunk_def)

lemma mid_cur [simp]: "idle ctx \<Longrightarrow> ec_imsgs (mid ctx fin opcode cs p q us) ! 0 = mid_imsg (ec_imsgs ctx ! 0) fin opcode cs p q us"
  by (simp add: mid_def idle_def)

lemma mid_set_imsg:
  "idle ctx \<Longrightarrow> set_imsg (mid ctx fin opcode cs p q us) (mid_imsg (ec_imsgs ctx ! 0) fin' opcode cs' p' q' us') =
   (mid ctx fin' opcode cs' p' q' us')\<lparr>ec_ipayloadlen := length p, ec_ipayloadoff := length q\<rparr>"
  by (cases ctx) (simp add: set_imsg_def mid_def idle_def)

lemma mid_len: "(mid ctx fin opcode cs p q us)\<lparr>ec_ipayloadlen := length p, ec_ipayloadoff := length q\<rparr> = mid ctx fin opcode cs p q us"
  "(mid ctx fin opcode cs p q us)\<lparr>ec_ipayloadlen := length p\<rparr> = mid ctx fin opcode cs p q us"
  "(mid ctx fin opcode cs p q us)\<lparr>ec_ipayloadoff := length q\<rparr> = mid ctx fin opcode cs p q us"
  "(mid ctx fin opcode cs p q us)\<lparr>ec_ipayloadoff := n, ec_ipayloadoff := length q\<rparr> = mid ctx fin opcode cs p q us"
  "(mid ctx fin opcode cs p q us)\<lparr>ec_ipayloadlen := n, ec_ipayloadoff := length q, ec_ipayloadlen := length p\<rparr> = mid ctx fin opcode cs p q us"
  "(mid ctx fin opcode cs p q us)\<lparr>ec_ipayloadlen := length p, ec_ipayloadoff := n, ec_ipayloadoff := length q\<rparr> = mid ctx fin opcode cs p q us"
  by (cases ctx, simp add: mid_def)+

lemma mid_start:
  "idle ctx \<Longrightarrow> set_imsg ctx (mid_imsg (ec_imsgs ctx ! 0) fin opcode cs [] [] us) = mid ctx fin opcode cs [] [] us"
  by (cases ctx) (simp add: set_imsg_def mid_def idle_def)

lemma mid_begin:
  "idle ctx \<Longrightarrow> set_imsg ((mid ctx fin opcode cs [] [] us)\<lparr>ec_ipayloadlen := length p\<rparr>) (mid_imsg (ec_imsgs ctx ! 0) fin opcode cs p [] us) =
   mid ctx fin opcode cs p [] us"
  by (cases ctx) (simp add: set_imsg_def mid_def idle_def)

lemma mid_full: "(mid ctx fin opcode cs p p us)\<lparr>ec_ipayloadlen := 0, ec_ipayloadoff := 0\<rparr> = mid ctx fin opcode (cs @ chunk p) [] [] us"
  by (cases ctx) (simp add: mid_def mid_imsg_full [where cs = cs and p = p])

text \<open>A frame starts: the first of a message, or a continuation.\<close>

lemma frame_begin:
  assumes id: "idle ctx" and cb: "plain_callbacks cb"
    and len: "length (concat cs) + length p \<le> ec_max_recv_msg_length ctx" "length (concat cs) + length p < 2 ^ 63"
  shows "recv_begin cb (piece_iocb fin opc (length p) d) (True, mid ctx fin opcode cs [] [] us) = Go (mid ctx fin opcode cs p [] us)"
proof -
  have "ec_imsg ctx = 0" "\<not> ec_no_buffering ctx" using id by (simp_all add: idle_def)
  then show ?thesis
    using cb len mid_begin [OF id] id mid_imsg_append [OF len(2)]
    by (simp add: recv_begin_def plain_callbacks_def buffered_frame_def Let_def)
qed

lemma rsv0 [simp]: "wslay_event_verify_rsv_bits ctx 0" "\<not> wslay_get_rsv1 0"
  by (simp_all add: wslay_event_verify_rsv_bits_def wslay_get_rsv1_def)

lemma piece_first:
  assumes "idle ctx" "plain_callbacks cb" "opcode \<in> {WSLAY_TEXT_FRAME, WSLAY_BINARY_FRAME, WSLAY_CONNECTION_CLOSE, WSLAY_PING, WSLAY_PONG}" "length p \<le> ec_max_recv_msg_length ctx" "length p < 2 ^ 63"
  shows "recv_piece cb (piece_iocb fin opcode (length p) d) ctx =
    recv_data cb (piece_iocb fin opcode (length p) d) d (mid ctx fin opcode [] p [] UTF8_ACCEPT)"
proof -
  have "recv_admit ctx (piece_iocb fin opcode (length p) d) = Go (True, mid ctx fin opcode [] [] [] UTF8_ACCEPT)"
    using assms(1,3) mid_start [OF assms(1)] mid_imsg_start [of "ec_imsgs ctx ! 0"]
    by (auto simp: recv_admit_def idle_def)
  then show ?thesis using frame_begin [OF assms(1,2), of "[]" p] assms(4,5) by (simp add: recv_piece_def)
qed

lemma piece_continuation:
  assumes "idle ctx" "plain_callbacks cb" "msg_opcode opcode"
    "length (concat cs) + length p \<le> ec_max_recv_msg_length ctx" "length (concat cs) + length p < 2 ^ 63"
  shows "recv_piece cb (piece_iocb fin WSLAY_CONTINUATION_FRAME (length p) d) (mid ctx fin' opcode cs [] [] us) =
    recv_data cb (piece_iocb fin WSLAY_CONTINUATION_FRAME (length p) d) d (mid ctx fin opcode cs p [] us)"
proof -
  have "ec_imsg ctx = 0" "ec_server ctx" using assms(1) by (simp_all add: idle_def)
  moreover have "opcode \<noteq> 0xff" using assms(3) by (auto simp: msg_opcode_def)
  moreover have "set_imsg (mid ctx fin' opcode cs [] [] us) (mid_imsg (ec_imsgs ctx ! 0) fin opcode cs [] [] us) = mid ctx fin opcode cs [] [] us"
    by (simp only: mid_set_imsg [OF assms(1)] mid_len)
  ultimately have "recv_admit (mid ctx fin' opcode cs [] [] us) (piece_iocb fin WSLAY_CONTINUATION_FRAME (length p) d) =
      Go (True, mid ctx fin opcode cs [] [] us)"
    using assms(1)
    by (simp add: recv_admit_def)
  then show ?thesis using frame_begin [OF assms(1,2,4,5)] by (simp add: recv_piece_def)
qed

lemma piece_next:
  assumes "idle ctx" "msg_opcode opcode" "q \<noteq> []" "length q < length p"
  shows "recv_piece cb (piece_iocb fin opc (length p) d) (mid ctx fin opcode cs p q us) =
    recv_data cb (piece_iocb fin opc (length p) d) d (mid ctx fin opcode cs p q us)"
proof -
  have "ec_imsg ctx = 0" "ec_server ctx" using assms(1) by (simp_all add: idle_def)
  moreover have "opcode \<noteq> 0xff" using assms(2) by (auto simp: msg_opcode_def)
  ultimately have "recv_admit (mid ctx fin opcode cs p q us) (piece_iocb fin opc (length p) d) = Go (False, mid ctx fin opcode cs p q us)"
    using assms by (auto simp: recv_admit_def)
  then show ?thesis by (simp add: recv_piece_def recv_begin_def)
qed

text \<open>One piece is checked and stored, and ends the frame when it is the last one.\<close>

lemma piece_checked:
  assumes id: "idle ctx" and us: "us \<noteq> UTF8_REJECT" and op: "msg_opcode opcode"
  shows "recv_utf8 d (mid ctx fin opcode cs p q us) =
    (if scan_state opcode us d = UTF8_REJECT then close_break (mid ctx fin opcode cs p q UTF8_REJECT) 1007
     else Go (mid ctx fin opcode cs p q (scan_state opcode us d)))"
proof -
  have i: "ec_imsg ctx = 0" using id by (simp add: idle_def)
  have set: "set_imsg (mid ctx fin opcode cs p q us) (mid_imsg (ec_imsgs ctx ! 0) fin opcode cs p q us') = mid ctx fin opcode cs p q us'" for us'
    by (simp add: mid_set_imsg [OF id] mid_len)
  have "scan_state opcode us d = UTF8_REJECT \<Longrightarrow> d \<noteq> []" using us by (auto simp: scan_state_def split: if_splits)
  then show ?thesis
    using op us id i set by (auto simp: recv_utf8_def msg_opcode_def scan_state_def Let_def)
qed

lemma piece_stored:
  assumes id: "idle ctx" and cb: "plain_callbacks cb" and q: "length (q @ d) \<le> length p"
  shows "recv_store cb io d (mid ctx fin opcode cs p q us) = Some (mid ctx fin opcode cs p (q @ d) us)"
proof (cases "d = []")
  case True
  then show ?thesis using cb by (simp add: recv_store_def plain_callbacks_def Let_def)
next
  case False
  then have p: "p \<noteq> []" using q by auto
  have i: "ec_imsg ctx = 0" "\<not> ec_no_buffering ctx" using id by (simp_all add: idle_def)
  have w: "wr_block (q @ replicate (length p - length q) 0) (int (length q)) d = Some ((q @ d) @ replicate (length p - length (q @ d)) 0)"
    using q by (simp add: wr_block_def)
  have "(set_imsg (mid ctx fin opcode cs p q us)
          (mid_imsg (ec_imsgs ctx ! 0) fin opcode cs p q us\<lparr>im_chunks := cs @ [(q @ d) @ replicate (length p - length (q @ d)) 0]\<rparr>))
      \<lparr>ec_ipayloadoff := length (q @ d)\<rparr> = mid ctx fin opcode cs p (q @ d) us"
    by (simp only: mid_imsg_chunks [OF p] mid_set_imsg [OF id] mid_len)
  then show ?thesis
    using False cb i p w id by (simp add: recv_store_def plain_callbacks_def buffered_frame_def Let_def del: append_assoc)
qed

lemma piece_data:
  assumes "idle ctx" "plain_callbacks cb" "msg_opcode opcode" "length (q @ d) \<le> length p" "us \<noteq> UTF8_REJECT"
  shows "recv_data cb io d (mid ctx fin opcode cs p q us) =
    (if scan_state opcode us d = UTF8_REJECT then Some (close_break (mid ctx fin opcode cs p q UTF8_REJECT) 1007)
     else if length (q @ d) = length p then recv_frame_end cb io (mid ctx fin opcode cs p (q @ d) (scan_state opcode us d))
     else Some (Go (mid ctx fin opcode cs p (q @ d) (scan_state opcode us d))))"
  using piece_checked [OF assms(1,5,3)] piece_stored [OF assms(1,2,4)]
  by (simp add: recv_data_def close_break_def Let_def split: prod.splits)


text \<open>The end of a frame: a fragment is kept; the last one completes the message, which goes to the callback.\<close>

lemma fragment_end:
  assumes "idle ctx" "plain_callbacks cb"
  shows "recv_frame_end cb io (mid ctx 0 opcode cs p p us) = Some (Go (mid ctx 0 opcode (cs @ chunk p) [] [] us))"
  using assms mid_full [of ctx 0 opcode cs p us] by (simp add: recv_frame_end_def plain_callbacks_def idle_def)

lemma concat_chunk [simp]: "concat (chunk p) = p"
  by (simp add: chunk_def)

text \<open>What the handler gets of a message; the rest of the context that a message leaves as it was.\<close>

definition delivered :: "ws_spec \<Rightarrow> byte \<Rightarrow> byte list \<Rightarrow> ws_msg list" where
  "delivered spec opcode msg = (if sp_handler_set spec \<and> msg \<noteq> [] then [\<lparr>wm_opcode = opcode, wm_buf = msg\<rparr>] else [])"

definition same_output :: "('s, 'u) event_context \<Rightarrow> ('s, 'u) event_context \<Rightarrow> bool" where
  "same_output ctx ctx' \<longleftrightarrow> ec_send_queue ctx' = ec_send_queue ctx \<and> ec_send_ctrl_queue ctx' = ec_send_ctrl_queue ctx \<and>
     ec_close_status ctx' = ec_close_status ctx \<and> read_enabled ctx' = read_enabled ctx \<and> write_enabled ctx' = write_enabled ctx"

lemma message_end:
  assumes id: "idle ctx" and op: "msg_opcode opcode" and us: "opcode = WSLAY_TEXT_FRAME \<longrightarrow> us = UTF8_ACCEPT"
  shows "\<exists>ctx'. recv_frame_end (server_callbacks fcb spec) io (mid ctx 1 opcode cs p p us) = Some (Go ctx') \<and> idle ctx' \<and>
    same_output ctx ctx' \<and> ec_user_data ctx' = ec_user_data ctx @ delivered spec opcode (concat cs @ p)"
proof -
  have i: "ec_imsg ctx = 0" "\<not> ec_no_buffering ctx" using id by (simp_all add: idle_def)
  have fl: "wslay_event_flatten_queue (im_chunks (mid_imsg m 1 opcode cs p p us)) (length (concat cs) + length p) = Some (concat cs @ p)" for m
    by (auto simp: wslay_event_flatten_queue_def)
  define ctx0 where "ctx0 = (if length (concat cs) + length p \<noteq> 0
    then set_imsg (mid ctx 1 opcode cs p p us) (mid_imsg (ec_imsgs ctx ! 0) 1 opcode cs p p us\<lparr>im_chunks := []\<rparr>) else mid ctx 1 opcode cs p p us)
      \<lparr>ec_io := (ec_io ctx)\<lparr>eio_error := 0\<rparr>\<rparr>"
  define ctx1 where "ctx1 = wslay_msg_recv_callback spec ctx0 \<lparr>ra_rsv = 0, ra_opcode = opcode, ra_msg = concat cs @ p, ra_status_code = 0\<rparr>"
  define ctx2 where "ctx2 = (set_imsg ctx1 (wslay_event_imsg_reset (cur_imsg ctx1)))\<lparr>ec_ipayloadlen := 0, ec_ipayloadoff := 0\<rparr>"
  have ctx1: "ec_imsg ctx1 = 0" "length (ec_imsgs ctx1) = length (ec_imsgs ctx)" "ec_server ctx1 = ec_server ctx" "ec_no_buffering ctx1 = ec_no_buffering ctx"
    "same_output ctx ctx1" "ec_user_data ctx1 = ec_user_data ctx @ delivered spec opcode (concat cs @ p)"
    using i op unfolding ctx1_def ctx0_def
    by (auto simp: wslay_msg_recv_callback_def set_imsg_def mid_def same_output_def delivered_def msg_opcode_def)
  have m: "recv_message (server_callbacks fcb spec) io (mid ctx 1 opcode cs p p us) = Some (Go ctx1)"
    using i op fl id unfolding recv_message_def ctx1_def ctx0_def
    by (auto simp: buffered_frame_def server_callbacks_def msg_opcode_def set_imsg_def Let_def)
  have "recv_frame_end (server_callbacks fcb spec) io (mid ctx 1 opcode cs p p us) = Some (Go ctx2)"
    using i op us id m ctx1(1) unfolding recv_frame_end_def ctx2_def
    by (auto simp: msg_opcode_def server_callbacks_def set_imsg_def Let_def)
  moreover have "idle ctx2" "same_output ctx ctx2" "ec_user_data ctx2 = ec_user_data ctx1"
    using ctx1 id unfolding ctx2_def by (auto simp: idle_def same_output_def set_imsg_def wslay_event_imsg_reset_def)
  ultimately show ?thesis using ctx1(6) by auto
qed

text \<open>A frame: its pieces end in the end of the frame, or in the refusal of the text.\<close>

lemma scan_state_append: "scan_state opcode us a \<noteq> UTF8_REJECT \<Longrightarrow> scan_state opcode us (a @ b) = scan_state opcode (scan_state opcode us a) b"
  by (auto simp: scan_state_def utf8_scan_append split: if_splits)

lemma scan_state_reject: "scan_state opcode us a = UTF8_REJECT \<Longrightarrow> us \<noteq> UTF8_REJECT \<Longrightarrow> scan_state opcode us (a @ b) = UTF8_REJECT"
  by (cases "a = []") (auto simp: scan_state_def utf8_scan_reject split: if_splits)

lemma scan_state_Nil [simp]: "scan_state opcode us [] = us"
  by (simp add: scan_state_def)

lemma then_flow_close [simp]: "then_flow (Some (close_break c n)) f = Some (close_break c n)"
  by (simp add: close_break_def Let_def split: prod.splits)

lemma then_flow_Go [simp]: "then_flow m (\<lambda>c. Some (Go c)) = m"
  by (simp add: then_flow_def split: option.splits flow.splits)

definition frame_outcome ::
  "('s, 'u) event_callbacks \<Rightarrow> ('s, 'u) event_context \<Rightarrow> byte \<Rightarrow> byte \<Rightarrow> byte list list \<Rightarrow> byte list \<Rightarrow> nat \<Rightarrow>
   (('s, 'u) event_context, ('s, 'u) event_context) flow option \<Rightarrow> bool" where
  "frame_outcome cb ctx fin opcode cs p us res \<longleftrightarrow>
     (if us = UTF8_REJECT then \<exists>q. res = Some (close_break (mid ctx fin opcode cs p q UTF8_REJECT) 1007)
      else \<exists>io. res = recv_frame_end cb io (mid ctx fin opcode cs p p us))"

lemma frame_data:
  assumes "idle ctx" "plain_callbacks cb" "msg_opcode opcode" "p = q @ d @ concat ds" "d \<noteq> [] \<or> ds = []" "[] \<notin> set ds" "us \<noteq> UTF8_REJECT"
  shows "frame_outcome cb ctx fin opcode cs p (scan_state opcode us (d @ concat ds))
    (then_flow (recv_data cb io d (mid ctx fin opcode cs p q us)) (recv_pieces cb (map (piece_iocb fin opc (length p)) ds)))"
  using assms(4-)
proof (induction ds arbitrary: q d us io)
  case Nil
  then show ?case
    using piece_data [OF assms(1-3), of q d p us io fin cs] by (auto simp: frame_outcome_def)
next
  case (Cons d' ds)
  let ?us = "scan_state opcode us d"
  have d': "d' \<noteq> []" "d \<noteq> []" "q @ d \<noteq> []" "length (q @ d) < length p" using Cons.prems by auto
  have data: "recv_data cb io d (mid ctx fin opcode cs p q us) =
      (if ?us = UTF8_REJECT then Some (close_break (mid ctx fin opcode cs p q UTF8_REJECT) 1007) else Some (Go (mid ctx fin opcode cs p (q @ d) ?us)))"
    using piece_data [OF assms(1-3), of q d p us io fin cs] d'(4) Cons.prems(4) by simp
  show ?case
  proof (cases "?us = UTF8_REJECT")
    case True
    then have "scan_state opcode us (d @ concat (d' # ds)) = UTF8_REJECT" using scan_state_reject Cons.prems(4) by blast
    then show ?thesis using data True by (auto simp: frame_outcome_def)
  next
    case False
    have nx: "recv_piece cb (piece_iocb fin opc (length p) d') (mid ctx fin opcode cs p (q @ d) ?us) =
        recv_data cb (piece_iocb fin opc (length p) d') d' (mid ctx fin opcode cs p (q @ d) ?us)"
      using piece_next [OF assms(1,3) d'(3,4)] .
    show ?thesis
      using Cons.IH [where q = "q @ d" and d = d' and us = ?us and io = "piece_iocb fin opc (length p) d'"] Cons.prems d' False data nx
      by (simp add: scan_state_append)
  qed
qed

lemma payload_pieces_split: "payload_pieces ds \<Longrightarrow> \<exists>d ds'. ds = d # ds' \<and> (d \<noteq> [] \<or> ds' = []) \<and> [] \<notin> set ds'"
  by (cases ds) (auto simp: payload_pieces_def)

lemma first_frame:
  assumes "idle ctx" "plain_callbacks cb" "msg_opcode opcode" "payload_pieces ds"
    "length (concat ds) \<le> ec_max_recv_msg_length ctx" "length (concat ds) < 2 ^ 63"
  shows "frame_outcome cb ctx fin opcode [] (concat ds) (scan_state opcode UTF8_ACCEPT (concat ds)) (recv_pieces cb (frame_iocbs fin opcode ds) ctx)"
proof -
  obtain d ds' where ds: "ds = d # ds'" "d \<noteq> [] \<or> ds' = []" "[] \<notin> set ds'" using payload_pieces_split [OF assms(4)] by blast
  show ?thesis
    using frame_data [OF assms(1-3), where p = "concat ds" and q = "[]" and d = d and ds = ds' and us = UTF8_ACCEPT and cs = "[]" and opc = opcode]
      piece_first [OF assms(1,2) _ assms(5,6), of opcode] assms(3) ds by (auto simp: frame_iocbs_def msg_opcode_def)
qed

lemma next_frame:
  assumes "idle ctx" "plain_callbacks cb" "msg_opcode opcode" "payload_pieces ds" "us \<noteq> UTF8_REJECT"
    "length (concat cs) + length (concat ds) \<le> ec_max_recv_msg_length ctx" "length (concat cs) + length (concat ds) < 2 ^ 63"
  shows "frame_outcome cb ctx fin opcode cs (concat ds) (scan_state opcode us (concat ds))
    (recv_pieces cb (frame_iocbs fin WSLAY_CONTINUATION_FRAME ds) (mid ctx fin' opcode cs [] [] us))"
proof -
  obtain d ds' where ds: "ds = d # ds'" "d \<noteq> [] \<or> ds' = []" "[] \<notin> set ds'" using payload_pieces_split [OF assms(4)] by blast
  show ?thesis
    using frame_data [OF assms(1-3), where p = "concat ds" and q = "[]" and d = d and ds = ds' and us = us and cs = cs and opc = WSLAY_CONTINUATION_FRAME]
      piece_continuation [OF assms(1-3,6,7)] ds assms(5) by (simp add: frame_iocbs_def)
qed

text \<open>A message: all its frames.\<close>

definition refused ::
  "('s, 'u) event_context \<Rightarrow> byte \<Rightarrow> (('s, 'u) event_context, ('s, 'u) event_context) flow option \<Rightarrow> bool" where
  "refused ctx opcode res \<longleftrightarrow> (\<exists>fin cs p q us. res = Some (close_break (mid ctx fin opcode cs p q us) 1007))"

lemma refusedI [simp]: "refused ctx opcode (Some (close_break (mid ctx fin opcode cs p q us) 1007))"
  unfolding refused_def by blast

definition message_outcome ::
  "ws_spec \<Rightarrow> ('s, ws_msg list) event_context \<Rightarrow> byte \<Rightarrow> byte list \<Rightarrow> bool \<Rightarrow>
   (('s, ws_msg list) event_context, ('s, ws_msg list) event_context) flow option \<Rightarrow> bool" where
  "message_outcome spec ctx opcode msg ok res \<longleftrightarrow>
     (if ok then \<exists>ctx'. res = Some (Go ctx') \<and> idle ctx' \<and> same_output ctx ctx' \<and> ec_user_data ctx' = ec_user_data ctx @ delivered spec opcode msg
      else refused ctx opcode res)"

lemma plain_server [simp]: "plain_callbacks (server_callbacks fcb spec)"
  by (simp add: plain_callbacks_def server_callbacks_def)

lemma last_frame:
  assumes "idle ctx" "msg_opcode opcode" "frame_outcome (server_callbacks fcb spec) ctx 1 opcode cs p us res"
  shows "message_outcome spec ctx opcode (concat cs @ p) (us \<noteq> UTF8_REJECT \<and> (opcode = WSLAY_TEXT_FRAME \<longrightarrow> us = UTF8_ACCEPT)) res"
proof (cases "opcode = WSLAY_TEXT_FRAME \<longrightarrow> us = UTF8_ACCEPT")
  case True
  then show ?thesis using message_end [OF assms(1,2) True] assms(3) by (auto simp: message_outcome_def frame_outcome_def split: if_splits)
next
  case False
  then have "recv_frame_end (server_callbacks fcb spec) io (mid ctx 1 opcode cs p p us) = Some (close_break (mid ctx 1 opcode cs p p us) 1007)" for io
    using assms(1) by (simp add: recv_frame_end_def idle_def)
  then show ?thesis using assms(3) False by (auto simp: message_outcome_def frame_outcome_def split: if_splits)
qed

lemma not_last_frame:
  assumes "idle ctx" "frame_outcome (server_callbacks fcb spec) ctx 0 opcode cs p us res"
    and "us \<noteq> UTF8_REJECT \<Longrightarrow> message_outcome spec ctx opcode msg ok (recv_pieces (server_callbacks fcb spec) ios (mid ctx 0 opcode (cs @ chunk p) [] [] us))"
    and "us = UTF8_REJECT \<Longrightarrow> \<not> ok"
  shows "message_outcome spec ctx opcode msg ok (then_flow res (recv_pieces (server_callbacks fcb spec) ios))"
  using assms(2-) fragment_end [OF assms(1) plain_server] by (auto simp: message_outcome_def frame_outcome_def split: if_splits)

definition scan_ok :: "byte \<Rightarrow> nat \<Rightarrow> byte list \<Rightarrow> bool" where
  "scan_ok opcode us msg \<longleftrightarrow> scan_state opcode us msg \<noteq> UTF8_REJECT \<and> (opcode = WSLAY_TEXT_FRAME \<longrightarrow> scan_state opcode us msg = UTF8_ACCEPT)"

lemma scan_ok_append: "scan_state opcode us a \<noteq> UTF8_REJECT \<Longrightarrow> scan_ok opcode us (a @ b) = scan_ok opcode (scan_state opcode us a) b"
  unfolding scan_ok_def by (subst scan_state_append) (auto simp: scan_state_append)

lemma scan_ok_reject: "scan_state opcode us a = UTF8_REJECT \<Longrightarrow> us \<noteq> UTF8_REJECT \<Longrightarrow> \<not> scan_ok opcode us (a @ b)"
  by (simp add: scan_ok_def scan_state_reject)

lemma next_frames:
  assumes "idle ctx" "msg_opcode opcode" "dss \<noteq> []" "\<forall>ds\<in>set dss. payload_pieces ds" "us \<noteq> UTF8_REJECT"
    "length (concat cs) + length (concat (concat dss)) \<le> ec_max_recv_msg_length ctx" "length (concat cs) + length (concat (concat dss)) < 2 ^ 63"
  shows "message_outcome spec ctx opcode (concat cs @ concat (concat dss)) (scan_ok opcode us (concat (concat dss)))
    (recv_pieces (server_callbacks fcb spec) (message_iocbs WSLAY_CONTINUATION_FRAME dss) (mid ctx 0 opcode cs [] [] us))"
  using assms(3-)
proof (induction dss arbitrary: cs us)
  case (Cons ds dss)
  let ?cb = "server_callbacks fcb spec" and ?us = "scan_state opcode us (concat ds)"
  have out: "frame_outcome ?cb ctx fin opcode cs (concat ds) ?us
      (recv_pieces ?cb (frame_iocbs fin WSLAY_CONTINUATION_FRAME ds) (mid ctx 0 opcode cs [] [] us))" for fin
    using Cons.prems by (intro next_frame [OF assms(1) plain_server assms(2)]) auto
  show ?case
  proof (cases "dss = []")
    case True
    then show ?thesis using last_frame [OF assms(1,2) out] by (simp add: scan_ok_def)
  next
    case False
    have IH: "message_outcome spec ctx opcode (concat (cs @ chunk (concat ds)) @ concat (concat dss)) (scan_ok opcode ?us (concat (concat dss)))
        (recv_pieces ?cb (message_iocbs WSLAY_CONTINUATION_FRAME dss) (mid ctx 0 opcode (cs @ chunk (concat ds)) [] [] ?us))" if "?us \<noteq> UTF8_REJECT"
      using Cons.prems False that by (intro Cons.IH) auto
    show ?thesis using not_last_frame [OF assms(1) out] IH False scan_ok_append [where opcode = opcode] scan_ok_reject [where opcode = opcode] Cons.prems(3) by (simp add: recv_pieces_append)
  qed
qed simp

lemma message_frames:
  assumes "idle ctx" "msg_opcode opcode" "dss \<noteq> []" "\<forall>ds\<in>set dss. payload_pieces ds"
    "length (concat (concat dss)) \<le> ec_max_recv_msg_length ctx" "length (concat (concat dss)) < 2 ^ 63"
  shows "message_outcome spec ctx opcode (concat (concat dss)) (scan_ok opcode UTF8_ACCEPT (concat (concat dss)))
    (recv_pieces (server_callbacks fcb spec) (message_iocbs opcode dss) ctx)"
proof -
  obtain ds dss' where dss: "dss = ds # dss'" using assms(3) by (cases dss) auto
  let ?cb = "server_callbacks fcb spec" and ?us = "scan_state opcode UTF8_ACCEPT (concat ds)"
  have out: "frame_outcome ?cb ctx fin opcode [] (concat ds) ?us (recv_pieces ?cb (frame_iocbs fin opcode ds) ctx)" for fin
    using assms(4-) dss by (intro first_frame [OF assms(1) plain_server assms(2)]) auto
  show ?thesis
  proof (cases "dss' = []")
    case True
    then show ?thesis using last_frame [OF assms(1,2) out] dss by (simp add: scan_ok_def)
  next
    case False
    have IH: "message_outcome spec ctx opcode (concat (chunk (concat ds)) @ concat (concat dss')) (scan_ok opcode ?us (concat (concat dss')))
        (recv_pieces ?cb (message_iocbs WSLAY_CONTINUATION_FRAME dss') (mid ctx 0 opcode (chunk (concat ds)) [] [] ?us))" if "?us \<noteq> UTF8_REJECT"
      using assms(4-) False that dss by (intro next_frames [OF assms(1,2)]) auto
    show ?thesis using not_last_frame [OF assms(1) out] IH False scan_ok_append [where opcode = opcode] scan_ok_reject [where opcode = opcode] dss by (simp add: recv_pieces_append)
  qed
qed

lemma utf8_scan_valid: "utf8_scan UTF8_ACCEPT bs = UTF8_ACCEPT \<longleftrightarrow> valid_utf8 bs"
  using utf8_scan_lang [of 0 bs] by (simp add: utf8_lang_simps)

lemma scan_ok_start: "msg_opcode opcode \<Longrightarrow> scan_ok opcode UTF8_ACCEPT msg \<longleftrightarrow> opcode = WSLAY_BINARY_FRAME \<or> valid_utf8 msg"
  using utf8_scan_valid [of msg] by (auto simp: scan_ok_def scan_state_def msg_opcode_def)

lemma close_queued:
  assumes "wslay_event_is_msg_queueable ctx" "code \<noteq> 0"
  shows "\<exists>ctx'. close_break ctx code = Brk ctx' \<and> ec_user_data ctx' = ec_user_data ctx \<and> \<not> read_enabled ctx' \<and>
    ec_close_status ctx' = ec_close_status ctx OR WSLAY_CLOSE_QUEUED \<and>
    ec_send_ctrl_queue ctx' = ec_send_ctrl_queue ctx @ [wslay_event_omsg_non_fragmented_init WSLAY_CONNECTION_CLOSE 0 (be_bytes 2 code)]"
  using assms
  by (simp add: close_break_def wslay_event_queue_close_wrapper_def wslay_event_queue_close_def wslay_event_queue_msg_def wslay_event_queue_msg_ex_def
      wslay_event_is_msg_queueable_def set_read_enabled_def wslay_is_ctrl_frame_def Let_def)

lemma refused_closes:
  assumes "refused ctx opcode res" "wslay_event_is_msg_queueable ctx"
  shows "\<exists>ctx'. res = Some (Brk ctx') \<and> ec_user_data ctx' = ec_user_data ctx \<and> \<not> read_enabled ctx' \<and>
    ec_close_status ctx' = ec_close_status ctx OR WSLAY_CLOSE_QUEUED \<and>
    ec_send_ctrl_queue ctx' = ec_send_ctrl_queue ctx @ [wslay_event_omsg_non_fragmented_init WSLAY_CONNECTION_CLOSE 0 (be_bytes 2 1007)]"
proof -
  obtain fin cs p q us where res: "res = Some (close_break (mid ctx fin opcode cs p q us) 1007)" using assms(1) unfolding refused_def by blast
  have "wslay_event_is_msg_queueable (mid ctx fin opcode cs p q us)" using assms(2) by (simp add: wslay_event_is_msg_queueable_def)
  from close_queued [OF this, of 1007] show ?thesis using res by auto
qed

section \<open>Properties of messages\<close>

text \<open>
  C0: A message that comes in any number of frames, each handed over in any pieces, is put together: a binary
  message, and a text message that is UTF-8 by RFC 3629, goes to the server's handler as one message with all
  its bytes (an empty one does not), and the context is ready for the next message with nothing queued. A text
  message that is not UTF-8 is not handed over: a close with status 1007 is queued and reading ends.\<close>

theorem message_reassembled:
  assumes "idle ctx" "wslay_event_is_msg_queueable ctx" "opcode = WSLAY_TEXT_FRAME \<or> opcode = WSLAY_BINARY_FRAME"
    "dss \<noteq> []" "\<forall>ds\<in>set dss. payload_pieces ds" "msg = concat (concat dss)" "length msg \<le> ec_max_recv_msg_length ctx" "length msg < 2 ^ 63"
  shows "if opcode = WSLAY_BINARY_FRAME \<or> valid_utf8 msg
    then \<exists>ctx'. recv_pieces (server_callbacks fcb spec) (message_iocbs opcode dss) ctx = Some (Go ctx') \<and> idle ctx' \<and> same_output ctx ctx' \<and>
      ec_user_data ctx' = ec_user_data ctx @ (if sp_handler_set spec \<and> msg \<noteq> [] then [\<lparr>wm_opcode = opcode, wm_buf = msg\<rparr>] else [])
    else \<exists>ctx'. recv_pieces (server_callbacks fcb spec) (message_iocbs opcode dss) ctx = Some (Brk ctx') \<and> ec_user_data ctx' = ec_user_data ctx \<and>
      \<not> read_enabled ctx' \<and> ec_close_status ctx' = ec_close_status ctx OR WSLAY_CLOSE_QUEUED \<and>
      ec_send_ctrl_queue ctx' = ec_send_ctrl_queue ctx @ [wslay_event_omsg_non_fragmented_init WSLAY_CONNECTION_CLOSE 0 (be_bytes 2 1007)]"
proof -
  have op: "msg_opcode opcode" using assms(3) by (simp add: msg_opcode_def)
  have out: "message_outcome spec ctx opcode msg (opcode = WSLAY_BINARY_FRAME \<or> valid_utf8 msg)
      (recv_pieces (server_callbacks fcb spec) (message_iocbs opcode dss) ctx)"
    using message_frames [OF assms(1) op assms(4,5)] assms(6-8) scan_ok_start [OF op] by simp
  then show ?thesis
    using refused_closes [OF _ assms(2), where opcode = opcode and res = "recv_pieces (server_callbacks fcb spec) (message_iocbs opcode dss) ctx"]
    unfolding message_outcome_def delivered_def by (cases "opcode = WSLAY_BINARY_FRAME \<or> valid_utf8 msg") (simp_all only: if_True if_False)
qed

theorem message_reassembled_witness:
  "\<forall>fcb. \<exists>ctx' :: (unit, ws_msg list) event_context.
     recv_pieces (server_callbacks fcb \<lparr>sp_handler_set = True, sp_ping_pong = False\<rparr>)
       (message_iocbs WSLAY_TEXT_FRAME [[[0x68, 0xC3]], [[0xA9], [0x21]]]) (wslay_event_context_server_init () []) = Some (Go ctx') \<and>
     ec_user_data ctx' = [\<lparr>wm_opcode = WSLAY_TEXT_FRAME, wm_buf = [0x68, 0xC3, 0xA9, 0x21]\<rparr>]"
proof
  fix fcb :: "unit event_io wslay_frame_callbacks"
  let ?ctx = "wslay_event_context_server_init () [] :: (unit, ws_msg list) event_context"
  have u: "valid_utf8 [0x68, 0xC3, 0xA9, 0x21]" by (simp add: utf8_tail_def word_le_nat_alt)
  have "idle ?ctx" "wslay_event_is_msg_queueable ?ctx" "ec_max_recv_msg_length ?ctx = 2 ^ 31 - 1" "ec_user_data ?ctx = []"
    by (simp_all add: idle_def wslay_event_is_msg_queueable_def wslay_event_context_server_init_def wslay_event_context_init_def
        wslay_event_imsg_reset_def Let_def)
  then show "\<exists>ctx'. recv_pieces (server_callbacks fcb \<lparr>sp_handler_set = True, sp_ping_pong = False\<rparr>)
       (message_iocbs WSLAY_TEXT_FRAME [[[0x68, 0xC3]], [[0xA9], [0x21]]]) ?ctx = Some (Go ctx') \<and>
     ec_user_data ctx' = [\<lparr>wm_opcode = WSLAY_TEXT_FRAME, wm_buf = [0x68, 0xC3, 0xA9, 0x21]\<rparr>]"
    using message_reassembled [of ?ctx WSLAY_TEXT_FRAME "[[[0x68, 0xC3]], [[0xA9], [0x21]]]" "[0x68, 0xC3, 0xA9, 0x21]"
      fcb "\<lparr>sp_handler_set = True, sp_ping_pong = False\<rparr>"] u
    by (auto simp add: payload_pieces_def simp del: valid_utf8.simps)
qed

end
