(* ===== verification/Ws_Session.thy ===== *)
theory Ws_Session
  imports Ws_Message
begin

text \<open>
  A WebSocket session of \<open>src/src/ws/iwn_ws_server.c\<close> from its start: a relation the socket callbacks keep
  is kept by the frame layer (\<open>net_relation\<close>), \<open>wslay_event_recv\<close> and \<open>wslay_event_send\<close> keep
  \<open>session_inv\<close>, and so does every step of a session.
\<close>

section \<open>The callbacks of the frame layer\<close>

text \<open>
  A relation on the state outside that the three callbacks keep is kept by a whole call of the frame layer.
\<close>

fun net_of :: "(int \<times> wslay_frame_context \<times> 'n) + (wslay_frame_context \<times> 'n) \<Rightarrow> 'n" where
  "net_of (Inl (r, c, n)) = n"
| "net_of (Inr (c, n)) = n"

fun sent_net_of :: "(int \<times> wslay_frame_context \<times> wslay_frame_iocb \<times> 'n) + (wslay_frame_context \<times> wslay_frame_iocb \<times> int \<times> 'n) \<Rightarrow> 'n" where
  "sent_net_of (Inl (r, c, io, n)) = n"
| "sent_net_of (Inr (c, io, t, n)) = n"

lemma header1_read_net: "header1_read ctx n = Some s \<Longrightarrow> net_of s = n"
  by (auto simp: header1_read_def Let_def split: bind_splits if_splits)

locale net_relation =
  fixes cb :: "'n wslay_frame_callbacks" and R :: "'n \<Rightarrow> 'n \<Rightarrow> bool"
  assumes R_refl: "R n n" and R_trans: "R a b \<Longrightarrow> R b c \<Longrightarrow> R a c"
    and send_R: "cb_send cb n bs = Some (r, n') \<Longrightarrow> R n n'"
    and recv_R: "cb_recv cb n k = Some (r, ds, n') \<Longrightarrow> R n n'"
    and genmask_R: "cb_genmask cb n k = Some (r, ds, n') \<Longrightarrow> R n n'"
begin

lemma wslay_recv_R: "wslay_recv cb ctx n = Some (r, c, n') \<Longrightarrow> R n n'"
  by (auto simp: wslay_recv_def Let_def dest!: recv_R split: bind_splits if_splits)

lemma recv_need_R: "recv_need cb ctx n = Some s \<Longrightarrow> R n (net_of s)"
  by (auto simp: recv_need_def R_refl dest!: wslay_recv_R split: bind_splits if_splits)

lemma stages_R:
  "recv_header1 cb ctx n = Some s \<Longrightarrow> R n (net_of s)"
  "recv_ext_payloadlen cb ctx n = Some s \<Longrightarrow> R n (net_of s)"
  "recv_maskkey cb ctx n = Some s \<Longrightarrow> R n (net_of s)"
  by (fastforce simp: recv_header1_def recv_ext_payloadlen_def recv_maskkey_def Let_def dest!: recv_need_R header1_read_net
      split: bind_splits sum.splits prod.splits if_splits)+

lemma stage_R:
  assumes "recv_stage st f s = Some s'"
    and "\<And>ctx n s. f ctx n = Some s \<Longrightarrow> R n (net_of s)"
  shows "R (net_of s) (net_of s')"
  using assms by (fastforce simp: recv_stage_def R_refl split: sum.splits prod.splits if_splits)

lemma recv_payload_R: "recv_payload cb ctx io n = Some (r, c, io', n') \<Longrightarrow> R n n'"
  by (auto simp: recv_payload_def payload_take_def Let_def R_refl dest!: wslay_recv_R split: bind_splits if_splits)

lemma frame_recv_R:
  assumes "wslay_frame_recv cb ctx io n = Some (r, c, io', n')"
  shows "R n n'"
proof -
  obtain s1 s2 s3 where s: "recv_stage RECV_HEADER1 (recv_header1 cb) (Inr (ctx, n)) = Some s1"
    "recv_stage RECV_EXT_PAYLOADLEN (recv_ext_payloadlen cb) s1 = Some s2" "recv_stage RECV_MASKKEY (recv_maskkey cb) s2 = Some s3"
    and e: "(case s3 of Inl (r, ctx, net) \<Rightarrow> Some (r, ctx, io, net) | Inr (ctx, net) \<Rightarrow>
       if fc_istate ctx = RECV_PAYLOAD then recv_payload cb ctx io net else Some (WSLAY_ERR_INVALID_ARGUMENT, ctx, io, net)) = Some (r, c, io', n')"
    using assms by (auto simp: wslay_frame_recv_def split: bind_splits)
  have "R n (net_of s3)"
  proof -
    have "R (net_of (Inr (ctx, n))) (net_of s1)" by (rule stage_R [OF s(1)]) (rule stages_R(1))
    moreover have "R (net_of s1) (net_of s2)" by (rule stage_R [OF s(2)]) (rule stages_R(2))
    moreover have "R (net_of s2) (net_of s3)" by (rule stage_R [OF s(3)]) (rule stages_R(3))
    ultimately show ?thesis using R_trans by (metis net_of.simps(2))
  qed
  then show ?thesis using e by (auto intro: R_trans dest: recv_payload_R split: sum.splits prod.splits if_splits)
qed

lemma send_masked_R: "send_masked cb m l s n = Some res \<Longrightarrow> R n (sent_net_of res)"
proof (induction "l - m" arbitrary: m s n res rule: less_induct)
  case less
  obtain ctx io t where s: "s = (ctx, io, t)" by (cases s)
  show ?case
  proof (cases "m < l")
    case False
    then show ?thesis using less.prems by (auto simp: s send_masked.simps [of cb m l ctx io t n] R_refl)
  next
    case True
    obtain bs r n' where bs: "rd_block (io_buf io) m (min 4096 (l - m)) = Some bs" "cb_send cb n (fill_temp ctx bs) = Some (r, n')"
      using less.prems True by (auto simp: s send_masked.simps [of cb m l ctx io t n] Let_def split: option.splits)
    note R1 = send_R [OF bs(2)]
    show ?thesis
    proof (cases "r > 0")
      case True
      then obtain s' where "send_masked cb (m + nat r) l s' n' = Some res"
        using less.prems \<open>m < l\<close> bs by (auto simp: s send_masked.simps [of cb m l ctx io t n] Let_def)
      moreover have "l - (m + nat r) < l - m" using True \<open>m < l\<close> by simp
      ultimately show ?thesis using less.hyps R1 R_trans by blast
    next
      case False
      then show ?thesis using less.prems \<open>m < l\<close> bs R1 by (auto simp: s send_masked.simps [of cb m l ctx io t n] Let_def split: if_splits)
    qed
  qed
qed

lemma send_plain_R: "send_plain cb ctx io n = Some res \<Longrightarrow> R n (sent_net_of res)"
  by (auto simp: send_plain_def Let_def dest!: send_R split: bind_splits if_splits prod.splits)

lemma send_payload_R:
  assumes "send_payload cb ctx io n = Some (r, c, io', n')"
  shows "R n n'"
proof -
  obtain res where res: "(if io_data_length io > 0 then
       (if fc_omask ctx \<noteq> 0 then
          (if 0 \<le> io_data io then send_masked cb (nat (io_data io)) (nat (io_data io) + io_data_length io) (ctx, io, 0) n else None)
        else send_plain cb ctx io n)
     else Some (Inr (ctx, io, 0, n))) = Some res" and e: "sent_net_of res = n'"
    using assms unfolding send_payload_def by (fastforce split: bind_splits sum.splits prod.splits if_splits)
  show ?thesis using res e by (auto simp: R_refl dest: send_masked_R send_plain_R split: if_splits)
qed

lemma prep_header_R:
  assumes "prep_header cb ctx io n = Some res"
  shows "R n (case res of Inl (r, c, n') \<Rightarrow> n' | Inr (c, io', n') \<Rightarrow> n')"
  using assms by (auto simp: prep_header_def Let_def R_refl dest!: genmask_R split: bind_splits option.splits prod.splits if_splits)

lemma frame_send_R:
  assumes "wslay_frame_send cb ctx io n = Some (r, c, io', n')"
  shows "R n n'"
  using assms
  by (auto simp: wslay_frame_send_def Let_def R_refl dest!: send_payload_R prep_header_R
      intro: R_trans split: bind_splits sum.splits prod.splits if_splits)

end

text \<open>The callbacks of the server never turn a flag of the context on.\<close>

definition flags_down :: "'s event_io \<Rightarrow> 's event_io \<Rightarrow> bool" where
  "flags_down io io' \<longleftrightarrow> (eio_read_enabled io' \<longrightarrow> eio_read_enabled io) \<and> (eio_write_enabled io' \<longrightarrow> eio_write_enabled io)"

lemma recv_callback_down:
  assumes "wslay_recv_callback pa io k = Some y"
  shows "flags_down io (snd (snd y))"
proof (rule wslay_recv_callback.raw_induct [where P = "\<lambda>_ io _ y. flags_down io (snd (snd y))", OF _ assms], goal_cases)
  case (1 f pa io k y)
  obtain r bs e s where rd: "pa (eio_pa io) k = (r, bs, e, s)" by (cases "pa (eio_pa io) k")
  show ?case
  proof (cases "r = -1 \<and> e = EINTR")
    case True
    then have "flags_down (io\<lparr>eio_pa := s\<rparr>) (snd (snd y))" using 1(2) by (intro 1(1)) (simp add: rd)
    then show ?thesis by (simp add: flags_down_def)
  next
    case False
    then show ?thesis using 1(2) by (auto simp: rd Let_def flags_down_def wslay_event_set_error_def wslay_event_shutdown_read_def split: if_splits)
  qed
qed

lemma send_callback_down:
  assumes "wslay_send_callback pa io bs = Some y"
  shows "flags_down io (snd y)"
proof (rule wslay_send_callback.raw_induct [where P = "\<lambda>_ io _ y. flags_down io (snd y)", OF _ assms], goal_cases)
  case (1 f pa io bs y)
  obtain r e s where wr: "pa (eio_pa io) bs = (r, e, s)" by (cases "pa (eio_pa io) bs")
  show ?case
  proof (cases "r = -1 \<and> e = EINTR")
    case True
    then have "flags_down (io\<lparr>eio_pa := s\<rparr>) (snd y)" using 1(2) by (intro 1(1)) (simp add: wr)
    then show ?thesis by (simp add: flags_down_def)
  next
    case False
    then show ?thesis using 1(2) by (auto simp: wr Let_def flags_down_def wslay_event_set_error_def wslay_event_shutdown_write_def split: if_splits)
  qed
qed

text \<open>The server sets no callback for masking keys: calling it would be a call of a null pointer.\<close>

definition server_frame_callbacks :: "socket event_io wslay_frame_callbacks" where
  "server_frame_callbacks = socket_callbacks (\<lambda>_ _. None)"

interpretation srv: net_relation server_frame_callbacks flags_down
  by unfold_locales
    (auto simp: flags_down_def server_frame_callbacks_def socket_callbacks_def dest!: recv_callback_down send_callback_down)

section \<open>The invariant of a session\<close>

definition close_pending :: "('s, 'u) event_context \<Rightarrow> bool" where
  "close_pending ctx \<longleftrightarrow> (\<exists>m\<in>set (ec_send_ctrl_queue ctx) \<union> set_option (ec_omsg ctx). om_opcode m = WSLAY_CONNECTION_CLOSE)"

definition ctrl_ok :: "event_omsg \<Rightarrow> bool" where
  "ctrl_ok m \<longleftrightarrow> wslay_is_ctrl_frame (om_opcode m) \<and> om_type m = WSLAY_NON_FRAGMENTED \<and> om_data_length m \<le> 125"

definition session_inv :: "('s, 'u) event_context \<Rightarrow> bool" where
  "session_inv ctx \<longleftrightarrow>
     (ec_close_status ctx AND WSLAY_CLOSE_RECEIVED \<noteq> 0 \<longrightarrow> \<not> read_enabled ctx) \<and>
     (ec_close_status ctx AND WSLAY_CLOSE_SENT \<noteq> 0 \<longrightarrow> \<not> write_enabled ctx) \<and>
     (ec_close_status ctx AND WSLAY_CLOSE_QUEUED \<noteq> 0 \<and> write_enabled ctx \<longrightarrow> close_pending ctx) \<and>
     (\<forall>m\<in>set (ec_send_ctrl_queue ctx). ctrl_ok m) \<and> (\<forall>m\<in>set (ec_send_queue ctx). \<not> wslay_is_ctrl_frame (om_opcode m)) \<and>
     (\<forall>m\<in>set_option (ec_omsg ctx). wslay_is_ctrl_frame (om_opcode m) \<longrightarrow> ctrl_ok m)"

lemma close_bits:
  "(s OR WSLAY_CLOSE_RECEIVED) AND WSLAY_CLOSE_SENT = s AND WSLAY_CLOSE_SENT"
  "(s OR WSLAY_CLOSE_RECEIVED) AND WSLAY_CLOSE_QUEUED = s AND WSLAY_CLOSE_QUEUED"
  "(s OR WSLAY_CLOSE_QUEUED) AND WSLAY_CLOSE_RECEIVED = s AND WSLAY_CLOSE_RECEIVED"
  "(s OR WSLAY_CLOSE_QUEUED) AND WSLAY_CLOSE_SENT = s AND WSLAY_CLOSE_SENT"
  "(s OR WSLAY_CLOSE_SENT) AND WSLAY_CLOSE_RECEIVED = s AND WSLAY_CLOSE_RECEIVED"
  "(s OR WSLAY_CLOSE_SENT) AND WSLAY_CLOSE_QUEUED = s AND WSLAY_CLOSE_QUEUED"
  by (simp_all add: WSLAY_CLOSE_RECEIVED_def WSLAY_CLOSE_SENT_def WSLAY_CLOSE_QUEUED_def bit.conj_disj_distrib2)

lemma inv_io: "session_inv ctx \<Longrightarrow> flags_down (ec_io ctx) io \<Longrightarrow> session_inv (ctx\<lparr>ec_io := io\<rparr>)"
  by (auto simp: session_inv_def flags_down_def close_pending_def)

lemma inv_other [simp]:
  "session_inv (set_imsg ctx m) = session_inv ctx" "session_inv (ctx\<lparr>ec_imsg := i\<rparr>) = session_inv ctx"
  "session_inv (ctx\<lparr>ec_imsgs := ims\<rparr>) = session_inv ctx" "session_inv (ctx\<lparr>ec_ipayloadlen := n\<rparr>) = session_inv ctx"
  "session_inv (ctx\<lparr>ec_ipayloadoff := n\<rparr>) = session_inv ctx" "session_inv (ctx\<lparr>ec_frame_ctx := fc\<rparr>) = session_inv ctx"
  "session_inv (ctx\<lparr>ec_user_data := u\<rparr>) = session_inv ctx" "session_inv (ctx\<lparr>ec_status_code_recv := n\<rparr>) = session_inv ctx"
  "session_inv (ctx\<lparr>ec_opayloadlen := n\<rparr>) = session_inv ctx" "session_inv (ctx\<lparr>ec_opayloadoff := n\<rparr>) = session_inv ctx"
  "session_inv (ctx\<lparr>ec_obuf := b\<rparr>) = session_inv ctx" "session_inv (ctx\<lparr>ec_obufmark := n\<rparr>) = session_inv ctx"
  "session_inv (ctx\<lparr>ec_obuflimit := n\<rparr>) = session_inv ctx" "session_inv (ctx\<lparr>ec_queued_msg_count := k\<rparr>) = session_inv ctx"
  "session_inv (ctx\<lparr>ec_queued_msg_length := k\<rparr>) = session_inv ctx"
  by (simp_all add: session_inv_def close_pending_def set_imsg_def)

lemma inv_queue_msg:
  assumes "session_inv ctx"
  shows "session_inv (snd (wslay_event_queue_msg_ex ctx arg rsv))"
  using assms
  by (auto simp: wslay_event_queue_msg_ex_def wslay_event_omsg_non_fragmented_init_def session_inv_def close_pending_def ctrl_ok_def Let_def)

lemma inv_read_off [simp]: "session_inv ctx \<Longrightarrow> session_inv (set_read_enabled ctx False)"
  unfolding set_read_enabled_def by (rule inv_io) (auto simp: flags_down_def)

lemma inv_write_off [simp]: "session_inv ctx \<Longrightarrow> session_inv (set_write_enabled ctx False)"
  unfolding set_write_enabled_def by (rule inv_io) (auto simp: flags_down_def)

lemma inv_queue_close: "session_inv ctx \<Longrightarrow> session_inv (snd (wslay_event_queue_close ctx code reason))"
  by (auto simp: wslay_event_queue_close_def wslay_event_queue_msg_def wslay_event_queue_msg_ex_def wslay_event_omsg_non_fragmented_init_def
      session_inv_def close_pending_def ctrl_ok_def wslay_is_ctrl_frame_def close_bits Let_def)

lemma inv_close_wrapper: "session_inv ctx \<Longrightarrow> session_inv (snd (wslay_event_queue_close_wrapper ctx code reason))"
  using inv_queue_close [of "set_read_enabled ctx False"] by (auto simp: wslay_event_queue_close_wrapper_def Let_def split: prod.splits) (metis snd_conv)

section \<open>Receiving keeps the invariant\<close>

fun flow_inv :: "('a \<Rightarrow> ('s, 'u) event_context) \<Rightarrow> ('a, ('s, 'u) event_context) flow \<Rightarrow> bool" where
  "flow_inv p (Go x) \<longleftrightarrow> session_inv (p x)"
| "flow_inv p (Brk c) \<longleftrightarrow> session_inv c"
| "flow_inv p (Ret r c) \<longleftrightarrow> session_inv c"

lemma flow_inv_then:
  assumes "then_flow m f = Some fl" "\<And>x. m = Some x \<Longrightarrow> flow_inv p x" "\<And>x fl. session_inv (p x) \<Longrightarrow> f x = Some fl \<Longrightarrow> flow_inv q fl"
  shows "flow_inv q fl"
  using assms by (auto simp: then_flow_def split: option.splits flow.splits)

lemma close_break_inv: "session_inv ctx \<Longrightarrow> flow_inv p (close_break ctx code)"
  using inv_close_wrapper [of ctx code "[]"] by (auto simp: close_break_def Let_def split: prod.splits)

lemma recv_admit_inv: "session_inv ctx \<Longrightarrow> flow_inv snd (recv_admit ctx io)"
  by (auto simp: recv_admit_def close_break_inv Let_def)

lemma recv_begin_inv: "session_inv (snd nc) \<Longrightarrow> plain_callbacks cb \<Longrightarrow> flow_inv id (recv_begin cb io nc)"
  by (auto simp: recv_begin_def plain_callbacks_def close_break_inv Let_def split: prod.splits)

lemma recv_utf8_inv: "session_inv ctx \<Longrightarrow> flow_inv id (recv_utf8 d ctx)"
  by (auto simp: recv_utf8_def close_break_inv Let_def)

lemma recv_store_inv: "session_inv ctx \<Longrightarrow> plain_callbacks cb \<Longrightarrow> recv_store cb io d ctx = Some ctx' \<Longrightarrow> session_inv ctx'"
  by (auto simp: recv_store_def plain_callbacks_def Let_def split: option.splits if_splits)

lemma recv_ping_inv: "session_inv ctx \<Longrightarrow> flow_inv snd (recv_ping msg ctx)"
  using inv_queue_msg [of ctx "\<lparr>ms_opcode = WSLAY_PONG, ms_msg = msg\<rparr>" 0]
  by (auto simp: recv_ping_def wslay_event_queue_msg_def Let_def split: prod.splits)

lemma inv_received:
  assumes "session_inv ctx"
  shows "session_inv (snd (wslay_event_queue_close_wrapper
    (ctx\<lparr>ec_close_status := ec_close_status ctx OR WSLAY_CLOSE_RECEIVED, ec_status_code_recv := n\<rparr>) code reason))"
proof -
  have "session_inv (set_read_enabled (ctx\<lparr>ec_close_status := ec_close_status ctx OR WSLAY_CLOSE_RECEIVED, ec_status_code_recv := n\<rparr>) False)"
    using assms by (auto simp: session_inv_def set_read_enabled_def close_bits close_pending_def)
  from inv_queue_close [OF this] show ?thesis
    by (auto simp: wslay_event_queue_close_wrapper_def Let_def split: prod.splits) (metis snd_conv)
qed

lemma recv_close_inv: "session_inv ctx \<Longrightarrow> flow_inv snd (recv_close msg ctx)"
  using inv_received [of ctx] by (auto simp: recv_close_def close_break_inv Let_def split: prod.splits) (metis snd_conv)+

lemma server_cb:
  "ecb_on_msg_recv (server_callbacks fcb spec) = Some (wslay_msg_recv_callback spec)" "ecb_on_frame_recv_end (server_callbacks fcb spec) = None"
  by (simp_all add: server_callbacks_def)

lemma recv_message_inv:
  assumes "session_inv ctx" "recv_message (server_callbacks fcb spec) io ctx = Some fl"
  shows "flow_inv id fl"
proof -
  have cb: "session_inv (wslay_msg_recv_callback spec (c\<lparr>ec_io := (ec_io c)\<lparr>eio_error := 0\<rparr>\<rparr>) arg)" if "session_inv c" for c arg
    using inv_io [OF that, of "(ec_io c)\<lparr>eio_error := 0\<rparr>"] by (simp add: wslay_msg_recv_callback_def flags_down_def)
  let ?m = "cur_imsg ctx"
  obtain msg where msg: "(if buffered_frame ctx io then wslay_event_flatten_queue (im_chunks ?m) (im_msg_length ?m) else Some []) = Some msg"
    using assms(2) by (auto simp: recv_message_def server_cb Let_def split: option.splits if_splits)
  define ctx1 where "ctx1 = (if buffered_frame ctx io \<and> im_msg_length ?m \<noteq> 0 then set_imsg ctx (?m\<lparr>im_chunks := []\<rparr>) else ctx)"
  have run: "then_flow
      (Some (if im_opcode ?m = WSLAY_CONNECTION_CLOSE then recv_close msg ctx1
             else if im_opcode ?m = WSLAY_PING then recv_ping msg ctx1 else Go (0, ctx1)))
      (\<lambda>(status_code, ctx). Some (Go (wslay_msg_recv_callback spec (ctx\<lparr>ec_io := (ec_io ctx)\<lparr>eio_error := 0\<rparr>\<rparr>)
         \<lparr>ra_rsv = im_rsv ?m, ra_opcode = im_opcode ?m, ra_msg = msg, ra_status_code = status_code\<rparr>))) = Some fl"
    using assms(2) unfolding recv_message_def Let_def server_cb msg ctx1_def by simp
  have "session_inv ctx1" using assms(1) by (simp add: ctx1_def)
  then show ?thesis
    by (intro flow_inv_then [OF run, of snd]) (auto simp: recv_close_inv recv_ping_inv cb)
qed

lemma recv_frame_end_inv:
  assumes "session_inv ctx" "recv_frame_end (server_callbacks fcb spec) io ctx = Some fl"
  shows "flow_inv id fl"
proof (cases "im_fin (cur_imsg ctx) \<noteq> 0 \<and> (im_opcode (cur_imsg ctx) = WSLAY_TEXT_FRAME \<or> im_opcode (cur_imsg ctx) = WSLAY_CONNECTION_CLOSE) \<and>
    im_utf8state (cur_imsg ctx) \<noteq> UTF8_ACCEPT")
  case True
  then show ?thesis using assms close_break_inv [OF assms(1)] by (auto simp: recv_frame_end_def Let_def)
next
  case False
  then have run: "then_flow (if im_fin (cur_imsg ctx) \<noteq> 0
        then then_flow (recv_message (server_callbacks fcb spec) io ctx)
          (\<lambda>ctx. let ctx = set_imsg ctx (wslay_event_imsg_reset (cur_imsg ctx)) in Some (Go (if ec_imsg ctx = 1 then ctx\<lparr>ec_imsg := 0\<rparr> else ctx)))
        else Some (Go ctx))
      (\<lambda>ctx. Some (Go (ctx\<lparr>ec_ipayloadlen := 0, ec_ipayloadoff := 0\<rparr>))) = Some fl"
    using assms(2) by (simp only: recv_frame_end_def Let_def server_cb option.case if_not_P [OF False] if_False)
  show ?thesis
  proof (rule flow_inv_then [OF run, of id], goal_cases)
    case (1 x)
    then show ?case
      using assms(1) recv_message_inv [OF assms(1)]
      by (auto simp: Let_def split: if_splits elim!: flow_inv_then [where p = id])
  qed auto
qed

lemma recv_data_inv:
  assumes "session_inv ctx" "recv_data (server_callbacks fcb spec) io d ctx = Some fl"
  shows "flow_inv id fl"
  using assms(2) unfolding recv_data_def
proof (rule flow_inv_then [of _ _ _ id], goal_cases)
  case (2 x fl)
  then show ?case
    by (auto split: option.splits if_splits dest: recv_store_inv [OF _ plain_server] recv_frame_end_inv)
qed (use recv_utf8_inv [OF assms(1)] in auto)

lemma recv_piece_inv:
  assumes "session_inv ctx" "recv_piece (server_callbacks fcb spec) io ctx = Some fl"
  shows "flow_inv id fl"
proof -
  obtain d where run: "then_flow (Some (recv_admit ctx io)) (\<lambda>nc.
      then_flow (Some (recv_begin (server_callbacks fcb spec) io nc)) (recv_data (server_callbacks fcb spec) io d)) = Some fl"
    using assms(2) by (auto simp: recv_piece_def split: option.splits)
  show ?thesis
  proof (rule flow_inv_then [OF run, of snd], goal_cases)
    case (2 nc fl)
    show ?case
      by (rule flow_inv_then [OF 2(2), of id]) (use recv_begin_inv [OF 2(1) plain_server] recv_data_inv in auto)
  qed (use recv_admit_inv [OF assms(1)] in auto)
qed

text \<open>The callbacks of a session over a socket.\<close>

definition session_callbacks :: "ws_spec \<Rightarrow> (socket, ws_msg list) event_callbacks" where
  "session_callbacks spec = server_callbacks server_frame_callbacks spec"

lemma recv_turn_inv:
  assumes "session_inv ctx" "recv_turn (session_callbacks spec) ctx = Some fl"
  shows "flow_inv id fl"
proof -
  have f: "ecb_frame (session_callbacks spec) = server_frame_callbacks" by (simp add: session_callbacks_def server_callbacks_def)
  obtain r fc io net where rc: "wslay_frame_recv server_frame_callbacks (ec_frame_ctx ctx) iocb0 (ec_io ctx) = Some (r, fc, io, net)"
    using assms(2) by (auto simp: recv_turn_def f split: option.splits)
  have inv: "session_inv (ctx\<lparr>ec_frame_ctx := fc, ec_io := net\<rparr>)"
    using inv_io [of "ctx\<lparr>ec_frame_ctx := fc\<rparr>" net] srv.frame_recv_R [OF rc] assms(1) by simp
  show ?thesis
    using assms(2) recv_piece_inv [OF inv] inv_close_wrapper [OF inv, of 0 "[]"] inv unfolding recv_turn_def f rc
    by (auto simp: session_callbacks_def Let_def split: prod.splits if_splits)
qed

lemma recv_inv:
  assumes "wslay_event_recv cb ctx = Some y" "cb = session_callbacks spec" "session_inv ctx"
  shows "session_inv (snd y)"
proof -
  have "cb = session_callbacks spec \<longrightarrow> session_inv ctx \<longrightarrow> session_inv (snd y)"
  proof (rule wslay_event_recv.raw_induct [where P = "\<lambda>cb ctx y. cb = session_callbacks spec \<longrightarrow> session_inv ctx \<longrightarrow> session_inv (snd y)", OF _ assms(1)],
      intro impI, goal_cases)
    case (1 f cb ctx y)
    then show ?case
    proof (cases "read_enabled ctx")
      case True
      then obtain fl where fl: "recv_turn cb ctx = Some fl"
          "(case fl of Go ctx \<Rightarrow> f cb ctx | Brk ctx \<Rightarrow> Some (0, ctx) | Ret r ctx \<Rightarrow> Some (r, ctx)) = Some y"
        using 1(2) by (auto split: bind_splits)
      have "flow_inv id fl" using recv_turn_inv [OF 1(4)] 1(3) fl(1) by simp
      then show ?thesis using fl(2) 1(1,3) by (cases fl) fastforce+
    qed auto
  qed
  then show ?thesis using assms by simp
qed

section \<open>Sending keeps the invariant\<close>

lemma close_is_ctrl [simp]: "wslay_is_ctrl_frame WSLAY_CONNECTION_CLOSE" "\<not> wslay_is_ctrl_frame 0"
  by (simp_all add: wslay_is_ctrl_frame_def)

lemma inv_omsg:
  assumes "session_inv ctx" "ec_omsg ctx = Some m" "om_opcode m' = om_opcode m" "om_type m' = om_type m" "om_data_length m' = om_data_length m"
  shows "session_inv (ctx\<lparr>ec_omsg := Some m'\<rparr>)"
  using assms by (auto simp: session_inv_def close_pending_def ctrl_ok_def)

lemma inv_omsg_data:
  assumes "session_inv ctx" "ec_omsg ctx = Some m" "om_opcode m \<noteq> WSLAY_CONNECTION_CLOSE" "\<forall>x\<in>set_option om. \<not> wslay_is_ctrl_frame (om_opcode x)"
  shows "session_inv (ctx\<lparr>ec_omsg := om\<rparr>)"
  using assms by (auto simp: session_inv_def close_pending_def)

lemma popped_inv: "session_inv ctx \<Longrightarrow> session_inv (wslay_event_on_non_fragmented_msg_popped ctx)"
  using inv_omsg by (fastforce simp: wslay_event_on_non_fragmented_msg_popped_def split: option.splits)

lemma ctrl_pop_inv:
  assumes "session_inv ctx" "ec_send_ctrl_queue ctx \<noteq> []" "\<forall>m\<in>set_option (ec_omsg ctx). om_opcode m \<noteq> WSLAY_CONNECTION_CLOSE"
  shows "session_inv (wslay_event_send_ctrl_queue_pop ctx)"
proof (cases "ec_close_status ctx AND WSLAY_CLOSE_QUEUED \<noteq> 0")
  case True
  have set: "set (dropWhile (\<lambda>m. om_opcode m \<noteq> WSLAY_CONNECTION_CLOSE) (ec_send_ctrl_queue ctx)) \<subseteq> set (ec_send_ctrl_queue ctx)"
    by (auto dest: set_dropWhileD)
  show ?thesis
  proof (cases "dropWhile (\<lambda>m. om_opcode m \<noteq> WSLAY_CONNECTION_CLOSE) (ec_send_ctrl_queue ctx)")
    case Nil
    then have "\<not> close_pending ctx" using assms(3) by (auto simp: close_pending_def dropWhile_eq_Nil_conv)
    moreover have "wslay_event_send_ctrl_queue_pop ctx = ctx\<lparr>ec_send_ctrl_queue := [], ec_omsg := None\<rparr>"
      unfolding wslay_event_send_ctrl_queue_pop_def Nil using True by simp
    ultimately show ?thesis using assms(1) True by (auto simp: session_inv_def)
  next
    case (Cons m ms)
    then have "om_opcode m = WSLAY_CONNECTION_CLOSE" by (simp add: dropWhile_eq_Cons_conv)
    moreover have "wslay_event_send_ctrl_queue_pop ctx = ctx\<lparr>ec_send_ctrl_queue := ms, ec_omsg := Some m\<rparr>"
      unfolding wslay_event_send_ctrl_queue_pop_def Cons using True by simp
    ultimately show ?thesis using assms(1) set unfolding Cons by (auto simp: session_inv_def close_pending_def)
  qed
next
  case False
  then show ?thesis using assms(1,2) by (cases "ec_send_ctrl_queue ctx") (auto simp: wslay_event_send_ctrl_queue_pop_def session_inv_def)
qed

lemma requeue_inv:
  assumes "session_inv ctx" "\<not> wslay_is_ctrl_frame (om_opcode m)"
  shows "session_inv (ctx\<lparr>ec_send_queue := m # ec_send_queue ctx\<rparr>)"
  using assms by (auto simp: session_inv_def close_pending_def)

lemma send_pick_inv:
  assumes "session_inv ctx" "ec_send_queue ctx \<noteq> [] \<or> ec_send_ctrl_queue ctx \<noteq> [] \<or> ec_omsg ctx \<noteq> None"
  shows "flow_inv id (send_pick ctx)"
proof (cases "ec_omsg ctx")
  case None
  define c where "c = (if ec_send_ctrl_queue ctx = []
      then ctx\<lparr>ec_omsg := Some (hd (ec_send_queue ctx)), ec_send_queue := tl (ec_send_queue ctx)\<rparr> else wslay_event_send_ctrl_queue_pop ctx)"
  have "session_inv c"
    using assms None ctrl_pop_inv [OF assms(1)] unfolding c_def
    by (cases "ec_send_queue ctx") (auto simp: session_inv_def close_pending_def)
  then show ?thesis using popped_inv [of c] by (auto simp: send_pick_def None c_def [symmetric] Let_def split: option.splits)
next
  case (Some m)
  have "\<not> wslay_is_ctrl_frame (om_opcode m) \<Longrightarrow> om_opcode m \<noteq> WSLAY_CONNECTION_CLOSE" by auto
  with Some show ?thesis
    using assms(1) popped_inv [OF ctrl_pop_inv [OF requeue_inv [OF assms(1), of m]]] ctrl_pop_inv [OF requeue_inv [OF assms(1), of m]]
    by (auto simp: send_pick_def Let_def)
qed

lemma send_failed_inv: "session_inv ctx \<Longrightarrow> flow_inv p (send_failed r ctx)"
  by (simp add: send_failed_def)

lemma send_msg_done_inv:
  assumes "session_inv ctx" "ec_omsg ctx = Some m"
  shows "session_inv (send_msg_done m ctx)"
  using assms by (auto simp: send_msg_done_def set_write_enabled_def session_inv_def close_pending_def close_bits Let_def)

lemma send_non_fragmented_inv:
  assumes "session_inv ctx" "ec_omsg ctx = Some m" "send_non_fragmented (session_callbacks spec) m ctx = Some fl"
  shows "flow_inv id fl"
proof -
  have f: "ecb_frame (session_callbacks spec) = server_frame_callbacks" by (simp add: session_callbacks_def server_callbacks_def)
  obtain io r fc io' net where sd: "wslay_frame_send server_frame_callbacks (ec_frame_ctx ctx) io (ec_io ctx) = Some (r, fc, io', net)"
    and fl: "fl = (let m = m\<lparr>om_buf := io_buf io'\<rparr>; ctx = ctx\<lparr>ec_frame_ctx := fc, ec_io := net, ec_omsg := Some m\<rparr>
      in if r \<ge> 0 then let ctx = ctx\<lparr>ec_opayloadoff := ec_opayloadoff ctx + nat r\<rparr>
            in if ec_opayloadoff ctx = ec_opayloadlen ctx then Go (send_msg_done m ctx) else Brk ctx
         else send_failed r ctx)"
    using assms(3) unfolding send_non_fragmented_def f Let_def by (auto split: option.splits)
  define c where "c = ctx\<lparr>ec_frame_ctx := fc, ec_io := net, ec_omsg := Some (m\<lparr>om_buf := io_buf io'\<rparr>)\<rparr>"
  have c: "session_inv c" "ec_omsg c = Some (m\<lparr>om_buf := io_buf io'\<rparr>)"
    using inv_omsg [of "ctx\<lparr>ec_frame_ctx := fc, ec_io := net\<rparr>" m "m\<lparr>om_buf := io_buf io'\<rparr>"]
      inv_io [of "ctx\<lparr>ec_frame_ctx := fc\<rparr>" net] srv.frame_send_R [OF sd] assms(1,2) by (simp_all add: c_def)
  have "session_inv (send_msg_done (m\<lparr>om_buf := io_buf io'\<rparr>) (c\<lparr>ec_opayloadoff := n\<rparr>))" for n
    using send_msg_done_inv [of "c\<lparr>ec_opayloadoff := n\<rparr>"] c by simp
  then show ?thesis
    using c send_failed_inv [OF c(1)]
    by (simp add: fl c_def [symmetric] Let_def)
qed

lemma send_piece_done_inv:
  assumes "session_inv ctx" "ec_omsg ctx = Some m" "\<not> wslay_is_ctrl_frame (om_opcode m)"
  shows "session_inv (send_piece_done m ctx)"
proof -
  have n: "om_opcode m \<noteq> WSLAY_CONNECTION_CLOSE" using assms(3) close_is_ctrl(1) by metis
  show ?thesis using assms n by (auto simp: send_piece_done_def session_inv_def close_pending_def Let_def)
qed

lemma send_fragmented_inv:
  assumes "session_inv ctx" "ec_omsg ctx = Some m" "om_type m = WSLAY_FRAGMENTED" "send_fragmented (session_callbacks spec) m ctx = Some fl"
  shows "flow_inv id fl"
proof -
  have f: "ecb_frame (session_callbacks spec) = server_frame_callbacks" "ecb_read (session_callbacks spec) = (\<lambda>_ ctx _ src. (-1, [], False, src, ctx))"
    by (simp_all add: session_callbacks_def server_callbacks_def)
  have nc: "\<not> wslay_is_ctrl_frame (om_opcode m)" using assms(1-3) by (auto simp: session_inv_def ctrl_ok_def)
  show ?thesis
  proof (cases "om_fin m = 0 \<and> ec_obuflimit ctx = ec_obufmark ctx")
    case True
    then show ?thesis
      using assms(4) inv_omsg [OF assms(1,2), of "m\<lparr>om_source := om_source m\<rparr>"] by (auto simp: send_fragmented_def send_read_def f Let_def)
  next
    case False
    then have rd: "send_read (session_callbacks spec) m ctx = Some (Go (m, ctx))" by (auto simp: send_read_def)
    obtain io r fc io' net where sd: "wslay_frame_send server_frame_callbacks (ec_frame_ctx ctx) io (ec_io ctx) = Some (r, fc, io', net)"
      and fl: "fl = (let ctx = ctx\<lparr>ec_frame_ctx := fc, ec_io := net, ec_obuf := io_buf io'\<rparr>
        in if r \<ge> 0 then let ctx = ctx\<lparr>ec_obufmark := ec_obufmark ctx + nat r\<rparr>
              in if ec_obufmark ctx = ec_obuflimit ctx then Go (send_piece_done m ctx) else Brk ctx
           else send_failed r ctx)"
      using assms(4) unfolding send_fragmented_def rd f Let_def by (auto split: option.splits)
    define c where "c = ctx\<lparr>ec_frame_ctx := fc, ec_io := net, ec_obuf := io_buf io'\<rparr>"
    have c: "session_inv c" "ec_omsg c = Some m"
      using inv_io [of "ctx\<lparr>ec_frame_ctx := fc\<rparr>" net] srv.frame_send_R [OF sd] assms(1,2) by (simp_all add: c_def)
    have "session_inv (send_piece_done m (c\<lparr>ec_obufmark := n\<rparr>))" for n
      using send_piece_done_inv [of "c\<lparr>ec_obufmark := n\<rparr>" m] c nc by simp
    then show ?thesis
      using c send_failed_inv [OF c(1)]
      by (simp add: fl c_def [symmetric] Let_def)
  qed
qed

lemma send_turn_inv:
  assumes "session_inv ctx" "ec_send_queue ctx \<noteq> [] \<or> ec_send_ctrl_queue ctx \<noteq> [] \<or> ec_omsg ctx \<noteq> None"
    "send_turn (session_callbacks spec) ctx = Some fl"
  shows "flow_inv id fl"
  using assms(3) unfolding send_turn_def
proof (rule flow_inv_then [of _ _ _ id], goal_cases)
  case (2 c fl)
  then obtain m where m: "ec_omsg c = Some m" by (auto split: option.splits)
  show ?case using 2 m send_non_fragmented_inv [of c m spec fl] send_fragmented_inv [of c m spec fl] by (cases "om_type m") auto
qed (use send_pick_inv [OF assms(1,2)] in auto)

lemma send_inv:
  assumes "wslay_event_send cb ctx = Some y" "cb = session_callbacks spec" "session_inv ctx"
  shows "session_inv (snd y)"
proof -
  have "cb = session_callbacks spec \<longrightarrow> session_inv ctx \<longrightarrow> session_inv (snd y)"
  proof (rule wslay_event_send.raw_induct [where P = "\<lambda>cb ctx y. cb = session_callbacks spec \<longrightarrow> session_inv ctx \<longrightarrow> session_inv (snd y)", OF _ assms(1)],
      intro impI, goal_cases)
    case (1 f cb ctx y)
    then show ?case
    proof (cases "write_enabled ctx \<and> (ec_send_queue ctx \<noteq> [] \<or> ec_send_ctrl_queue ctx \<noteq> [] \<or> ec_omsg ctx \<noteq> None)")
      case True
      then obtain fl where fl: "send_turn cb ctx = Some fl"
          "(case fl of Go ctx \<Rightarrow> f cb ctx | Brk ctx \<Rightarrow> Some (0, ctx) | Ret r ctx \<Rightarrow> Some (r, ctx)) = Some y"
        using 1(2) by (auto split: bind_splits)
      have "flow_inv id fl" using send_turn_inv [OF 1(4)] True 1(3) fl(1) by blast
      then show ?thesis using fl(2) 1(1,3) by (cases fl) fastforce+
    qed auto
  qed
  then show ?thesis using assms by simp
qed


section \<open>Sessions\<close>

text \<open>
  What happens to a session after its start: the poller reports an event, another part of the program
  writes a message, or the peer and the network change what the socket will do.
\<close>

inductive session_step ::
  "ws_spec \<Rightarrow> ('h \<Rightarrow> ws_msg \<Rightarrow> bool \<times> 'h) \<Rightarrow> 'h \<times> (socket, ws_msg list) event_context \<Rightarrow> 'h \<times> (socket, ws_msg list) event_context \<Rightarrow> bool"
  for spec handler where
  poller_event: "on_poller_adapter_event (session_callbacks spec) handler h ctx = Some (ret, h', ctx') \<Longrightarrow> session_step spec handler (h, ctx) (h', ctx')"
| server_write: "ws_server_write ctx buf opc arm = (ok, ctx') \<Longrightarrow> session_step spec handler (h, ctx) (h, ctx')"
| socket_change: "session_step spec handler (h, ctx) (h, ctx\<lparr>ec_io := (ec_io ctx)\<lparr>eio_pa := s\<rparr>\<rparr>)"

inductive session_reach ::
  "ws_spec \<Rightarrow> ('h \<Rightarrow> ws_msg \<Rightarrow> bool \<times> 'h) \<Rightarrow> 'h \<Rightarrow> 'h \<times> (socket, ws_msg list) event_context \<Rightarrow> bool"
  for spec handler h0 where
  at_start: "session_reach spec handler h0 (h0, wslay_event_context_server_init s [])"
| after_step: "session_reach spec handler h0 a \<Longrightarrow> session_step spec handler a b \<Longrightarrow> session_reach spec handler h0 b"

inductive_cases session_stepE: "session_step spec handler a b"

lemma init_inv: "session_inv (wslay_event_context_server_init s u)"
  by (simp add: session_inv_def wslay_event_context_server_init_def wslay_event_context_init_def Let_def)

lemma event_inv:
  assumes "session_inv ctx" "on_poller_adapter_event (session_callbacks spec) handler h ctx = Some (ret, h', ctx')"
  shows "session_inv ctx'"
proof -
  obtain r1 c1 where s: "(if wslay_event_want_write ctx then wslay_event_send (session_callbacks spec) ctx else Some (0, ctx)) = Some (r1, c1)"
    using assms(2) by (auto simp: on_poller_adapter_event_def split: bind_splits)
  have c1: "session_inv c1" using s assms(1) send_inv [OF _ refl assms(1)] by (auto split: if_splits)
  show ?thesis
  proof (cases "r1 < 0")
    case True
    then show ?thesis using assms(2) s c1 by (simp add: on_poller_adapter_event_def)
  next
    case False
    then obtain r2 c2 where r: "(if wslay_event_want_read c1 then wslay_event_recv (session_callbacks spec) c1 else Some (0, c1)) = Some (r2, c2)"
      using assms(2) s by (auto simp: on_poller_adapter_event_def split: bind_splits)
    have "session_inv c2" using r c1 recv_inv [OF _ refl c1] by (auto split: if_splits)
    moreover have "ctx' = c2 \<or> ctx' = c2\<lparr>ec_user_data := []\<rparr>"
      using assms(2) False by (simp add: on_poller_adapter_event_def s r Let_def split: if_splits prod.splits)
    ultimately show ?thesis by auto
  qed
qed

lemma write_inv: "session_inv ctx \<Longrightarrow> ws_server_write ctx buf opc arm = (ok, ctx') \<Longrightarrow> session_inv ctx'"
  using inv_queue_msg [of "if opc = WSLAY_CONNECTION_CLOSE then set_read_enabled ctx False else ctx" "\<lparr>ms_opcode = opc, ms_msg = buf\<rparr>" 0]
  by (auto simp: ws_server_write_def wslay_event_queue_msg_def Let_def split: prod.splits if_splits)

lemma step_inv: "session_step spec handler a b \<Longrightarrow> session_inv (snd a) \<Longrightarrow> session_inv (snd b)"
  by (induction rule: session_step.induct) (auto dest: event_inv write_inv intro: inv_io simp: flags_down_def)

lemma reach_inv: "session_reach spec handler h0 a \<Longrightarrow> session_inv (snd a)"
  by (induction rule: session_reach.induct) (auto simp: init_inv dest: step_inv)

end
