(* ===== verification/Hash_Core.thy ===== *)
theory Hash_Core
  imports Iwn_Prelude
begin

text \<open>
  What the hash functions of \<open>src/src/bearssl/hash\<close> share: the integer encodings of \<open>inner.h\<close> and
  \<open>codec/\<close>, the streaming loop that fills a block buffer and the padding of the last blocks. The
  functions differ in the block size \<open>B\<close>, the offset \<open>lp\<close> of the length field, the compression
  function and the encoding of the length; these are arguments of the shared definitions here.
\<close>

unbundle bit_operations_syntax

section \<open>Integer encodings\<close>

definition br_enc32le :: "32 word \<Rightarrow> byte list" where
  "br_enc32le x = [ucast x, ucast (drop_bit 8 x), ucast (drop_bit 16 x), ucast (drop_bit 24 x)]"

definition br_enc32be :: "32 word \<Rightarrow> byte list" where
  "br_enc32be x = [ucast (drop_bit 24 x), ucast (drop_bit 16 x), ucast (drop_bit 8 x), ucast x]"

definition br_dec32le :: "byte list \<Rightarrow> 32 word" where
  "br_dec32le b = ucast (b ! 0) OR push_bit 8 (ucast (b ! 1)) OR push_bit 16 (ucast (b ! 2)) OR push_bit 24 (ucast (b ! 3))"

definition br_dec32be :: "byte list \<Rightarrow> 32 word" where
  "br_dec32be b = push_bit 24 (ucast (b ! 0)) OR push_bit 16 (ucast (b ! 1)) OR push_bit 8 (ucast (b ! 2)) OR ucast (b ! 3)"

definition br_enc64le :: "64 word \<Rightarrow> byte list" where
  "br_enc64le x = br_enc32le (ucast x) @ br_enc32le (ucast (drop_bit 32 x))"

definition br_enc64be :: "64 word \<Rightarrow> byte list" where
  "br_enc64be x = br_enc32be (ucast (drop_bit 32 x)) @ br_enc32be (ucast x)"

definition br_dec64le :: "byte list \<Rightarrow> 64 word" where
  "br_dec64le b = ucast (br_dec32le b) OR push_bit 32 (ucast (br_dec32le (drop 4 b)))"

definition br_dec64be :: "byte list \<Rightarrow> 64 word" where
  "br_dec64be b = push_bit 32 (ucast (br_dec32be b)) OR ucast (br_dec32be (drop 4 b))"

text \<open>The encodings of ranges: \<open>num\<close> values one after the other.\<close>

fun br_range_enc32le :: "32 word list \<Rightarrow> nat \<Rightarrow> byte list" where
  "br_range_enc32le v 0 = []"
| "br_range_enc32le v (Suc num) = br_enc32le (hd v) @ br_range_enc32le (tl v) num"

fun br_range_enc32be :: "32 word list \<Rightarrow> nat \<Rightarrow> byte list" where
  "br_range_enc32be v 0 = []"
| "br_range_enc32be v (Suc num) = br_enc32be (hd v) @ br_range_enc32be (tl v) num"

fun br_range_enc64be :: "64 word list \<Rightarrow> nat \<Rightarrow> byte list" where
  "br_range_enc64be v 0 = []"
| "br_range_enc64be v (Suc num) = br_enc64be (hd v) @ br_range_enc64be (tl v) num"

fun br_range_dec32le :: "nat \<Rightarrow> byte list \<Rightarrow> 32 word list" where
  "br_range_dec32le 0 src = []"
| "br_range_dec32le (Suc num) src = br_dec32le src # br_range_dec32le num (drop 4 src)"

fun br_range_dec32be :: "nat \<Rightarrow> byte list \<Rightarrow> 32 word list" where
  "br_range_dec32be 0 src = []"
| "br_range_dec32be (Suc num) src = br_dec32be src # br_range_dec32be num (drop 4 src)"

fun br_range_dec64be :: "nat \<Rightarrow> byte list \<Rightarrow> 64 word list" where
  "br_range_dec64be 0 src = []"
| "br_range_dec64be (Suc num) src = br_dec64be src # br_range_dec64be num (drop 8 src)"

section \<open>Contexts and the streaming loop\<close>

record 'v hash_context =
  hx_buf :: "byte list"
  hx_count :: "64 word"
  hx_val :: 'v

text \<open>\<open>(size_t) cc->count & (B - 1)\<close> for the block sizes 64 and 128.\<close>

definition hash_ptr :: "nat \<Rightarrow> 'v hash_context \<Rightarrow> nat" where
  "hash_ptr B cc = unat (hx_count cc AND of_nat (B - 1))"

text \<open>
  The loop of the \<open>update\<close> functions: \<open>memcpy\<close> into the buffer at \<open>ptr\<close>, and a call of the compression
  function when the buffer is full. \<open>tick\<close> is what the loop does to the counter for every piece. The
  pointer is below the block size whenever the loop is entered.
\<close>

definition buf_copy :: "nat \<Rightarrow> byte list \<Rightarrow> 'v hash_context \<Rightarrow> 'v hash_context" where
  "buf_copy ptr bs cc = cc\<lparr>hx_buf := take ptr (hx_buf cc) @ bs @ drop (ptr + length bs) (hx_buf cc)\<rparr>"

definition full_round :: "(byte list \<Rightarrow> 'v \<Rightarrow> 'v) \<Rightarrow> 'v hash_context \<Rightarrow> 'v hash_context" where
  "full_round round cc = cc\<lparr>hx_val := round (hx_buf cc) (hx_val cc)\<rparr>"

function update_loop ::
  "nat \<Rightarrow> (byte list \<Rightarrow> 'v \<Rightarrow> 'v) \<Rightarrow> (nat \<Rightarrow> 'v hash_context \<Rightarrow> 'v hash_context) \<Rightarrow> 'v hash_context \<Rightarrow> nat \<Rightarrow> byte list \<Rightarrow>
   'v hash_context" where
  "update_loop B round tick cc ptr data =
     (if data = [] \<or> B \<le> ptr then cc
      else let clen = min (B - ptr) (length data)
           in if ptr + clen = B
              then update_loop B round tick (full_round round (tick clen (buf_copy ptr (take clen data) cc))) 0 (drop clen data)
              else update_loop B round tick (tick clen (buf_copy ptr (take clen data) cc)) (ptr + clen) (drop clen data))"
  by pat_completeness auto
termination by (relation "measure (\<lambda>(B, round, tick, cc, ptr, data). length data)") (auto simp: neq_Nil_conv)

declare update_loop.simps [simp del]

definition count_clen :: "nat \<Rightarrow> 'v hash_context \<Rightarrow> 'v hash_context" where
  "count_clen clen cc = cc\<lparr>hx_count := hx_count cc + of_nat clen\<rparr>"

text \<open>
  The last blocks: the rest of the message, a one bit, zeros up to the length field, which starts
  at \<open>lp\<close>, and the length.
\<close>

definition pad_blocks ::
  "nat \<Rightarrow> nat \<Rightarrow> (byte list \<Rightarrow> 'v \<Rightarrow> 'v) \<Rightarrow> 'v hash_context \<Rightarrow> byte list \<times> 'v" where
  "pad_blocks B lp round cc =
     (let buf = take (hash_ptr B cc) (hx_buf cc) @ [0x80]
      in if length buf > lp
         then (replicate lp 0, round (buf @ replicate (B - length buf) 0) (hx_val cc))
         else (buf @ replicate (lp - length buf) 0, hx_val cc))"

section \<open>The iterated hash of a message\<close>

text \<open>
  The construction of the standards: the message is padded with a one bit, the fewest zeros that
  leave room for the length, and the length; the compression function is iterated over the blocks.
\<close>

fun hash_blocks :: "nat \<Rightarrow> byte list \<Rightarrow> byte list list" where
  "hash_blocks B xs = (if B = 0 \<or> length xs < B then [] else take B xs # hash_blocks B (drop B xs))"

declare hash_blocks.simps [simp del]

definition pad_message :: "nat \<Rightarrow> nat \<Rightarrow> (nat \<Rightarrow> byte list) \<Rightarrow> byte list \<Rightarrow> byte list" where
  "pad_message B lp enc m =
     m @ [0x80] @ replicate ((lp + B - 1 - length m mod B) mod B) 0 @ enc (length m)"

definition iterated_hash ::
  "nat \<Rightarrow> nat \<Rightarrow> (byte list \<Rightarrow> 'v \<Rightarrow> 'v) \<Rightarrow> 'v \<Rightarrow> (nat \<Rightarrow> byte list) \<Rightarrow> byte list \<Rightarrow> 'v" where
  "iterated_hash B lp round iv enc m = foldl (\<lambda>v b. round b v) iv (hash_blocks B (pad_message B lp enc m))"

section \<open>Facts on blocks\<close>

lemma hash_blocks_short: "length xs < B \<Longrightarrow> hash_blocks B xs = []"
  by (simp add: hash_blocks.simps)

lemma hash_blocks_one: "0 < B \<Longrightarrow> length xs = B \<Longrightarrow> hash_blocks B xs = [xs]"
  by (simp add: hash_blocks.simps [of B xs] hash_blocks_short)

lemma hash_blocks_append:
  "0 < B \<Longrightarrow> B dvd length xs \<Longrightarrow> hash_blocks B (xs @ ys) = hash_blocks B xs @ hash_blocks B ys"
proof (induction B xs rule: hash_blocks.induct)
  case (1 B xs)
  show ?case
  proof (cases "length xs < B")
    case True
    then have "xs = []" using "1.prems" by (cases xs) (auto dest: dvd_imp_le)
    then show ?thesis using "1.prems"(1) by (simp add: hash_blocks_short)
  next
    case False
    have "B dvd length (drop B xs)" using "1.prems"(2) by (simp add: dvd_diff_nat)
    then show ?thesis
      using "1.IH" "1.prems"(1) False by (simp add: hash_blocks.simps [of B xs] hash_blocks.simps [of B "xs @ ys"])
  qed
qed

section \<open>Streaming hashes\<close>

text \<open>
  A context that has absorbed the message \<open>m\<close>: the counter has its length, the buffer its last
  incomplete block, the chaining value the blocks before.
\<close>

locale block_hash =
  fixes B lp :: nat and round :: "byte list \<Rightarrow> 'v \<Rightarrow> 'v" and iv :: 'v
  assumes size: "0 < B" "B dvd 2 ^ 64" "lp < B" and ptr: "\<And>cc :: 'v hash_context. hash_ptr B cc = unat (hx_count cc) mod B"
begin

definition absorbed :: "'v hash_context \<Rightarrow> byte list \<Rightarrow> bool" where
  "absorbed cc m \<longleftrightarrow> hx_count cc = of_nat (length m) \<and> length (hx_buf cc) = B \<and>
     take (length m mod B) (hx_buf cc) = drop (length m - length m mod B) m \<and>
     hx_val cc = foldl (\<lambda>v b. round b v) iv (hash_blocks B m)"

lemma count_mod: "unat (of_nat n :: 64 word) mod B = n mod B"
proof -
  have "unat (of_nat n :: 64 word) = n mod 2 ^ 64" by (simp add: unat_of_nat)
  then show ?thesis using size(2) by (simp add: mod_mod_cancel)
qed

lemma absorbed_ptr: "absorbed cc m \<Longrightarrow> hash_ptr B cc = length m mod B"
  by (simp add: absorbed_def ptr count_mod)

lemma split_tail:
  "m = take (length m - length m mod B) m @ drop (length m - length m mod B) m"
  "B dvd length (take (length m - length m mod B) m)" "length (drop (length m - length m mod B) m) = length m mod B"
proof -
  have "B dvd length m - length m mod B" by (simp add: dvd_minus_mod)
  then show "B dvd length (take (length m - length m mod B) m)" by simp
qed simp_all

text \<open>The blocks of a longer message are those of its first part and those that start with the tail.\<close>

lemma blocks_tail:
  "hash_blocks B (m @ x) = hash_blocks B m @ hash_blocks B (drop (length m - length m mod B) m @ x)"
proof -
  let ?a = "take (length m - length m mod B) m" and ?t = "drop (length m - length m mod B) m"
  note app = hash_blocks_append [OF size(1) split_tail(2) [of m]]
  have "hash_blocks B (?a @ ?t) = hash_blocks B ?a @ hash_blocks B ?t" by (rule app)
  moreover have "hash_blocks B ?t = []" using split_tail(3) [of m] size(1) by (intro hash_blocks_short) simp
  ultimately have m: "hash_blocks B m = hash_blocks B ?a" by simp
  have "hash_blocks B (?a @ (?t @ x)) = hash_blocks B ?a @ hash_blocks B (?t @ x)" by (rule app)
  then show ?thesis unfolding m append.assoc [symmetric] append_take_drop_id .
qed

text \<open>What the blocks of a message become when at most a block is added.\<close>

lemma blocks_piece:
  assumes "length m mod B + length p \<le> B"
  shows "hash_blocks B (m @ p) = hash_blocks B m @
     (if length m mod B + length p = B then [drop (length m - length m mod B) m @ p] else [])"
proof -
  let ?t = "drop (length m - length m mod B) m"
  have "hash_blocks B (?t @ p) = (if length m mod B + length p = B then [?t @ p] else [])"
    using assms hash_blocks_one [OF size(1), of "?t @ p"] hash_blocks_short [of "?t @ p" B] split_tail(3) [of m] by auto
  then show ?thesis using blocks_tail [of m p] by simp
qed

text \<open>One round of the loop: the piece is copied, and a full buffer goes through the compression function.\<close>

definition feed :: "byte list \<Rightarrow> 'v hash_context \<Rightarrow> 'v hash_context" where
  "feed p cc =
     (let ptr = hash_ptr B cc; cc' = count_clen (length p) (buf_copy ptr p cc)
      in if ptr + length p = B then full_round round cc' else cc')"

lemma feed_absorbed:
  assumes ab: "absorbed cc m" and p: "length m mod B + length p \<le> B"
  shows "absorbed (feed p cc) (m @ p)"
proof -
  let ?r = "length m mod B" and ?t = "drop (length m - length m mod B) m"
  have a: "hx_count cc = of_nat (length m)" "length (hx_buf cc) = B" "take ?r (hx_buf cc) = ?t"
     "hx_val cc = foldl (\<lambda>v b. round b v) iv (hash_blocks B m)"
    using ab by (simp_all add: absorbed_def)
  have buf: "take ?r (hx_buf cc) @ p @ drop (?r + length p) (hx_buf cc) = ?t @ p @ drop (?r + length p) (hx_buf cc)"
    using a(3) by simp
  have lt: "length ?t = ?r" by (rule split_tail)
  have len: "length m + length p - (length m + length p) mod B = (if ?r + length p = B then length m + length p else length m - ?r)"
    and md: "(length m + length p) mod B = (if ?r + length p = B then 0 else ?r + length p)"
  proof -
    have "(length m + length p) mod B = (?r + length p) mod B" by (simp add: mod_add_left_eq)
    then show md: "(length m + length p) mod B = (if ?r + length p = B then 0 else ?r + length p)" using p by auto
    then show "length m + length p - (length m + length p) mod B = (if ?r + length p = B then length m + length p else length m - ?r)"
      using mod_less_eq_dividend [of "length m" B] by auto
  qed
  have drop_r: "length (drop (?r + length p) (hx_buf cc)) = B - (?r + length p)" using a(2) by simp
  show ?thesis
  proof (cases "?r + length p = B")
    case True
    then have d: "drop (?r + length p) (hx_buf cc) = []" using a(2) by simp
    have "feed p cc = full_round round (count_clen (length p) (buf_copy ?r p cc))"
      using True by (simp add: feed_def absorbed_ptr [OF ab])
    then show ?thesis
      using True d a blocks_piece [OF p] buf lt md len
      by (simp add: absorbed_def full_round_def count_clen_def buf_copy_def)
  next
    case False
    have "feed p cc = count_clen (length p) (buf_copy ?r p cc)"
      using False by (simp add: feed_def absorbed_ptr [OF ab])
    then show ?thesis
      using False a blocks_piece [OF p] buf lt md len drop_r p
      by (simp add: absorbed_def count_clen_def buf_copy_def)
  qed
qed

lemma feed_loop:
  assumes "absorbed cc m" and "data \<noteq> []"
  shows "update_loop B round count_clen cc (length m mod B) data =
     update_loop B round count_clen (feed (take (B - length m mod B) data) cc)
       (length (m @ take (B - length m mod B) data) mod B) (drop (B - length m mod B) data)"
proof -
  let ?r = "length m mod B" and ?p = "take (B - length m mod B) data"
  have r: "?r < B" using size(1) by simp
  have p: "take (min (B - ?r) (length data)) data = ?p" "drop (min (B - ?r) (length data)) data = drop (B - ?r) data"
    "length ?p = min (B - ?r) (length data)" "?r + length ?p \<le> B"
    using r by (auto simp: min_def)
  have "(length m + length ?p) mod B = (?r + length ?p) mod B" by (simp add: mod_add_left_eq)
  then have md: "length (m @ ?p) mod B = (if ?r + length ?p = B then 0 else ?r + length ?p)" using p(4) by auto
  have f: "feed ?p cc = (if ?r + length ?p = B then full_round round (count_clen (length ?p) (buf_copy ?r ?p cc))
      else count_clen (length ?p) (buf_copy ?r ?p cc))"
    by (simp add: feed_def absorbed_ptr [OF assms(1)] Let_def)
  show ?thesis
    using assms(2) r unfolding md f update_loop.simps [of B round count_clen cc ?r data] Let_def p(1,2) p(3) [symmetric]
    by simp
qed

lemma update_absorbed:
  "absorbed cc m \<Longrightarrow> absorbed (update_loop B round count_clen cc (length m mod B) data) (m @ data)"
proof (induction "length data" arbitrary: cc m data rule: less_induct)
  case less
  show ?case
  proof (cases "data = []")
    case True
    then show ?thesis using less.prems by (simp add: update_loop.simps)
  next
    case False
    let ?r = "length m mod B"
    let ?p = "take (B - ?r) data" and ?d = "drop (B - ?r) data"
    have r: "?r < B" using size(1) by simp
    have "absorbed (feed ?p cc) (m @ ?p)" using feed_absorbed [OF less.prems, of ?p] r by simp
    moreover have "length ?d < length data"
    proof -
      have "0 < length data" using False by simp
      then show ?thesis unfolding length_drop using r by linarith
    qed
    ultimately have "absorbed (update_loop B round count_clen (feed ?p cc) (length (m @ ?p) mod B) ?d) ((m @ ?p) @ ?d)"
      using less.hyps by blast
    then show ?thesis using feed_loop [OF less.prems False] by simp
  qed
qed

text \<open>The variant that advances the counter before the loop.\<close>

lemma update_loop_count:
  "ptr < B \<Longrightarrow> hx_count (update_loop B round count_clen cc ptr data) = hx_count cc + of_nat (length data) \<and>
     update_loop B round (\<lambda>clen cc. cc) (cc\<lparr>hx_count := k\<rparr>) ptr data =
     (update_loop B round count_clen cc ptr data)\<lparr>hx_count := k\<rparr>"
proof (induction "length data" arbitrary: cc ptr data rule: less_induct)
  case less
  show ?case
  proof (cases "data = []")
    case True
    then show ?thesis by (simp add: update_loop.simps)
  next
    case False
    define c where "c = min (B - ptr) (length data)"
    have c: "length (drop c data) < length data" "0 < B" "ptr + c \<noteq> B \<Longrightarrow> ptr + c < B" "c \<le> length data"
      using False less.prems by (auto simp: c_def min_def neq_Nil_conv)
    let ?p = "take c data"
    have cnt: "of_nat c + of_nat (length (drop c data)) = (of_nat (length data) :: 64 word)"
      by (simp add: c(4) flip: of_nat_add)
    have e: "buf_copy ptr ?p (cc\<lparr>hx_count := k\<rparr>) = (count_clen c (buf_copy ptr ?p cc))\<lparr>hx_count := k\<rparr>"
      "\<And>x. full_round round (x\<lparr>hx_count := k\<rparr>) = (full_round round x)\<lparr>hx_count := k\<rparr>"
      "hx_count (count_clen c (buf_copy ptr ?p cc)) = hx_count cc + of_nat c"
      "\<And>x. hx_count (full_round round x) = hx_count x"
      by (simp_all add: buf_copy_def count_clen_def full_round_def)
    note unf = update_loop.simps [of B round _ _ ptr data, unfolded Let_def, folded c_def]
    show ?thesis
    proof (cases "ptr + c = B")
      case True
      note ih = less.hyps [OF c(1,2), of "full_round round (count_clen c (buf_copy ptr ?p cc))"]
      show ?thesis
        using ih False less.prems True cnt unfolding unf [of count_clen] unf [of "\<lambda>clen cc. cc"] e by (simp add: add.assoc del: length_drop)
    next
      case nf: False
      note ih = less.hyps [OF c(1) c(3) [OF nf], of "count_clen c (buf_copy ptr ?p cc)"]
      show ?thesis
        using ih False less.prems nf cnt unfolding unf [of count_clen] unf [of "\<lambda>clen cc. cc"] e by (simp add: add.assoc del: length_drop)
    qed
  qed
qed

lemma update_absorbed_pre:
  assumes "absorbed cc m"
  shows "absorbed (update_loop B round (\<lambda>clen cc. cc) (cc\<lparr>hx_count := hx_count cc + of_nat (length data)\<rparr>) (length m mod B) data) (m @ data)"
proof -
  have "length m mod B < B" using size(1) by simp
  from update_loop_count [OF this, of cc data "hx_count cc + of_nat (length data)"]
  have "update_loop B round (\<lambda>clen cc. cc) (cc\<lparr>hx_count := hx_count cc + of_nat (length data)\<rparr>) (length m mod B) data =
      update_loop B round count_clen cc (length m mod B) data"
    by simp
  then show ?thesis using update_absorbed [OF assms] by simp
qed

lemma updates_absorbed:
  assumes upd: "\<And>cc m data. absorbed cc m \<Longrightarrow> absorbed (upd cc data) (m @ data)"
  shows "absorbed cc m \<Longrightarrow> absorbed (foldl upd cc ps) (m @ concat ps)"
proof (induction ps arbitrary: cc m)
  case (Cons p ps)
  then show ?case using upd [of cc m p] Cons.IH [of "upd cc p" "m @ p"] by simp
qed simp

lemma init_absorbed:
  "length (hx_buf cc) = B \<Longrightarrow> hx_count cc = 0 \<Longrightarrow> hx_val cc = iv \<Longrightarrow> absorbed cc []"
  using size(1) by (simp add: absorbed_def hash_blocks_short)

text \<open>Between two blocks the buffer does not matter: the value and the counter are the whole state.\<close>

lemma restore_absorbed:
  "absorbed cc m \<Longrightarrow> B dvd length m \<Longrightarrow> length (hx_buf dd) = B \<Longrightarrow> hx_count dd = of_nat (length m) \<Longrightarrow>
     hx_val dd = hx_val cc \<Longrightarrow> absorbed dd m"
  by (simp add: absorbed_def)

lemma pad_two_blocks:
  assumes b: "length b = Suc r" "r < B" "lp < Suc r" and e: "length e = B - lp"
  shows "hash_blocks B (b @ replicate ((lp + B - 1 - r) mod B) 0 @ e) = [b @ replicate (B - Suc r) 0, replicate lp 0 @ e]"
proof -
  have eq: "lp + B - 1 - r = (B - Suc r) + lp" and lt: "(B - Suc r) + lp < B" using b by linarith+
  have z: "(lp + B - 1 - r) mod B = (B - Suc r) + lp" unfolding eq by (rule mod_less [OF lt])
  have "b @ replicate ((B - Suc r) + lp) 0 @ e = (b @ replicate (B - Suc r) 0) @ (replicate lp 0 @ e)"
    by (simp add: replicate_add)
  moreover have l: "length (b @ replicate (B - Suc r) (0 :: byte)) = B" "length (replicate lp (0 :: byte) @ e) = B"
    using b e size(3) by simp_all
  ultimately show ?thesis
    unfolding z using hash_blocks_append [OF size(1), of "b @ replicate (B - Suc r) 0" "replicate lp 0 @ e"]
      hash_blocks_one [OF size(1) l(1)] hash_blocks_one [OF size(1) l(2)] by simp
qed

lemma pad_one_block:
  assumes b: "length b = Suc r" "Suc r \<le> lp" and e: "length e = B - lp"
  shows "hash_blocks B (b @ replicate ((lp + B - 1 - r) mod B) 0 @ e) = [b @ replicate (lp - Suc r) 0 @ e]"
proof -
  have eq: "lp + B - 1 - r = (lp - Suc r) + B" and lt: "lp - Suc r < B" using b size(3) by linarith+
  have z: "(lp + B - 1 - r) mod B = lp - Suc r" unfolding eq mod_add_self2 by (rule mod_less [OF lt])
  have "length (b @ replicate (lp - Suc r) 0 @ e) = B" using b e size(3) by simp
  then show ?thesis unfolding z by (rule hash_blocks_one [OF size(1)])
qed

lemma pad_absorbed:
  assumes ab: "absorbed cc m" and enc: "length (enc (length m)) = B - lp" and pb: "pad_blocks B lp round cc = (buf, val)"
  shows "round (buf @ enc (length m)) val = iterated_hash B lp round iv enc m" and "length buf = lp"
proof -
  define r where "r = length m mod B"
  define b where "b = drop (length m - r) m @ [0x80 :: byte]"
  have r: "r < B" using size(1) by (simp add: r_def)
  have t: "take r (hx_buf cc) @ [0x80] = b" and v: "hx_val cc = foldl (\<lambda>v b. round b v) iv (hash_blocks B m)"
    using ab by (simp_all add: absorbed_def r_def b_def)
  have bl: "length b = Suc r" unfolding b_def using split_tail(3) [of m, folded r_def] by simp
  have split: "hash_blocks B (pad_message B lp enc m) =
      hash_blocks B m @ hash_blocks B (b @ replicate ((lp + B - 1 - r) mod B) 0 @ enc (length m))"
    unfolding pad_message_def b_def r_def [symmetric] by (simp only: blocks_tail [of m, folded r_def] append.assoc)
  note pbs = pb [unfolded pad_blocks_def Let_def absorbed_ptr [OF ab, folded r_def] t bl]
  have "round (buf @ enc (length m)) val = iterated_hash B lp round iv enc m \<and> length buf = lp"
  proof (cases "Suc r > lp")
    case True
    then have "buf = replicate lp 0" "val = round (b @ replicate (B - Suc r) 0) (hx_val cc)" using pbs by auto
    then show ?thesis
      unfolding iterated_hash_def split pad_two_blocks [OF bl r True enc] v by simp
  next
    case False
    then have "buf = b @ replicate (lp - Suc r) 0" "val = hx_val cc" using pbs by auto
    moreover have le: "Suc r \<le> lp" using False by simp
    ultimately show ?thesis
      unfolding iterated_hash_def split pad_one_block [OF bl le enc] v using bl by simp
  qed
  then show "round (buf @ enc (length m)) val = iterated_hash B lp round iv enc m" "length buf = lp" by simp_all
qed

end

end
