(* ===== verification/Hash_Functions.thy ===== *)
theory Hash_Functions
  imports Hash_Core
begin

text \<open>
  The hash functions of \<open>src/src/bearssl/hash\<close>: \<open>md5.c\<close>, \<open>sha1.c\<close>, \<open>sha2small.c\<close> (SHA-224 and SHA-256),
  \<open>sha2big.c\<close> (SHA-384 and SHA-512) and \<open>md5sha1.c\<close>. Arrays of words are lists; the unrolled steps of
  the compression functions are written line by line as in the code. The pointer to the table of
  functions a context starts with is not part of the model; the tables are in \<open>Hash_Class\<close>.
\<close>

section \<open>MD5\<close>

definition md5_F :: "32 word \<Rightarrow> 32 word \<Rightarrow> 32 word \<Rightarrow> 32 word" where "md5_F B C D = ((C XOR D) AND B) XOR D"
definition md5_G :: "32 word \<Rightarrow> 32 word \<Rightarrow> 32 word \<Rightarrow> 32 word" where "md5_G B C D = ((C XOR B) AND D) XOR C"
definition md5_H :: "32 word \<Rightarrow> 32 word \<Rightarrow> 32 word \<Rightarrow> 32 word" where "md5_H B C D = B XOR C XOR D"
definition md5_I :: "32 word \<Rightarrow> 32 word \<Rightarrow> 32 word \<Rightarrow> 32 word" where "md5_I B C D = C XOR (B OR NOT D)"

definition ROTL :: "32 word \<Rightarrow> nat \<Rightarrow> 32 word" where
  "ROTL x n = push_bit n x OR drop_bit (32 - n) x"

definition br_md5_IV :: "32 word list" where
  "br_md5_IV = [0x67452301, 0xEFCDAB89, 0x98BADCFE, 0x10325476]"

definition md5_K :: "32 word list" where
  "md5_K =
    [0xD76AA478, 0xE8C7B756, 0x242070DB, 0xC1BDCEEE, 0xF57C0FAF, 0x4787C62A, 0xA8304613, 0xFD469501,
     0x698098D8, 0x8B44F7AF, 0xFFFF5BB1, 0x895CD7BE, 0x6B901122, 0xFD987193, 0xA679438E, 0x49B40821,
     0xF61E2562, 0xC040B340, 0x265E5A51, 0xE9B6C7AA, 0xD62F105D, 0x02441453, 0xD8A1E681, 0xE7D3FBC8,
     0x21E1CDE6, 0xC33707D6, 0xF4D50D87, 0x455A14ED, 0xA9E3E905, 0xFCEFA3F8, 0x676F02D9, 0x8D2A4C8A,
     0xFFFA3942, 0x8771F681, 0x6D9D6122, 0xFDE5380C, 0xA4BEEA44, 0x4BDECFA9, 0xF6BB4B60, 0xBEBFBC70,
     0x289B7EC6, 0xEAA127FA, 0xD4EF3085, 0x04881D05, 0xD9D4D039, 0xE6DB99E5, 0x1FA27CF8, 0xC4AC5665,
     0xF4292244, 0x432AFF97, 0xAB9423A7, 0xFC93A039, 0x655B59C3, 0x8F0CCC92, 0xFFEFF47D, 0x85845DD1,
     0x6FA87E4F, 0xFE2CE6E0, 0xA3014314, 0x4E0811A1, 0xF7537E82, 0xBD3AF235, 0x2AD7D2BB, 0xEB86D391]"

definition md5_MP :: "nat list" where
  "md5_MP =
    [1, 6, 11, 0, 5, 10, 15, 4, 9, 14, 3, 8, 13, 2, 7, 12,
     5, 8, 11, 14, 1, 4, 7, 10, 13, 0, 3, 6, 9, 12, 15, 2,
     0, 7, 14, 5, 12, 3, 10, 1, 8, 15, 6, 13, 4, 11, 2, 9]"

text \<open>
  The body of one loop over the message words: four steps with the function \<open>f\<close>, the shifts \<open>s0\<close> to
  \<open>s3\<close> and the words \<open>w (i + j)\<close>.
\<close>

definition md5_quad ::
  "(32 word \<Rightarrow> 32 word \<Rightarrow> 32 word \<Rightarrow> 32 word) \<Rightarrow> nat \<times> nat \<times> nat \<times> nat \<Rightarrow> (nat \<Rightarrow> 32 word) \<Rightarrow>
   32 word \<times> 32 word \<times> 32 word \<times> 32 word \<Rightarrow> nat \<Rightarrow> 32 word \<times> 32 word \<times> 32 word \<times> 32 word" where
  "md5_quad f s w st i =
     (let (a, b, c, d) = st; (s0, s1, s2, s3) = s;
          a = b + ROTL (a + f b c d + w (i + 0) + md5_K ! (i + 0)) s0;
          d = a + ROTL (d + f a b c + w (i + 1) + md5_K ! (i + 1)) s1;
          c = d + ROTL (c + f d a b + w (i + 2) + md5_K ! (i + 2)) s2;
          b = c + ROTL (b + f c d a + w (i + 3) + md5_K ! (i + 3)) s3
      in (a, b, c, d))"

definition br_md5_round :: "byte list \<Rightarrow> 32 word list \<Rightarrow> 32 word list" where
  "br_md5_round buf val =
     (let m = br_range_dec32le 16 buf;
          st = (val ! 0, val ! 1, val ! 2, val ! 3);
          st = foldl (md5_quad md5_F (7, 12, 17, 22) (\<lambda>j. m ! j)) st [0, 4, 8, 12];
          st = foldl (md5_quad md5_G (5, 9, 14, 20) (\<lambda>j. m ! (md5_MP ! (j - 16)))) st [16, 20, 24, 28];
          st = foldl (md5_quad md5_H (4, 11, 16, 23) (\<lambda>j. m ! (md5_MP ! (j - 16)))) st [32, 36, 40, 44];
          (a, b, c, d) = foldl (md5_quad md5_I (6, 10, 15, 21) (\<lambda>j. m ! (md5_MP ! (j - 16)))) st [48, 52, 56, 60]
      in [val ! 0 + a, val ! 1 + b, val ! 2 + c, val ! 3 + d])"

type_synonym context32 = "32 word list hash_context"
type_synonym context64 = "64 word list hash_context"

definition br_md5_init :: "context32 \<Rightarrow> context32" where
  "br_md5_init cc = cc\<lparr>hx_val := br_md5_IV, hx_count := 0\<rparr>"

definition br_md5_update :: "context32 \<Rightarrow> byte list \<Rightarrow> context32" where
  "br_md5_update cc data = update_loop 64 br_md5_round count_clen cc (hash_ptr 64 cc) data"

definition br_md5_out :: "context32 \<Rightarrow> byte list" where
  "br_md5_out cc =
     (let (buf, val) = pad_blocks 64 56 br_md5_round cc
      in br_range_enc32le (br_md5_round (buf @ br_enc64le (push_bit 3 (hx_count cc))) val) 4)"

definition br_md5_state :: "context32 \<Rightarrow> byte list \<times> 64 word" where
  "br_md5_state cc = (br_range_enc32le (hx_val cc) 4, hx_count cc)"

definition br_md5_set_state :: "context32 \<Rightarrow> byte list \<Rightarrow> 64 word \<Rightarrow> context32" where
  "br_md5_set_state cc stb count = cc\<lparr>hx_val := br_range_dec32le 4 stb, hx_count := count\<rparr>"

section \<open>SHA-1\<close>

definition sha1_F :: "32 word \<Rightarrow> 32 word \<Rightarrow> 32 word \<Rightarrow> 32 word" where "sha1_F B C D = ((C XOR D) AND B) XOR D"
definition sha1_G :: "32 word \<Rightarrow> 32 word \<Rightarrow> 32 word \<Rightarrow> 32 word" where "sha1_G B C D = B XOR C XOR D"
definition sha1_H :: "32 word \<Rightarrow> 32 word \<Rightarrow> 32 word \<Rightarrow> 32 word" where "sha1_H B C D = (D AND C) OR ((D OR C) AND B)"
definition sha1_I :: "32 word \<Rightarrow> 32 word \<Rightarrow> 32 word \<Rightarrow> 32 word" where "sha1_I B C D = sha1_G B C D"

definition sha1_K1 :: "32 word" where "sha1_K1 = 0x5A827999"
definition sha1_K2 :: "32 word" where "sha1_K2 = 0x6ED9EBA1"
definition sha1_K3 :: "32 word" where "sha1_K3 = 0x8F1BBCDC"
definition sha1_K4 :: "32 word" where "sha1_K4 = 0xCA62C1D6"

definition br_sha1_IV :: "32 word list" where
  "br_sha1_IV = [0x67452301, 0xEFCDAB89, 0x98BADCFE, 0x10325476, 0xC3D2E1F0]"

definition sha1_expand :: "32 word list \<Rightarrow> nat \<Rightarrow> 32 word list" where
  "sha1_expand m i = m @ [ROTL (m ! (i - 3) XOR m ! (i - 8) XOR m ! (i - 14) XOR m ! (i - 16)) 1]"

definition sha1_five ::
  "(32 word \<Rightarrow> 32 word \<Rightarrow> 32 word \<Rightarrow> 32 word) \<Rightarrow> 32 word \<Rightarrow> 32 word list \<Rightarrow>
   32 word \<times> 32 word \<times> 32 word \<times> 32 word \<times> 32 word \<Rightarrow> nat \<Rightarrow> 32 word \<times> 32 word \<times> 32 word \<times> 32 word \<times> 32 word" where
  "sha1_five f k m st i =
     (let (a, b, c, d, e) = st;
          e = e + (ROTL a 5 + f b c d + k + m ! (i + 0)); b = ROTL b 30;
          d = d + (ROTL e 5 + f a b c + k + m ! (i + 1)); a = ROTL a 30;
          c = c + (ROTL d 5 + f e a b + k + m ! (i + 2)); e = ROTL e 30;
          b = b + (ROTL c 5 + f d e a + k + m ! (i + 3)); d = ROTL d 30;
          a = a + (ROTL b 5 + f c d e + k + m ! (i + 4)); c = ROTL c 30
      in (a, b, c, d, e))"

definition br_sha1_round :: "byte list \<Rightarrow> 32 word list \<Rightarrow> 32 word list" where
  "br_sha1_round buf val =
     (let st = (val ! 0, val ! 1, val ! 2, val ! 3, val ! 4);
          m = foldl sha1_expand (br_range_dec32be 16 buf) [16..<80];
          st = foldl (sha1_five sha1_F sha1_K1 m) st [0, 5, 10, 15];
          st = foldl (sha1_five sha1_G sha1_K2 m) st [20, 25, 30, 35];
          st = foldl (sha1_five sha1_H sha1_K3 m) st [40, 45, 50, 55];
          (a, b, c, d, e) = foldl (sha1_five sha1_I sha1_K4 m) st [60, 65, 70, 75]
      in [val ! 0 + a, val ! 1 + b, val ! 2 + c, val ! 3 + d, val ! 4 + e])"

definition br_sha1_init :: "context32 \<Rightarrow> context32" where
  "br_sha1_init cc = cc\<lparr>hx_val := br_sha1_IV, hx_count := 0\<rparr>"

definition br_sha1_update :: "context32 \<Rightarrow> byte list \<Rightarrow> context32" where
  "br_sha1_update cc data = update_loop 64 br_sha1_round count_clen cc (hash_ptr 64 cc) data"

definition br_sha1_out :: "context32 \<Rightarrow> byte list" where
  "br_sha1_out cc =
     (let (buf, val) = pad_blocks 64 56 br_sha1_round cc
      in br_range_enc32be (br_sha1_round (buf @ br_enc64be (push_bit 3 (hx_count cc))) val) 5)"

definition br_sha1_state :: "context32 \<Rightarrow> byte list \<times> 64 word" where
  "br_sha1_state cc = (br_range_enc32be (hx_val cc) 5, hx_count cc)"

definition br_sha1_set_state :: "context32 \<Rightarrow> byte list \<Rightarrow> 64 word \<Rightarrow> context32" where
  "br_sha1_set_state cc stb count = cc\<lparr>hx_val := br_range_dec32be 5 stb, hx_count := count\<rparr>"

section \<open>SHA-224 and SHA-256\<close>

definition sha2_CH :: "'a::len word \<Rightarrow> 'a word \<Rightarrow> 'a word \<Rightarrow> 'a word" where "sha2_CH X Y Z = ((Y XOR Z) AND X) XOR Z"
definition sha2_MAJ :: "'a::len word \<Rightarrow> 'a word \<Rightarrow> 'a word \<Rightarrow> 'a word" where "sha2_MAJ X Y Z = (Y AND Z) OR ((Y OR Z) AND X)"

definition ROTR :: "32 word \<Rightarrow> nat \<Rightarrow> 32 word" where
  "ROTR x n = push_bit (32 - n) x OR drop_bit n x"

definition BSG2_0 :: "32 word \<Rightarrow> 32 word" where "BSG2_0 x = ROTR x 2 XOR ROTR x 13 XOR ROTR x 22"
definition BSG2_1 :: "32 word \<Rightarrow> 32 word" where "BSG2_1 x = ROTR x 6 XOR ROTR x 11 XOR ROTR x 25"
definition SSG2_0 :: "32 word \<Rightarrow> 32 word" where "SSG2_0 x = ROTR x 7 XOR ROTR x 18 XOR drop_bit 3 x"
definition SSG2_1 :: "32 word \<Rightarrow> 32 word" where "SSG2_1 x = ROTR x 17 XOR ROTR x 19 XOR drop_bit 10 x"

definition br_sha224_IV :: "32 word list" where
  "br_sha224_IV =
    [0xC1059ED8, 0x367CD507, 0x3070DD17, 0xF70E5939, 0xFFC00B31, 0x68581511, 0x64F98FA7, 0xBEFA4FA4]"

definition br_sha256_IV :: "32 word list" where
  "br_sha256_IV =
    [0x6A09E667, 0xBB67AE85, 0x3C6EF372, 0xA54FF53A, 0x510E527F, 0x9B05688C, 0x1F83D9AB, 0x5BE0CD19]"

definition sha2small_K :: "32 word list" where
  "sha2small_K =
    [0x428A2F98, 0x71374491, 0xB5C0FBCF, 0xE9B5DBA5, 0x3956C25B, 0x59F111F1, 0x923F82A4, 0xAB1C5ED5,
     0xD807AA98, 0x12835B01, 0x243185BE, 0x550C7DC3, 0x72BE5D74, 0x80DEB1FE, 0x9BDC06A7, 0xC19BF174,
     0xE49B69C1, 0xEFBE4786, 0x0FC19DC6, 0x240CA1CC, 0x2DE92C6F, 0x4A7484AA, 0x5CB0A9DC, 0x76F988DA,
     0x983E5152, 0xA831C66D, 0xB00327C8, 0xBF597FC7, 0xC6E00BF3, 0xD5A79147, 0x06CA6351, 0x14292967,
     0x27B70A85, 0x2E1B2138, 0x4D2C6DFC, 0x53380D13, 0x650A7354, 0x766A0ABB, 0x81C2C92E, 0x92722C85,
     0xA2BFE8A1, 0xA81A664B, 0xC24B8B70, 0xC76C51A3, 0xD192E819, 0xD6990624, 0xF40E3585, 0x106AA070,
     0x19A4C116, 0x1E376C08, 0x2748774C, 0x34B0BCB5, 0x391C0CB3, 0x4ED8AA4A, 0x5B9CCA4F, 0x682E6FF3,
     0x748F82EE, 0x78A5636F, 0x84C87814, 0x8CC70208, 0x90BEFFFA, 0xA4506CEB, 0xBEF9A3F7, 0xC67178F2]"

definition sha2small_expand :: "32 word list \<Rightarrow> nat \<Rightarrow> 32 word list" where
  "sha2small_expand w i = w @ [SSG2_1 (w ! (i - 2)) + w ! (i - 7) + SSG2_0 (w ! (i - 15)) + w ! (i - 16)]"

text \<open>\<open>SHA2_STEP (A, ..., H, j)\<close>: the new values of \<open>D\<close> and \<open>H\<close>.\<close>

definition SHA2_STEP ::
  "32 word list \<Rightarrow> 32 word \<Rightarrow> 32 word \<Rightarrow> 32 word \<Rightarrow> 32 word \<Rightarrow> 32 word \<Rightarrow> 32 word \<Rightarrow> 32 word \<Rightarrow> 32 word \<Rightarrow> nat \<Rightarrow> 32 word \<times> 32 word" where
  "SHA2_STEP w A B C D E F G H j =
     (let T1 = H + BSG2_1 E + sha2_CH E F G + sha2small_K ! j + w ! j;
          T2 = BSG2_0 A + sha2_MAJ A B C
      in (D + T1, T1 + T2))"

type_synonym 'a octet8 = "'a \<times> 'a \<times> 'a \<times> 'a \<times> 'a \<times> 'a \<times> 'a \<times> 'a"

definition sha2small_eight :: "32 word list \<Rightarrow> 32 word octet8 \<Rightarrow> nat \<Rightarrow> 32 word octet8" where
  "sha2small_eight w st i =
     (let (a, b, c, d, e, f, g, h) = st;
          (d, h) = SHA2_STEP w a b c d e f g h (i + 0);
          (c, g) = SHA2_STEP w h a b c d e f g (i + 1);
          (b, f) = SHA2_STEP w g h a b c d e f (i + 2);
          (a, e) = SHA2_STEP w f g h a b c d e (i + 3);
          (h, d) = SHA2_STEP w e f g h a b c d (i + 4);
          (g, c) = SHA2_STEP w d e f g h a b c (i + 5);
          (f, b) = SHA2_STEP w c d e f g h a b (i + 6);
          (e, a) = SHA2_STEP w b c d e f g h a (i + 7)
      in (a, b, c, d, e, f, g, h))"

definition br_sha2small_round :: "byte list \<Rightarrow> 32 word list \<Rightarrow> 32 word list" where
  "br_sha2small_round buf val =
     (let w = foldl sha2small_expand (br_range_dec32be 16 buf) [16..<64];
          st = (val ! 0, val ! 1, val ! 2, val ! 3, val ! 4, val ! 5, val ! 6, val ! 7);
          (a, b, c, d, e, f, g, h) = foldl (sha2small_eight w) st [0, 8, 16, 24, 32, 40, 48, 56]
      in [val ! 0 + a, val ! 1 + b, val ! 2 + c, val ! 3 + d, val ! 4 + e, val ! 5 + f, val ! 6 + g, val ! 7 + h])"

definition sha2small_update :: "context32 \<Rightarrow> byte list \<Rightarrow> context32" where
  "sha2small_update cc data =
     (let ptr = hash_ptr 64 cc; cc = cc\<lparr>hx_count := hx_count cc + of_nat (length data)\<rparr>
      in update_loop 64 br_sha2small_round (\<lambda>clen cc. cc) cc ptr data)"

definition sha2small_out :: "context32 \<Rightarrow> nat \<Rightarrow> byte list" where
  "sha2small_out cc num =
     (let (buf, val) = pad_blocks 64 56 br_sha2small_round cc
      in br_range_enc32be (br_sha2small_round (buf @ br_enc64be (push_bit 3 (hx_count cc))) val) num)"

definition br_sha224_init :: "context32 \<Rightarrow> context32" where
  "br_sha224_init cc = cc\<lparr>hx_val := br_sha224_IV, hx_count := 0\<rparr>"

definition br_sha224_update :: "context32 \<Rightarrow> byte list \<Rightarrow> context32" where
  "br_sha224_update cc data = sha2small_update cc data"

definition br_sha224_out :: "context32 \<Rightarrow> byte list" where
  "br_sha224_out cc = sha2small_out cc 7"

definition br_sha224_state :: "context32 \<Rightarrow> byte list \<times> 64 word" where
  "br_sha224_state cc = (br_range_enc32be (hx_val cc) 8, hx_count cc)"

definition br_sha224_set_state :: "context32 \<Rightarrow> byte list \<Rightarrow> 64 word \<Rightarrow> context32" where
  "br_sha224_set_state cc stb count = cc\<lparr>hx_val := br_range_dec32be 8 stb, hx_count := count\<rparr>"

definition br_sha256_init :: "context32 \<Rightarrow> context32" where
  "br_sha256_init cc = cc\<lparr>hx_val := br_sha256_IV, hx_count := 0\<rparr>"

definition br_sha256_out :: "context32 \<Rightarrow> byte list" where
  "br_sha256_out cc = sha2small_out cc 8"

section \<open>SHA-384 and SHA-512\<close>

definition ROTR64 :: "64 word \<Rightarrow> nat \<Rightarrow> 64 word" where
  "ROTR64 x n = push_bit (64 - n) x OR drop_bit n x"

definition BSG5_0 :: "64 word \<Rightarrow> 64 word" where "BSG5_0 x = ROTR64 x 28 XOR ROTR64 x 34 XOR ROTR64 x 39"
definition BSG5_1 :: "64 word \<Rightarrow> 64 word" where "BSG5_1 x = ROTR64 x 14 XOR ROTR64 x 18 XOR ROTR64 x 41"
definition SSG5_0 :: "64 word \<Rightarrow> 64 word" where "SSG5_0 x = ROTR64 x 1 XOR ROTR64 x 8 XOR drop_bit 7 x"
definition SSG5_1 :: "64 word \<Rightarrow> 64 word" where "SSG5_1 x = ROTR64 x 19 XOR ROTR64 x 61 XOR drop_bit 6 x"

definition IV384 :: "64 word list" where
  "IV384 =
    [0xCBBB9D5DC1059ED8, 0x629A292A367CD507, 0x9159015A3070DD17, 0x152FECD8F70E5939,
     0x67332667FFC00B31, 0x8EB44A8768581511, 0xDB0C2E0D64F98FA7, 0x47B5481DBEFA4FA4]"

definition IV512 :: "64 word list" where
  "IV512 =
    [0x6A09E667F3BCC908, 0xBB67AE8584CAA73B, 0x3C6EF372FE94F82B, 0xA54FF53A5F1D36F1,
     0x510E527FADE682D1, 0x9B05688C2B3E6C1F, 0x1F83D9ABFB41BD6B, 0x5BE0CD19137E2179]"

definition sha2big_K :: "64 word list" where
  "sha2big_K =
    [0x428A2F98D728AE22, 0x7137449123EF65CD, 0xB5C0FBCFEC4D3B2F, 0xE9B5DBA58189DBBC,
     0x3956C25BF348B538, 0x59F111F1B605D019, 0x923F82A4AF194F9B, 0xAB1C5ED5DA6D8118,
     0xD807AA98A3030242, 0x12835B0145706FBE, 0x243185BE4EE4B28C, 0x550C7DC3D5FFB4E2,
     0x72BE5D74F27B896F, 0x80DEB1FE3B1696B1, 0x9BDC06A725C71235, 0xC19BF174CF692694,
     0xE49B69C19EF14AD2, 0xEFBE4786384F25E3, 0x0FC19DC68B8CD5B5, 0x240CA1CC77AC9C65,
     0x2DE92C6F592B0275, 0x4A7484AA6EA6E483, 0x5CB0A9DCBD41FBD4, 0x76F988DA831153B5,
     0x983E5152EE66DFAB, 0xA831C66D2DB43210, 0xB00327C898FB213F, 0xBF597FC7BEEF0EE4,
     0xC6E00BF33DA88FC2, 0xD5A79147930AA725, 0x06CA6351E003826F, 0x142929670A0E6E70,
     0x27B70A8546D22FFC, 0x2E1B21385C26C926, 0x4D2C6DFC5AC42AED, 0x53380D139D95B3DF,
     0x650A73548BAF63DE, 0x766A0ABB3C77B2A8, 0x81C2C92E47EDAEE6, 0x92722C851482353B,
     0xA2BFE8A14CF10364, 0xA81A664BBC423001, 0xC24B8B70D0F89791, 0xC76C51A30654BE30,
     0xD192E819D6EF5218, 0xD69906245565A910, 0xF40E35855771202A, 0x106AA07032BBD1B8,
     0x19A4C116B8D2D0C8, 0x1E376C085141AB53, 0x2748774CDF8EEB99, 0x34B0BCB5E19B48A8,
     0x391C0CB3C5C95A63, 0x4ED8AA4AE3418ACB, 0x5B9CCA4F7763E373, 0x682E6FF3D6B2B8A3,
     0x748F82EE5DEFB2FC, 0x78A5636F43172F60, 0x84C87814A1F0AB72, 0x8CC702081A6439EC,
     0x90BEFFFA23631E28, 0xA4506CEBDE82BDE9, 0xBEF9A3F7B2C67915, 0xC67178F2E372532B,
     0xCA273ECEEA26619C, 0xD186B8C721C0C207, 0xEADA7DD6CDE0EB1E, 0xF57D4F7FEE6ED178,
     0x06F067AA72176FBA, 0x0A637DC5A2C898A6, 0x113F9804BEF90DAE, 0x1B710B35131C471B,
     0x28DB77F523047D84, 0x32CAAB7B40C72493, 0x3C9EBE0A15C9BEBC, 0x431D67C49C100D4C,
     0x4CC5D4BECB3E42B6, 0x597F299CFC657E2A, 0x5FCB6FAB3AD6FAEC, 0x6C44198C4A475817]"

definition sha2big_expand :: "64 word list \<Rightarrow> nat \<Rightarrow> 64 word list" where
  "sha2big_expand w i = w @ [SSG5_1 (w ! (i - 2)) + w ! (i - 7) + SSG5_0 (w ! (i - 15)) + w ! (i - 16)]"

definition SHA2BIG_STEP ::
  "64 word list \<Rightarrow> 64 word \<Rightarrow> 64 word \<Rightarrow> 64 word \<Rightarrow> 64 word \<Rightarrow> 64 word \<Rightarrow> 64 word \<Rightarrow> 64 word \<Rightarrow> 64 word \<Rightarrow> nat \<Rightarrow> 64 word \<times> 64 word" where
  "SHA2BIG_STEP w A B C D E F G H j =
     (let T1 = H + BSG5_1 E + sha2_CH E F G + sha2big_K ! j + w ! j;
          T2 = BSG5_0 A + sha2_MAJ A B C
      in (D + T1, T1 + T2))"

definition sha2big_eight :: "64 word list \<Rightarrow> 64 word octet8 \<Rightarrow> nat \<Rightarrow> 64 word octet8" where
  "sha2big_eight w st i =
     (let (a, b, c, d, e, f, g, h) = st;
          (d, h) = SHA2BIG_STEP w a b c d e f g h (i + 0);
          (c, g) = SHA2BIG_STEP w h a b c d e f g (i + 1);
          (b, f) = SHA2BIG_STEP w g h a b c d e f (i + 2);
          (a, e) = SHA2BIG_STEP w f g h a b c d e (i + 3);
          (h, d) = SHA2BIG_STEP w e f g h a b c d (i + 4);
          (g, c) = SHA2BIG_STEP w d e f g h a b c (i + 5);
          (f, b) = SHA2BIG_STEP w c d e f g h a b (i + 6);
          (e, a) = SHA2BIG_STEP w b c d e f g h a (i + 7)
      in (a, b, c, d, e, f, g, h))"

definition sha2big_round :: "byte list \<Rightarrow> 64 word list \<Rightarrow> 64 word list" where
  "sha2big_round buf val =
     (let w = foldl sha2big_expand (br_range_dec64be 16 buf) [16..<80];
          st = (val ! 0, val ! 1, val ! 2, val ! 3, val ! 4, val ! 5, val ! 6, val ! 7);
          (a, b, c, d, e, f, g, h) = foldl (sha2big_eight w) st [0, 8, 16, 24, 32, 40, 48, 56, 64, 72]
      in [val ! 0 + a, val ! 1 + b, val ! 2 + c, val ! 3 + d, val ! 4 + e, val ! 5 + f, val ! 6 + g, val ! 7 + h])"

definition sha2big_update :: "context64 \<Rightarrow> byte list \<Rightarrow> context64" where
  "sha2big_update cc data =
     (let ptr = hash_ptr 128 cc; cc = cc\<lparr>hx_count := hx_count cc + of_nat (length data)\<rparr>
      in update_loop 128 sha2big_round (\<lambda>clen cc. cc) cc ptr data)"

definition sha2big_out :: "context64 \<Rightarrow> nat \<Rightarrow> byte list" where
  "sha2big_out cc num =
     (let (buf, val) = pad_blocks 128 112 sha2big_round cc
      in br_range_enc64be (sha2big_round (buf @ br_enc64be (drop_bit 61 (hx_count cc)) @ br_enc64be (push_bit 3 (hx_count cc))) val) num)"

definition br_sha384_init :: "context64 \<Rightarrow> context64" where
  "br_sha384_init cc = cc\<lparr>hx_val := IV384, hx_count := 0\<rparr>"

definition br_sha384_update :: "context64 \<Rightarrow> byte list \<Rightarrow> context64" where
  "br_sha384_update cc data = sha2big_update cc data"

definition br_sha384_out :: "context64 \<Rightarrow> byte list" where
  "br_sha384_out cc = sha2big_out cc 6"

definition br_sha384_state :: "context64 \<Rightarrow> byte list \<times> 64 word" where
  "br_sha384_state cc = (br_range_enc64be (hx_val cc) 8, hx_count cc)"

definition br_sha384_set_state :: "context64 \<Rightarrow> byte list \<Rightarrow> 64 word \<Rightarrow> context64" where
  "br_sha384_set_state cc stb count = cc\<lparr>hx_val := br_range_dec64be 8 stb, hx_count := count\<rparr>"

definition br_sha512_init :: "context64 \<Rightarrow> context64" where
  "br_sha512_init cc = cc\<lparr>hx_val := IV512, hx_count := 0\<rparr>"

definition br_sha512_out :: "context64 \<Rightarrow> byte list" where
  "br_sha512_out cc = sha2big_out cc 8"

section \<open>MD5 and SHA-1 together\<close>

type_synonym md5sha1_context = "(32 word list \<times> 32 word list) hash_context"

definition md5sha1_round :: "byte list \<Rightarrow> 32 word list \<times> 32 word list \<Rightarrow> 32 word list \<times> 32 word list" where
  "md5sha1_round buf val = (br_md5_round buf (fst val), br_sha1_round buf (snd val))"

definition br_md5sha1_init :: "md5sha1_context \<Rightarrow> md5sha1_context" where
  "br_md5sha1_init cc = cc\<lparr>hx_val := (br_md5_IV, br_sha1_IV), hx_count := 0\<rparr>"

definition br_md5sha1_update :: "md5sha1_context \<Rightarrow> byte list \<Rightarrow> md5sha1_context" where
  "br_md5sha1_update cc data = update_loop 64 md5sha1_round count_clen cc (hash_ptr 64 cc) data"

definition br_md5sha1_out :: "md5sha1_context \<Rightarrow> byte list" where
  "br_md5sha1_out cc =
     (let (buf, val_md5, val_sha1) = pad_blocks 64 56 md5sha1_round cc;
          count = push_bit 3 (hx_count cc);
          val_md5 = br_md5_round (buf @ br_enc64le count) val_md5;
          val_sha1 = br_sha1_round (buf @ br_enc64be count) val_sha1
      in br_range_enc32le val_md5 4 @ br_range_enc32be val_sha1 5)"

definition br_md5sha1_state :: "md5sha1_context \<Rightarrow> byte list \<times> 64 word" where
  "br_md5sha1_state cc = (br_range_enc32le (fst (hx_val cc)) 4 @ br_range_enc32be (snd (hx_val cc)) 5, hx_count cc)"

definition br_md5sha1_set_state :: "md5sha1_context \<Rightarrow> byte list \<Rightarrow> 64 word \<Rightarrow> md5sha1_context" where
  "br_md5sha1_set_state cc stb count =
     cc\<lparr>hx_val := (br_range_dec32le 4 stb, br_range_dec32be 5 (drop 16 stb)), hx_count := count\<rparr>"

end
