(* ===== verification/Hash_Standards.thy ===== *)
theory Hash_Standards
  imports Hash_Functions
begin

text \<open>
  The hash functions as the standards define them, RFC 1321 for MD5 and FIPS 180-4 for the SHA family,
  and the proof that the code computes them: the unrolled compression functions, and the streaming
  contexts for every way a message is cut into pieces.
\<close>

section \<open>The standards\<close>

text \<open>A block as 16 words, big-endian or little-endian.\<close>

definition be_words :: "nat \<Rightarrow> byte list \<Rightarrow> 'a::len word list" where
  "be_words k blk = map (\<lambda>i. of_nat (be_val (take k (drop (k * i) blk)))) [0..<16]"

definition le_words :: "nat \<Rightarrow> byte list \<Rightarrow> 'a::len word list" where
  "le_words k blk = map (\<lambda>i. of_nat (be_val (rev (take k (drop (k * i) blk))))) [0..<16]"

definition std_Ch :: "'a::len word \<Rightarrow> 'a word \<Rightarrow> 'a word \<Rightarrow> 'a word" where
  "std_Ch x y z = (x AND y) XOR (NOT x AND z)"

definition std_Parity :: "'a::len word \<Rightarrow> 'a word \<Rightarrow> 'a word \<Rightarrow> 'a word" where
  "std_Parity x y z = x XOR y XOR z"

definition std_Maj :: "'a::len word \<Rightarrow> 'a word \<Rightarrow> 'a word \<Rightarrow> 'a word" where
  "std_Maj x y z = (x AND y) XOR (x AND z) XOR (y AND z)"

subsection \<open>MD5\<close>

definition md5_f :: "nat \<Rightarrow> 32 word \<Rightarrow> 32 word \<Rightarrow> 32 word \<Rightarrow> 32 word" where
  "md5_f i x y z =
     (if i < 16 then (x AND y) OR (NOT x AND z)
      else if i < 32 then (x AND z) OR (y AND NOT z)
      else if i < 48 then x XOR y XOR z
      else y XOR (x OR NOT z))"

definition md5_k :: "nat \<Rightarrow> nat" where
  "md5_k i = (if i < 16 then i else if i < 32 then (5 * i + 1) mod 16 else if i < 48 then (3 * i + 5) mod 16 else 7 * i mod 16)"

definition md5_s :: "nat \<Rightarrow> nat" where
  "md5_s i = [[7, 12, 17, 22], [5, 9, 14, 20], [4, 11, 16, 23], [6, 10, 15, 21]] ! (i div 16) ! (i mod 4)"

definition md5_step ::
  "32 word list \<Rightarrow> 32 word \<times> 32 word \<times> 32 word \<times> 32 word \<Rightarrow> nat \<Rightarrow> 32 word \<times> 32 word \<times> 32 word \<times> 32 word" where
  "md5_step X st i = (let (a, b, c, d) = st
     in (d, b + ROTL (a + md5_f i b c d + X ! md5_k i + md5_K ! i) (md5_s i), b, c))"

definition md5_compress :: "byte list \<Rightarrow> 32 word list \<Rightarrow> 32 word list" where
  "md5_compress blk v =
     (let (a, b, c, d) = foldl (md5_step (le_words 4 blk)) (v ! 0, v ! 1, v ! 2, v ! 3) [0..<64]
      in [v ! 0 + a, v ! 1 + b, v ! 2 + c, v ! 3 + d])"

definition std_md5 :: "byte list \<Rightarrow> byte list" where
  "std_md5 m = concat (map (\<lambda>w. rev (be_bytes 4 (unat w)))
     (iterated_hash 64 56 md5_compress br_md5_IV (\<lambda>n. rev (be_bytes 8 (8 * n))) m))"

subsection \<open>SHA-1\<close>

definition sha1_f :: "nat \<Rightarrow> 32 word \<Rightarrow> 32 word \<Rightarrow> 32 word \<Rightarrow> 32 word" where
  "sha1_f t = (if t < 20 then std_Ch else if t < 40 then std_Parity else if t < 60 then std_Maj else std_Parity)"

definition sha1_K :: "nat \<Rightarrow> 32 word" where
  "sha1_K t = (if t < 20 then 0x5A827999 else if t < 40 then 0x6ED9EBA1 else if t < 60 then 0x8F1BBCDC else 0xCA62C1D6)"

fun sha1_W :: "32 word list \<Rightarrow> nat \<Rightarrow> 32 word" where
  "sha1_W M t = (if t < 16 then M ! t
     else ROTL (sha1_W M (t - 3) XOR sha1_W M (t - 8) XOR sha1_W M (t - 14) XOR sha1_W M (t - 16)) 1)"

definition sha1_step ::
  "(nat \<Rightarrow> 32 word) \<Rightarrow> 32 word \<times> 32 word \<times> 32 word \<times> 32 word \<times> 32 word \<Rightarrow> nat \<Rightarrow> 32 word \<times> 32 word \<times> 32 word \<times> 32 word \<times> 32 word" where
  "sha1_step W st t = (let (a, b, c, d, e) = st
     in (ROTL a 5 + sha1_f t b c d + e + sha1_K t + W t, a, ROTL b 30, c, d))"

definition sha1_compress :: "byte list \<Rightarrow> 32 word list \<Rightarrow> 32 word list" where
  "sha1_compress blk v =
     (let (a, b, c, d, e) = foldl (sha1_step (sha1_W (be_words 4 blk))) (v ! 0, v ! 1, v ! 2, v ! 3, v ! 4) [0..<80]
      in [v ! 0 + a, v ! 1 + b, v ! 2 + c, v ! 3 + d, v ! 4 + e])"

definition std_sha1 :: "byte list \<Rightarrow> byte list" where
  "std_sha1 m = concat (map (\<lambda>w. be_bytes 4 (unat w))
     (iterated_hash 64 56 sha1_compress br_sha1_IV (\<lambda>n. be_bytes 8 (8 * n)) m))"

subsection \<open>SHA-2\<close>

text \<open>
  One definition for both word sizes: \<open>S0\<close>, \<open>S1\<close>, \<open>s0\<close> and \<open>s1\<close> are the four functions on words, \<open>K\<close>
  the constants.
\<close>

fun sha2_W :: "('a::len word \<Rightarrow> 'a word) \<Rightarrow> ('a word \<Rightarrow> 'a word) \<Rightarrow> 'a word list \<Rightarrow> nat \<Rightarrow> 'a word" where
  "sha2_W s0 s1 M t = (if t < 16 then M ! t
     else s1 (sha2_W s0 s1 M (t - 2)) + sha2_W s0 s1 M (t - 7) + s0 (sha2_W s0 s1 M (t - 15)) + sha2_W s0 s1 M (t - 16))"

definition sha2_step ::
  "('a::len word \<Rightarrow> 'a word) \<Rightarrow> ('a word \<Rightarrow> 'a word) \<Rightarrow> 'a word list \<Rightarrow> (nat \<Rightarrow> 'a word) \<Rightarrow> 'a word octet8 \<Rightarrow> nat \<Rightarrow> 'a word octet8" where
  "sha2_step S0 S1 K W st t =
     (let (a, b, c, d, e, f, g, h) = st;
          T1 = h + S1 e + std_Ch e f g + K ! t + W t;
          T2 = S0 a + std_Maj a b c
      in (T1 + T2, a, b, c, d + T1, e, f, g))"

definition sha2_compress ::
  "('a::len word \<Rightarrow> 'a word) \<Rightarrow> ('a word \<Rightarrow> 'a word) \<Rightarrow> 'a word list \<Rightarrow> (nat \<Rightarrow> 'a word) \<Rightarrow> 'a word list \<Rightarrow> 'a word list" where
  "sha2_compress S0 S1 K W v =
     (let (a, b, c, d, e, f, g, h) = foldl (sha2_step S0 S1 K W) (v ! 0, v ! 1, v ! 2, v ! 3, v ! 4, v ! 5, v ! 6, v ! 7) [0..<length K]
      in [v ! 0 + a, v ! 1 + b, v ! 2 + c, v ! 3 + d, v ! 4 + e, v ! 5 + f, v ! 6 + g, v ! 7 + h])"

definition sha256_compress :: "byte list \<Rightarrow> 32 word list \<Rightarrow> 32 word list" where
  "sha256_compress blk v = sha2_compress BSG2_0 BSG2_1 sha2small_K (sha2_W SSG2_0 SSG2_1 (be_words 4 blk)) v"

definition sha512_compress :: "byte list \<Rightarrow> 64 word list \<Rightarrow> 64 word list" where
  "sha512_compress blk v = sha2_compress BSG5_0 BSG5_1 sha2big_K (sha2_W SSG5_0 SSG5_1 (be_words 8 blk)) v"

definition std_sha2small :: "32 word list \<Rightarrow> nat \<Rightarrow> byte list \<Rightarrow> byte list" where
  "std_sha2small iv num m = concat (map (\<lambda>w. be_bytes 4 (unat w))
     (take num (iterated_hash 64 56 sha256_compress iv (\<lambda>n. be_bytes 8 (8 * n)) m)))"

definition std_sha224 :: "byte list \<Rightarrow> byte list" where
  "std_sha224 = std_sha2small br_sha224_IV 7"

definition std_sha256 :: "byte list \<Rightarrow> byte list" where
  "std_sha256 = std_sha2small br_sha256_IV 8"

text \<open>The counter of the code has 64 bits and counts bytes.\<close>

definition std_sha2big :: "64 word list \<Rightarrow> nat \<Rightarrow> byte list \<Rightarrow> byte list" where
  "std_sha2big iv num m = concat (map (\<lambda>w. be_bytes 8 (unat w))
     (take num (iterated_hash 128 112 sha512_compress iv (\<lambda>n. be_bytes 16 (8 * (n mod 2 ^ 64))) m)))"

definition std_sha384 :: "byte list \<Rightarrow> byte list" where
  "std_sha384 = std_sha2big IV384 6"

definition std_sha512 :: "byte list \<Rightarrow> byte list" where
  "std_sha512 = std_sha2big IV512 8"

section \<open>Encodings\<close>

lemma be_bytes_mod: "be_bytes k (n mod 256 ^ k) = be_bytes k n"
proof (induction k arbitrary: n)
  case (Suc k)
  have d: "n mod 256 ^ Suc k div 256 = n div 256 mod 256 ^ k"
    using mod_mult2_eq [of n 256 "256 ^ k"] by simp
  have "n mod 256 ^ Suc k mod 256 = n mod 256" by (rule mod_mod_cancel) simp
  then have m: "(of_nat (n mod 256 ^ Suc k) :: byte) = of_nat n"
    by (simp only: word_unat_eq_iff unat_of_nat) simp
  show ?case unfolding be_bytes.simps d m Suc.IH ..
qed simp

lemma be_bytes_4: "be_bytes 4 n = [of_nat (n div 16777216), of_nat (n div 65536), of_nat (n div 256), of_nat n]"
proof -
  have "(4 :: nat) = Suc (Suc (Suc (Suc 0)))" by simp
  then show ?thesis by (simp only: be_bytes.simps) (simp flip: div_mult2_eq)
qed

lemma unat_shift: "unat (drop_bit k x) = unat x div 2 ^ k"
  unfolding unat_drop_bit_eq by (rule drop_bit_eq_div)

lemma ucast_drop: "(ucast (drop_bit k (x :: 'a::len word)) :: byte) = of_nat (unat x div 2 ^ k)"
  by (simp add: word_unat_eq_iff unat_of_nat unat_shift unsigned_ucast_eq take_bit_eq_mod)

lemma enc32be_bytes: "br_enc32be x = be_bytes 4 (unat x)"
proof -
  have "(ucast x :: byte) = of_nat (unat x)" by simp
  then show ?thesis by (simp only: br_enc32be_def be_bytes_4 ucast_drop) simp
qed

lemma enc64be_bytes: "br_enc64be x = be_bytes 8 (unat x)"
proof -
  have "(ucast (drop_bit 32 x) :: 32 word) = of_nat (unat x div 256 ^ 4)" "(ucast x :: 32 word) = of_nat (unat x)"
    by (simp_all add: word_unat_eq_iff unat_of_nat unat_shift unsigned_ucast_eq take_bit_eq_mod)
  moreover have "be_bytes 4 (unat (of_nat n :: 32 word)) = be_bytes 4 n" for n
    using be_bytes_mod [of 4 n] by (simp add: unat_of_nat)
  ultimately show ?thesis
    using be_bytes_add [of 4 4 "unat x"] by (simp only: br_enc64be_def enc32be_bytes) simp
qed


lemma push_bit_or_low:
  fixes x y :: "'a::len word"
  assumes y: "\<And>n. bit y n \<Longrightarrow> n < k"
  shows "push_bit k x OR y = x * 2 ^ k + y"
proof -
  have "push_bit k x AND y = 0"
    by (rule bit_word_eqI) (auto simp: bit_simps dest!: y)
  then have "push_bit k x OR y = push_bit k x + y" by (simp add: disjunctive_add_eq_or)
  then show ?thesis by (simp add: push_bit_eq_mult)
qed
lemma bit_byte_less: "bit (x :: byte) n \<Longrightarrow> n < 8"
  using bit_imp_le_length [of x n] by simp
lemma be_val_4: "be_val [a, b, c, d] = unat a * 16777216 + unat b * 65536 + unat c * 256 + unat d"
  by (simp add: be_val_def)

lemma bytes_or:
  fixes a b c d :: byte
  shows "push_bit 24 (ucast a) OR push_bit 16 (ucast b) OR push_bit 8 (ucast c) OR ucast d = (of_nat (be_val [a, b, c, d]) :: 32 word)"
proof -
  have 1: "push_bit 8 (ucast c) OR ucast d = (ucast c * 2 ^ 8 + ucast d :: 32 word)"
    by (rule push_bit_or_low) (auto simp: bit_simps dest: bit_byte_less)
  have 2: "push_bit 16 (ucast b) OR push_bit 8 (ucast c) OR ucast d = (ucast b * 2 ^ 16 + (ucast c * 2 ^ 8 + ucast d) :: 32 word)"
    unfolding 1 [symmetric] or.assoc by (rule push_bit_or_low) (auto simp: bit_simps dest!: bit_byte_less)
  have 3: "push_bit 24 (ucast a) OR push_bit 16 (ucast b) OR push_bit 8 (ucast c) OR ucast d =
      (ucast a * 2 ^ 24 + (ucast b * 2 ^ 16 + (ucast c * 2 ^ 8 + ucast d)) :: 32 word)"
    unfolding 2 [symmetric] or.assoc by (rule push_bit_or_low) (auto simp: bit_simps dest!: bit_byte_less)
  have u: "(ucast x :: 32 word) = of_nat (unat x)" for x :: byte by simp
  show ?thesis unfolding 3 unfolding be_val_4 u by (simp add: algebra_simps)
qed

lemma dec32be_val: "4 \<le> length b \<Longrightarrow> br_dec32be b = of_nat (be_val (take 4 b))"
proof -
  assume "4 \<le> length b"
  then obtain w x y z r where b: "b = w # x # y # z # r"
    by (auto simp: numeral_eq_Suc Suc_le_length_iff)
  show ?thesis unfolding b br_dec32be_def using bytes_or [of w x y z] by simp
qed

lemma dec32le_rev: "4 \<le> length b \<Longrightarrow> br_dec32le b = br_dec32be (rev (take 4 b))"
proof -
  assume "4 \<le> length b"
  then obtain w x y z r where b: "b = w # x # y # z # r"
    by (auto simp: numeral_eq_Suc Suc_le_length_iff)
  show ?thesis unfolding b br_dec32be_def br_dec32le_def by (simp add: ac_simps numeral_eq_Suc)
qed

lemma dec32le_val: "4 \<le> length b \<Longrightarrow> br_dec32le b = of_nat (be_val (rev (take 4 b)))"
  by (simp add: dec32le_rev dec32be_val)

lemma be_val_append: "be_val (xs @ ys) = be_val xs * 256 ^ length ys + be_val ys"
  by (induction ys rule: rev_induct) (simp_all add: be_val_snoc be_val_snoc [of "xs @ ys" for ys, unfolded append.assoc] algebra_simps, simp add: be_val_def)

lemma be_val_less: "be_val xs < 256 ^ length xs"
proof (induction xs rule: rev_induct)
  case (snoc x xs)
  have "unat x < 256" using unsigned_less [of x] by simp
  then show ?case using snoc by (simp add: be_val_snoc)
qed (simp add: be_val_def)

lemma dec64be_val: "8 \<le> length b \<Longrightarrow> br_dec64be b = of_nat (be_val (take 8 b))"
proof -
  assume l: "8 \<le> length b"
  define x y where "x = take 4 b" and "y = take 4 (drop 4 b)"
  have xy: "take 8 b = x @ y" using take_add [of 4 4 b] by (simp add: x_def y_def)
  have ly: "length x = 4" "length y = 4" using l by (simp_all add: x_def y_def)
  have "be_val x < 256 ^ 4" "be_val y < 256 ^ 4" using be_val_less [of x] be_val_less [of y] ly by simp_all
  then have u: "unat (of_nat (be_val x) :: 32 word) = be_val x" "unat (of_nat (be_val y) :: 32 word) = be_val y"
    by (simp_all add: unat_of_nat)
  have c: "(ucast w :: 64 word) = of_nat (unat w)" for w :: "32 word" by simp
  have "br_dec64be b = push_bit 32 (of_nat (be_val x)) OR (ucast (of_nat (be_val y) :: 32 word) :: 64 word)"
    using l u by (simp add: br_dec64be_def dec32be_val x_def y_def c del: of_nat_unat)
  also have "\<dots> = of_nat (be_val x) * 2 ^ 32 + (ucast (of_nat (be_val y) :: 32 word) :: 64 word)"
    by (rule push_bit_or_low) (simp add: bit_simps)
  also have "\<dots> = of_nat (be_val x * 256 ^ 4 + be_val y)"
    unfolding c u by simp
  finally show ?thesis unfolding xy be_val_append ly .
qed

lemma range_map:
  assumes "\<And>n src. r (Suc n) src = d src # r n (drop k src)" "\<And>src. r 0 src = []"
    "\<And>b. k \<le> length b \<Longrightarrow> d b = g (take k b)"
  shows "k * n \<le> length src \<Longrightarrow> r n src = map (\<lambda>i. g (take k (drop (k * i) src))) [0..<n]"
proof (induction n arbitrary: src)
  case (Suc n)
  have "k * n \<le> length (drop k src)" using Suc.prems by simp
  from Suc.IH [OF this] show ?case using Suc.prems assms(1,3)
    by (simp add: upt_conv_Cons map_Suc_upt [symmetric] comp_def add.commute del: upt_Suc)
qed (simp add: assms(2))

lemma words32be: "64 \<le> length b \<Longrightarrow> br_range_dec32be 16 b = be_words 4 b"
  unfolding be_words_def by (rule range_map [where d = br_dec32be]) (simp_all add: dec32be_val)

lemma words32le: "64 \<le> length b \<Longrightarrow> br_range_dec32le 16 b = le_words 4 b"
  unfolding le_words_def by (rule range_map [where d = br_dec32le]) (simp_all add: dec32le_val)

lemma words64be: "128 \<le> length b \<Longrightarrow> br_range_dec64be 16 b = be_words 8 b"
  unfolding be_words_def by (rule range_map [where d = br_dec64be]) (simp_all add: dec64be_val)

lemma schedule_map:
  assumes "a \<le> b" "\<And>i. a \<le> i \<Longrightarrow> g (map W [0..<i]) i = map W [0..<i] @ [W i]"
  shows "foldl g (map W [0..<a]) [a..<b] = map W [0..<b]"
  using assms(1) by (induction b rule: dec_induct) (simp_all add: assms(2))

declare sha1_W.simps [simp del] sha2_W.simps [simp del]

lemma first_words: "length M = 16 \<Longrightarrow> (\<And>t. t < 16 \<Longrightarrow> W t = M ! t) \<Longrightarrow> M = map W [0..<16]"
  by (rule nth_equalityI) simp_all

lemma words_length [simp]: "length (be_words k b) = 16" "length (le_words k b) = 16"
  by (simp_all add: be_words_def le_words_def)

lemma sha1_schedule:
  assumes "length M = 16"
  shows "foldl sha1_expand M [16..<80] = map (sha1_W M) [0..<80]"
proof -
  have "M = map (sha1_W M) [0..<16]" using assms by (rule first_words) (simp add: sha1_W.simps)
  moreover have "foldl sha1_expand (map (sha1_W M) [0..<16]) [16..<80] = map (sha1_W M) [0..<80]"
    by (rule schedule_map) (simp_all add: sha1_expand_def sha1_W.simps [of M "_ :: nat"])
  ultimately show ?thesis by simp
qed

lemma sha2small_schedule:
  assumes "length M = 16"
  shows "foldl sha2small_expand M [16..<64] = map (sha2_W SSG2_0 SSG2_1 M) [0..<64]"
proof -
  let ?W = "sha2_W SSG2_0 SSG2_1 M"
  have "M = map ?W [0..<16]" using assms by (rule first_words) (simp add: sha2_W.simps)
  moreover have "foldl sha2small_expand (map ?W [0..<16]) [16..<64] = map ?W [0..<64]"
    by (rule schedule_map) (simp_all add: sha2small_expand_def sha2_W.simps [of _ _ M "_ :: nat"])
  ultimately show ?thesis by simp
qed

lemma sha2big_schedule:
  assumes "length M = 16"
  shows "foldl sha2big_expand M [16..<80] = map (sha2_W SSG5_0 SSG5_1 M) [0..<80]"
proof -
  let ?W = "sha2_W SSG5_0 SSG5_1 M"
  have "M = map ?W [0..<16]" using assms by (rule first_words) (simp add: sha2_W.simps)
  moreover have "foldl sha2big_expand (map ?W [0..<16]) [16..<80] = map ?W [0..<80]"
    by (rule schedule_map) (simp_all add: sha2big_expand_def sha2_W.simps [of _ _ M "_ :: nat"])
  ultimately show ?thesis by simp
qed

section \<open>The boolean functions\<close>

lemma sha2_CH_std: "sha2_CH = std_Ch"
  by (intro ext bit_word_eqI) (auto simp: sha2_CH_def std_Ch_def bit_simps)

lemma sha2_MAJ_std: "sha2_MAJ = std_Maj"
  by (intro ext bit_word_eqI) (auto simp: sha2_MAJ_def std_Maj_def bit_simps)

lemma sha1_functions: "sha1_F = std_Ch" "sha1_G = std_Parity" "sha1_H = std_Maj" "sha1_I = std_Parity"
  by (intro ext bit_word_eqI; auto simp: sha1_F_def sha1_G_def sha1_H_def sha1_I_def std_Ch_def std_Parity_def std_Maj_def bit_simps)+

lemma md5_functions:
  "i < 16 \<Longrightarrow> md5_f i = md5_F" "16 \<le> i \<Longrightarrow> i < 32 \<Longrightarrow> md5_f i = md5_G" "32 \<le> i \<Longrightarrow> i < 48 \<Longrightarrow> md5_f i = md5_H"
  "48 \<le> i \<Longrightarrow> md5_f i = md5_I"
  by (intro ext bit_word_eqI; auto simp: md5_f_def md5_F_def md5_G_def md5_H_def md5_I_def bit_simps)+

section \<open>The unrolled loops\<close>

text \<open>A loop whose body makes \<open>k\<close> steps at once makes all of them.\<close>

lemma foldl_groups:
  assumes "\<And>st i. i \<in> set is \<Longrightarrow> g st i = foldl f st [i..<i + k]"
    and "is = map (\<lambda>j. a + k * j) [0..<n]"
  shows "foldl g st is = foldl f st [a..<a + k * n]"
proof -
  have "foldl g st (map (\<lambda>j. a + k * j) [0..<m]) = foldl f st [a..<a + k * m]" if "m \<le> n" for m
    using that
  proof (induction m)
    case (Suc m)
    have "a + k * m \<in> set is" using Suc.prems by (auto simp: assms(2))
    moreover have "[a..<a + k * Suc m] = [a..<a + k * m] @ [a + k * m..<a + k * m + k]"
      using upt_add_eq_append [of a "a + k * m" k] by (simp add: ac_simps)
    ultimately show ?case using Suc assms(1) by simp
  qed simp
  then show ?thesis unfolding assms(2) by simp
qed

lemma upt_eight: "[i..<i + 8] = [i + 0, i + 1, i + 2, i + 3, i + 4, i + 5, i + 6, i + 7]"
  by (simp add: upt_rec)

lemma upt_five: "[i..<i + 5] = [i, i + 1, i + 2, i + 3, i + 4]"
  by (simp add: upt_rec)

lemma upt_four: "[i..<i + 4] = [i, i + 1, i + 2, i + 3]"
  by (simp add: upt_rec)

lemma prod_cases8:
  obtains a b c d e f g h where "st = (a, b, c, d, e, f, g, h)"
  by (cases st) auto

lemma sha2small_step:
  assumes "SHA2_STEP (map W [0..<64]) a b c d e f g h t = (d', h')" "t < 64"
  shows "sha2_step BSG2_0 BSG2_1 sha2small_K W (a, b, c, d, e, f, g, h) t = (h', a, b, c, d', e, f, g)"
  using assms by (auto simp: SHA2_STEP_def sha2_step_def Let_def sha2_CH_std sha2_MAJ_std)

lemma sha2small_group:
  assumes "i + 8 \<le> 64"
  shows "sha2small_eight (map W [0..<64]) st i = foldl (sha2_step BSG2_0 BSG2_1 sha2small_K W) st [i..<i + 8]"
proof -
  obtain a b c d e f g h where st: "st = (a, b, c, d, e, f, g, h)" by (rule prod_cases8)
  obtain d1 h1 where s1: "SHA2_STEP (map W [0..<64]) a b c d e f g h (i + 0) = (d1, h1)" by (rule prod.exhaust)
  obtain d2 h2 where s2: "SHA2_STEP (map W [0..<64]) h1 a b c d1 e f g (i + 1) = (d2, h2)" by (rule prod.exhaust)
  obtain d3 h3 where s3: "SHA2_STEP (map W [0..<64]) h2 h1 a b d2 d1 e f (i + 2) = (d3, h3)" by (rule prod.exhaust)
  obtain d4 h4 where s4: "SHA2_STEP (map W [0..<64]) h3 h2 h1 a d3 d2 d1 e (i + 3) = (d4, h4)" by (rule prod.exhaust)
  obtain d5 h5 where s5: "SHA2_STEP (map W [0..<64]) h4 h3 h2 h1 d4 d3 d2 d1 (i + 4) = (d5, h5)" by (rule prod.exhaust)
  obtain d6 h6 where s6: "SHA2_STEP (map W [0..<64]) h5 h4 h3 h2 d5 d4 d3 d2 (i + 5) = (d6, h6)" by (rule prod.exhaust)
  obtain d7 h7 where s7: "SHA2_STEP (map W [0..<64]) h6 h5 h4 h3 d6 d5 d4 d3 (i + 6) = (d7, h7)" by (rule prod.exhaust)
  obtain d8 h8 where s8: "SHA2_STEP (map W [0..<64]) h7 h6 h5 h4 d7 d6 d5 d4 (i + 7) = (d8, h8)" by (rule prod.exhaust)
  have lt: "i + 0 < 64" "i + 1 < 64" "i + 2 < 64" "i + 3 < 64" "i + 4 < 64" "i + 5 < 64" "i + 6 < 64" "i + 7 < 64" using assms by linarith+
  show ?thesis
    unfolding upt_eight st sha2small_eight_def Let_def prod.case s1 s2 s3 s4 s5 s6 s7 s8 foldl.simps
      sha2small_step [OF s1 lt(1)] sha2small_step [OF s2 lt(2)] sha2small_step [OF s3 lt(3)] sha2small_step [OF s4 lt(4)] sha2small_step [OF s5 lt(5)] sha2small_step [OF s6 lt(6)] sha2small_step [OF s7 lt(7)] sha2small_step [OF s8 lt(8)] ..
qed

lemma sha2big_step:
  assumes "SHA2BIG_STEP (map W [0..<80]) a b c d e f g h t = (d', h')" "t < 80"
  shows "sha2_step BSG5_0 BSG5_1 sha2big_K W (a, b, c, d, e, f, g, h) t = (h', a, b, c, d', e, f, g)"
  using assms by (auto simp: SHA2BIG_STEP_def sha2_step_def Let_def sha2_CH_std sha2_MAJ_std)

lemma sha2big_group:
  assumes "i + 8 \<le> 80"
  shows "sha2big_eight (map W [0..<80]) st i = foldl (sha2_step BSG5_0 BSG5_1 sha2big_K W) st [i..<i + 8]"
proof -
  obtain a b c d e f g h where st: "st = (a, b, c, d, e, f, g, h)" by (rule prod_cases8)
  obtain d1 h1 where s1: "SHA2BIG_STEP (map W [0..<80]) a b c d e f g h (i + 0) = (d1, h1)" by (rule prod.exhaust)
  obtain d2 h2 where s2: "SHA2BIG_STEP (map W [0..<80]) h1 a b c d1 e f g (i + 1) = (d2, h2)" by (rule prod.exhaust)
  obtain d3 h3 where s3: "SHA2BIG_STEP (map W [0..<80]) h2 h1 a b d2 d1 e f (i + 2) = (d3, h3)" by (rule prod.exhaust)
  obtain d4 h4 where s4: "SHA2BIG_STEP (map W [0..<80]) h3 h2 h1 a d3 d2 d1 e (i + 3) = (d4, h4)" by (rule prod.exhaust)
  obtain d5 h5 where s5: "SHA2BIG_STEP (map W [0..<80]) h4 h3 h2 h1 d4 d3 d2 d1 (i + 4) = (d5, h5)" by (rule prod.exhaust)
  obtain d6 h6 where s6: "SHA2BIG_STEP (map W [0..<80]) h5 h4 h3 h2 d5 d4 d3 d2 (i + 5) = (d6, h6)" by (rule prod.exhaust)
  obtain d7 h7 where s7: "SHA2BIG_STEP (map W [0..<80]) h6 h5 h4 h3 d6 d5 d4 d3 (i + 6) = (d7, h7)" by (rule prod.exhaust)
  obtain d8 h8 where s8: "SHA2BIG_STEP (map W [0..<80]) h7 h6 h5 h4 d7 d6 d5 d4 (i + 7) = (d8, h8)" by (rule prod.exhaust)
  have lt: "i + 0 < 80" "i + 1 < 80" "i + 2 < 80" "i + 3 < 80" "i + 4 < 80" "i + 5 < 80" "i + 6 < 80" "i + 7 < 80" using assms by linarith+
  show ?thesis
    unfolding upt_eight st sha2big_eight_def Let_def prod.case s1 s2 s3 s4 s5 s6 s7 s8 foldl.simps
      sha2big_step [OF s1 lt(1)] sha2big_step [OF s2 lt(2)] sha2big_step [OF s3 lt(3)] sha2big_step [OF s4 lt(4)] sha2big_step [OF s5 lt(5)] sha2big_step [OF s6 lt(6)] sha2big_step [OF s7 lt(7)] sha2big_step [OF s8 lt(8)] ..
qed

lemma sha1_group:
  assumes "i + 5 \<le> 80" "\<And>j. i \<le> j \<Longrightarrow> j < i + 5 \<Longrightarrow> sha1_f j = f \<and> sha1_K j = k"
  shows "sha1_five f k (map W [0..<80]) st i = foldl (sha1_step W) st [i..<i + 5]"
  unfolding upt_five using assms
  by (cases st) (simp add: sha1_five_def sha1_step_def Let_def ac_simps)

lemma md5_group:
  assumes "\<And>j. i \<le> j \<Longrightarrow> j < i + 4 \<Longrightarrow> md5_f j = f \<and> w j = X ! md5_k j"
    "md5_s i = s0" "md5_s (i + 1) = s1" "md5_s (i + 2) = s2" "md5_s (i + 3) = s3"
  shows "md5_quad f (s0, s1, s2, s3) w st i = foldl (md5_step X) st [i..<i + 4]"
  unfolding upt_four using assms(1) assms(2-5) [symmetric]
  by (cases st) (simp add: md5_quad_def md5_step_def Let_def)

section \<open>The compression functions\<close>

lemma sha2small_round_std: "64 \<le> length blk \<Longrightarrow> br_sha2small_round blk v = sha256_compress blk v"
proof -
  assume l: "64 \<le> length blk"
  define W where "W = sha2_W SSG2_0 SSG2_1 (be_words 4 blk)"
  have w: "foldl sha2small_expand (br_range_dec32be 16 blk) [16..<64] = map W [0..<64]"
    unfolding words32be [OF l] W_def by (rule sha2small_schedule) simp
  have fl: "foldl (sha2small_eight (map W [0..<64])) st [0, 8, 16, 24, 32, 40, 48, 56] = foldl (sha2_step BSG2_0 BSG2_1 sha2small_K W) st [0..<0 + 8 * 8]" for st
  proof (rule foldl_groups)
    fix st and i :: nat
    assume "i \<in> set [0, 8, 16, 24, 32, 40, 48, 56]"
    then have "i + 8 \<le> 64" by auto
    then show "sha2small_eight (map W [0..<64]) st i = foldl (sha2_step BSG2_0 BSG2_1 sha2small_K W) st [i..<i + 8]" by (rule sha2small_group)
  qed (simp add: upt_rec)
  have len: "length sha2small_K = 0 + 8 * 8" by (simp add: sha2small_K_def)
  show ?thesis unfolding br_sha2small_round_def sha256_compress_def sha2_compress_def w Let_def W_def [symmetric] fl len ..
qed

lemma sha2big_round_std: "128 \<le> length blk \<Longrightarrow> sha2big_round blk v = sha512_compress blk v"
proof -
  assume l: "128 \<le> length blk"
  define W where "W = sha2_W SSG5_0 SSG5_1 (be_words 8 blk)"
  have w: "foldl sha2big_expand (br_range_dec64be 16 blk) [16..<80] = map W [0..<80]"
    unfolding words64be [OF l] W_def by (rule sha2big_schedule) simp
  have fl: "foldl (sha2big_eight (map W [0..<80])) st [0, 8, 16, 24, 32, 40, 48, 56, 64, 72] = foldl (sha2_step BSG5_0 BSG5_1 sha2big_K W) st [0..<0 + 8 * 10]" for st
  proof (rule foldl_groups)
    fix st and i :: nat
    assume "i \<in> set [0, 8, 16, 24, 32, 40, 48, 56, 64, 72]"
    then have "i + 8 \<le> 80" by auto
    then show "sha2big_eight (map W [0..<80]) st i = foldl (sha2_step BSG5_0 BSG5_1 sha2big_K W) st [i..<i + 8]" by (rule sha2big_group)
  qed (simp add: upt_rec)
  have len: "length sha2big_K = 0 + 8 * 10" by (simp add: sha2big_K_def)
  show ?thesis unfolding sha2big_round_def sha512_compress_def sha2_compress_def w Let_def W_def [symmetric] fl len ..
qed

text \<open>The four loops of SHA-1 and MD5 one after the other.\<close>

lemma four_loops:
  "a \<le> b \<Longrightarrow> b \<le> c \<Longrightarrow> c \<le> d \<Longrightarrow>
   foldl f (foldl f (foldl f (foldl f st [0..<a]) [a..<b]) [b..<c]) [c..<d] = foldl f st [0..<(d :: nat)]"
  using upt_add_eq_append [of 0 a "b - a"] upt_add_eq_append [of 0 b "c - b"] upt_add_eq_append [of 0 c "d - c"] by simp

lemma sha1_fk:
  "j < 20 \<Longrightarrow> sha1_f j = sha1_F \<and> sha1_K j = sha1_K1"
  "20 \<le> j \<Longrightarrow> j < 40 \<Longrightarrow> sha1_f j = sha1_G \<and> sha1_K j = sha1_K2"
  "40 \<le> j \<Longrightarrow> j < 60 \<Longrightarrow> sha1_f j = sha1_H \<and> sha1_K j = sha1_K3"
  "60 \<le> j \<Longrightarrow> sha1_f j = sha1_I \<and> sha1_K j = sha1_K4"
  by (simp_all add: sha1_f_def sha1_K_def sha1_functions sha1_K1_def sha1_K2_def sha1_K3_def sha1_K4_def)

lemma sha1_loop:
  assumes "a + 20 \<le> 80" "\<And>j. a \<le> j \<Longrightarrow> j < a + 20 \<Longrightarrow> sha1_f j = f \<and> sha1_K j = k"
  shows "foldl (sha1_five f k (map W [0..<80])) st [a, a + 5, a + 10, a + 15] = foldl (sha1_step W) st [a..<a + 5 * 4]"
proof (rule foldl_groups)
  fix st i
  assume "i \<in> set [a, a + 5, a + 10, a + 15]"
  then have i: "a \<le> i" "i + 5 \<le> a + 20" by auto
  show "sha1_five f k (map W [0..<80]) st i = foldl (sha1_step W) st [i..<i + 5]"
  proof (rule sha1_group)
    show "i + 5 \<le> 80" using i assms(1) by linarith
    show "sha1_f j = f \<and> sha1_K j = k" if "i \<le> j" "j < i + 5" for j using that i by (intro assms(2)) linarith+
  qed
qed (simp add: upt_rec)

lemma sha1_round_std: "64 \<le> length blk \<Longrightarrow> br_sha1_round blk v = sha1_compress blk v"
proof -
  assume l: "64 \<le> length blk"
  define W where "W = sha1_W (be_words 4 blk)"
  define ws where "ws = map W [0..<80]"
  have w: "foldl sha1_expand (br_range_dec32be 16 blk) [16..<80] = ws"
    unfolding ws_def words32be [OF l] W_def by (rule sha1_schedule) simp
  have l1: "foldl (sha1_five sha1_F sha1_K1 ws) st [0, 5, 10, 15] = foldl (sha1_step W) st [0..<20]" for st
    using sha1_loop [of 0 sha1_F sha1_K1 W st, folded ws_def] sha1_fk(1) by simp
  have l2: "foldl (sha1_five sha1_G sha1_K2 ws) st [20, 25, 30, 35] = foldl (sha1_step W) st [20..<40]" for st
    using sha1_loop [of 20 sha1_G sha1_K2 W st, folded ws_def] sha1_fk(2) by simp
  have l3: "foldl (sha1_five sha1_H sha1_K3 ws) st [40, 45, 50, 55] = foldl (sha1_step W) st [40..<60]" for st
    using sha1_loop [of 40 sha1_H sha1_K3 W st, folded ws_def] sha1_fk(3) by simp
  have l4: "foldl (sha1_five sha1_I sha1_K4 ws) st [60, 65, 70, 75] = foldl (sha1_step W) st [60..<80]" for st
    using sha1_loop [of 60 sha1_I sha1_K4 W st, folded ws_def] sha1_fk(4) by simp
  have fl: "foldl (sha1_step W) (foldl (sha1_step W) (foldl (sha1_step W) (foldl (sha1_step W) st [0..<20]) [20..<40]) [40..<60]) [60..<80] =
      foldl (sha1_step W) st [0..<80]" for st
    by (rule four_loops) simp_all
  show ?thesis
    unfolding br_sha1_round_def sha1_compress_def w Let_def W_def [symmetric] l1 l2 l3 l4 fl ..
qed

lemma md5_words:
  "j < 16 \<Longrightarrow> md5_f j = md5_F \<and> X ! j = X ! md5_k j"
  "16 \<le> j \<Longrightarrow> j < 32 \<Longrightarrow> md5_f j = md5_G \<and> X ! (md5_MP ! (j - 16)) = X ! md5_k j"
  "32 \<le> j \<Longrightarrow> j < 48 \<Longrightarrow> md5_f j = md5_H \<and> X ! (md5_MP ! (j - 16)) = X ! md5_k j"
  "48 \<le> j \<Longrightarrow> j < 64 \<Longrightarrow> md5_f j = md5_I \<and> X ! (md5_MP ! (j - 16)) = X ! md5_k j"
proof -
  have "map md5_k [16..<64] = md5_MP" by code_simp
  then have k: "md5_MP ! (j - 16) = md5_k j" if j: "16 \<le> j" "j < 64" for j
  proof -
    have "j - 16 < length [16..<64]" "[16..<64] ! (j - 16) = j" using j by (simp_all del: upt_rec_numeral)
    then show "md5_MP ! (j - 16) = md5_k j" using nth_map [of "j - 16" "[16..<64]" md5_k] \<open>map md5_k [16..<64] = md5_MP\<close> by metis
  qed
  show "j < 16 \<Longrightarrow> md5_f j = md5_F \<and> X ! j = X ! md5_k j"
    by (simp add: md5_functions md5_k_def)
  show "16 \<le> j \<Longrightarrow> j < 32 \<Longrightarrow> md5_f j = md5_G \<and> X ! (md5_MP ! (j - 16)) = X ! md5_k j"
    "32 \<le> j \<Longrightarrow> j < 48 \<Longrightarrow> md5_f j = md5_H \<and> X ! (md5_MP ! (j - 16)) = X ! md5_k j"
    "48 \<le> j \<Longrightarrow> j < 64 \<Longrightarrow> md5_f j = md5_I \<and> X ! (md5_MP ! (j - 16)) = X ! md5_k j"
    by (simp_all add: md5_functions k)
qed

lemma md5_loop:
  assumes w: "\<And>j. a \<le> j \<Longrightarrow> j < a + 16 \<Longrightarrow> md5_f j = f \<and> w j = X ! md5_k j"
    and s: "\<And>j. a \<le> j \<Longrightarrow> j < a + 16 \<Longrightarrow> md5_s j = [s0, s1, s2, s3] ! (j mod 4)" and a: "a mod 4 = 0"
  shows "foldl (md5_quad f (s0, s1, s2, s3) w) st [a, a + 4, a + 8, a + 12] = foldl (md5_step X) st [a..<a + 4 * 4]"
proof (rule foldl_groups)
  fix st i
  assume "i \<in> set [a, a + 4, a + 8, a + 12]"
  then have i: "a \<le> i" "i + 4 \<le> a + 16" and m: "i mod 4 = 0" using a by auto
  have m': "(i + 1) mod 4 = 1" "(i + 2) mod 4 = 2" "(i + 3) mod 4 = 3" using m by presburger+
  show "md5_quad f (s0, s1, s2, s3) w st i = foldl (md5_step X) st [i..<i + 4]"
  proof (rule md5_group)
    show "md5_f j = f \<and> w j = X ! md5_k j" if "i \<le> j" "j < i + 4" for j using that i by (intro w) linarith+
    show "md5_s i = s0" using s [of i] i m by simp
    show "md5_s (i + 1) = s1" using s [of "i + 1"] i m' by simp
    show "md5_s (i + 2) = s2" using s [of "i + 2"] i m' by simp
    show "md5_s (i + 3) = s3" using s [of "i + 3"] i m' by simp
  qed
qed (simp add: upt_rec)

lemma md5_shifts:
  "j < 16 \<Longrightarrow> md5_s j = [7, 12, 17, 22] ! (j mod 4)"
  "16 \<le> j \<Longrightarrow> j < 32 \<Longrightarrow> md5_s j = [5, 9, 14, 20] ! (j mod 4)"
  "32 \<le> j \<Longrightarrow> j < 48 \<Longrightarrow> md5_s j = [4, 11, 16, 23] ! (j mod 4)"
  "48 \<le> j \<Longrightarrow> j < 64 \<Longrightarrow> md5_s j = [6, 10, 15, 21] ! (j mod 4)"
proof -
  have "16 \<le> j \<Longrightarrow> j < 32 \<Longrightarrow> j div 16 = 1" "32 \<le> j \<Longrightarrow> j < 48 \<Longrightarrow> j div 16 = 2" "48 \<le> j \<Longrightarrow> j < 64 \<Longrightarrow> j div 16 = 3"
    by (rule div_nat_eqI; simp)+
  then show "j < 16 \<Longrightarrow> md5_s j = [7, 12, 17, 22] ! (j mod 4)"
    "16 \<le> j \<Longrightarrow> j < 32 \<Longrightarrow> md5_s j = [5, 9, 14, 20] ! (j mod 4)"
    "32 \<le> j \<Longrightarrow> j < 48 \<Longrightarrow> md5_s j = [4, 11, 16, 23] ! (j mod 4)"
    "48 \<le> j \<Longrightarrow> j < 64 \<Longrightarrow> md5_s j = [6, 10, 15, 21] ! (j mod 4)"
    by (simp_all add: md5_s_def)
qed

lemma md5_round_std: "64 \<le> length blk \<Longrightarrow> br_md5_round blk v = md5_compress blk v"
proof -
  assume l: "64 \<le> length blk"
  define X :: "32 word list" where "X = le_words 4 blk"
  have w: "br_range_dec32le 16 blk = X" unfolding words32le [OF l] X_def ..
  have l1: "foldl (md5_quad md5_F (7, 12, 17, 22) (\<lambda>j. X ! j)) st [0, 4, 8, 12] = foldl (md5_step X) st [0..<16]" for st
    using md5_loop [of 0 md5_F "\<lambda>j. X ! j" X 7 12 17 22 st] md5_words(1) [of _ X] md5_shifts(1) by simp
  have l2: "foldl (md5_quad md5_G (5, 9, 14, 20) (\<lambda>j. X ! (md5_MP ! (j - 16)))) st [16, 20, 24, 28] = foldl (md5_step X) st [16..<32]" for st
    using md5_loop [of 16 md5_G "\<lambda>j. X ! (md5_MP ! (j - 16))" X 5 9 14 20 st] md5_words(2) [of _ X] md5_shifts(2) by simp
  have l3: "foldl (md5_quad md5_H (4, 11, 16, 23) (\<lambda>j. X ! (md5_MP ! (j - 16)))) st [32, 36, 40, 44] = foldl (md5_step X) st [32..<48]" for st
    using md5_loop [of 32 md5_H "\<lambda>j. X ! (md5_MP ! (j - 16))" X 4 11 16 23 st] md5_words(3) [of _ X] md5_shifts(3) by simp
  have l4: "foldl (md5_quad md5_I (6, 10, 15, 21) (\<lambda>j. X ! (md5_MP ! (j - 16)))) st [48, 52, 56, 60] = foldl (md5_step X) st [48..<64]" for st
    using md5_loop [of 48 md5_I "\<lambda>j. X ! (md5_MP ! (j - 16))" X 6 10 15 21 st] md5_words(4) [of _ X] md5_shifts(4) by simp
  have fl: "foldl (md5_step X) (foldl (md5_step X) (foldl (md5_step X) (foldl (md5_step X) st [0..<16]) [16..<32]) [32..<48]) [48..<64] =
      foldl (md5_step X) st [0..<64]" for st
    by (rule four_loops) simp_all
  show ?thesis
    unfolding br_md5_round_def md5_compress_def w Let_def X_def [symmetric] l1 l2 l3 l4
      fl ..
qed

section \<open>The streaming contexts\<close>

lemma hash_ptr_mod:
  "hash_ptr 64 cc = unat (hx_count cc) mod 64" "hash_ptr 128 cc = unat (hx_count cc) mod 128"
proof -
  have "unat (x AND mask k) = unat x mod 2 ^ k" for x :: "64 word" and k
  proof -
    have "unat (take_bit k x) = take_bit k (unat x)" by (rule unsigned_take_bit_eq)
    then show ?thesis by (simp only: take_bit_eq_mask [of k x] take_bit_eq_mod [of k "unat x"])
  qed
  from this [of "hx_count cc" 6] this [of "hx_count cc" 7]
  show "hash_ptr 64 cc = unat (hx_count cc) mod 64" "hash_ptr 128 cc = unat (hx_count cc) mod 128"
    by (simp_all add: hash_ptr_def mask_eq_exp_minus_1)
qed

interpretation md5h: block_hash 64 56 br_md5_round br_md5_IV
  by unfold_locales (simp_all add: hash_ptr_mod)

interpretation sha1h: block_hash 64 56 br_sha1_round br_sha1_IV
  by unfold_locales (simp_all add: hash_ptr_mod)

interpretation sha224h: block_hash 64 56 br_sha2small_round br_sha224_IV
  by unfold_locales (simp_all add: hash_ptr_mod)

interpretation sha256h: block_hash 64 56 br_sha2small_round br_sha256_IV
  by unfold_locales (simp_all add: hash_ptr_mod)

interpretation sha384h: block_hash 128 112 sha2big_round IV384
  by unfold_locales (simp_all add: hash_ptr_mod)

interpretation sha512h: block_hash 128 112 sha2big_round IV512
  by unfold_locales (simp_all add: hash_ptr_mod)

interpretation md5sha1h: block_hash 64 56 md5sha1_round "(br_md5_IV, br_sha1_IV)"
  by unfold_locales (simp_all add: hash_ptr_mod)

lemma hash_blocks_length: "b \<in> set (hash_blocks B xs) \<Longrightarrow> length b = B"
proof (induction B xs rule: hash_blocks.induct)
  case (1 B xs)
  then show ?case unfolding hash_blocks.simps [of B xs] by (auto split: if_splits)
qed

lemma iterated_hash_cong:
  assumes "\<And>blk v. B \<le> length blk \<Longrightarrow> r1 blk v = r2 blk v"
  shows "iterated_hash B lp r1 iv enc m = iterated_hash B lp r2 iv enc m"
  unfolding iterated_hash_def
  by (rule foldl_cong) (use assms hash_blocks_length [of _ B "pad_message B lp enc m"] in auto)

text \<open>The last block has the length: the counter shifted to bits.\<close>

lemma count_bits: "br_enc64be (push_bit 3 (of_nat n)) = be_bytes 8 (8 * n)"
proof -
  have "unat (push_bit 3 (of_nat n) :: 64 word) = (8 * n) mod 256 ^ 8"
  proof -
    have "(push_bit 3 (of_nat n) :: 64 word) = of_nat (8 * n)" by (simp add: push_bit_eq_mult)
    then show ?thesis unfolding unat_of_nat [of "8 * n"] by (simp only: unat_of_nat) simp
  qed
  then show ?thesis unfolding enc64be_bytes by (simp only: be_bytes_mod)
qed

lemma count_bits_128:
  "br_enc64be (drop_bit 61 (of_nat n)) @ br_enc64be (push_bit 3 (of_nat n)) = be_bytes 16 (8 * (n mod 2 ^ 64))"
proof -
  have u: "unat (drop_bit 61 (of_nat n :: 64 word)) = 8 * (n mod 2 ^ 64) div 256 ^ 8"
    by (simp add: unat_shift unat_of_nat)
  have "be_bytes 8 (8 * n) = be_bytes 8 (8 * (n mod 2 ^ 64))"
  proof -
    have "be_bytes 8 ((8 * (n mod 2 ^ 64)) mod 256 ^ 8) = be_bytes 8 ((8 * n) mod 256 ^ 8)"
      by (simp add: mod_mult_right_eq)
    then show ?thesis by (simp only: be_bytes_mod)
  qed
  then show ?thesis
    using be_bytes_add [of 8 8 "8 * (n mod 2 ^ 64)"] unfolding count_bits enc64be_bytes [of "drop_bit 61 _"] u by simp
qed

lemma enc32le_rev: "br_enc32le x = rev (br_enc32be x)"
  by (simp add: br_enc32le_def br_enc32be_def)

lemma enc64le_rev: "br_enc64le x = rev (br_enc64be x)"
  by (simp add: br_enc64le_def br_enc64be_def enc32le_rev)

lemma range_enc:
  "num \<le> length v \<Longrightarrow> br_range_enc32be v num = concat (map (\<lambda>w. be_bytes 4 (unat w)) (take num v))"
  "num \<le> length v \<Longrightarrow> br_range_enc32le v num = concat (map (\<lambda>w. rev (be_bytes 4 (unat w))) (take num v))"
  "num \<le> length v' \<Longrightarrow> br_range_enc64be v' num = concat (map (\<lambda>w. be_bytes 8 (unat w)) (take num v'))"
proof -
  show "num \<le> length v \<Longrightarrow> br_range_enc32be v num = concat (map (\<lambda>w. be_bytes 4 (unat w)) (take num v))"
    by (induction v num rule: br_range_enc32be.induct) (auto simp: enc32be_bytes Suc_le_length_iff)
  show "num \<le> length v \<Longrightarrow> br_range_enc32le v num = concat (map (\<lambda>w. rev (be_bytes 4 (unat w))) (take num v))"
    by (induction v num rule: br_range_enc32le.induct) (auto simp: enc32le_rev enc32be_bytes Suc_le_length_iff)
  show "num \<le> length v' \<Longrightarrow> br_range_enc64be v' num = concat (map (\<lambda>w. be_bytes 8 (unat w)) (take num v'))"
    by (induction v' num rule: br_range_enc64be.induct) (auto simp: enc64be_bytes Suc_le_length_iff)
qed

lemma round_length [simp]:
  "length (br_md5_round b v) = 4" "length (br_sha1_round b v) = 5" "length (br_sha2small_round b v) = 8" "length (sha2big_round b w) = 8"
  by (simp_all add: br_md5_round_def br_sha1_round_def br_sha2small_round_def sha2big_round_def Let_def case_prod_beta)


lemma update_absorbs:
  "md5h.absorbed c m \<Longrightarrow> md5h.absorbed (br_md5_update c data) (m @ data)"
  "sha1h.absorbed c m \<Longrightarrow> sha1h.absorbed (br_sha1_update c data) (m @ data)"
  "sha224h.absorbed c m \<Longrightarrow> sha224h.absorbed (br_sha224_update c data) (m @ data)"
  "sha256h.absorbed c m \<Longrightarrow> sha256h.absorbed (br_sha224_update c data) (m @ data)"
  "sha384h.absorbed d m \<Longrightarrow> sha384h.absorbed (br_sha384_update d data) (m @ data)"
  "sha512h.absorbed d m \<Longrightarrow> sha512h.absorbed (br_sha384_update d data) (m @ data)"
  "md5sha1h.absorbed e m \<Longrightarrow> md5sha1h.absorbed (br_md5sha1_update e data) (m @ data)"
  by (simp_all only: br_md5_update_def br_sha1_update_def br_sha224_update_def sha2small_update_def br_sha384_update_def sha2big_update_def
      br_md5sha1_update_def Let_def md5h.absorbed_ptr sha1h.absorbed_ptr sha224h.absorbed_ptr sha256h.absorbed_ptr sha384h.absorbed_ptr
      sha512h.absorbed_ptr md5sha1h.absorbed_ptr md5h.update_absorbed sha1h.update_absorbed sha224h.update_absorbed_pre
      sha256h.update_absorbed_pre sha384h.update_absorbed_pre sha512h.update_absorbed_pre md5sha1h.update_absorbed)

lemma init_absorbs:
  "length (hx_buf c) = 64 \<Longrightarrow> md5h.absorbed (br_md5_init c) []"
  "length (hx_buf c) = 64 \<Longrightarrow> sha1h.absorbed (br_sha1_init c) []"
  "length (hx_buf c) = 64 \<Longrightarrow> sha224h.absorbed (br_sha224_init c) []"
  "length (hx_buf c) = 64 \<Longrightarrow> sha256h.absorbed (br_sha256_init c) []"
  "length (hx_buf d) = 128 \<Longrightarrow> sha384h.absorbed (br_sha384_init d) []"
  "length (hx_buf d) = 128 \<Longrightarrow> sha512h.absorbed (br_sha512_init d) []"
  "length (hx_buf e) = 64 \<Longrightarrow> md5sha1h.absorbed (br_md5sha1_init e) []"
  by (simp_all add: md5h.init_absorbed sha1h.init_absorbed sha224h.init_absorbed sha256h.init_absorbed sha384h.init_absorbed
      sha512h.init_absorbed md5sha1h.init_absorbed br_md5_init_def br_sha1_init_def br_sha224_init_def br_sha256_init_def
      br_sha384_init_def br_sha512_init_def br_md5sha1_init_def)

lemma out_md5: "md5h.absorbed c m \<Longrightarrow> br_md5_out c = std_md5 m"
proof -
  assume ab: "md5h.absorbed c m"
  obtain buf val where pb: "pad_blocks 64 56 br_md5_round c = (buf, val)" by (rule prod.exhaust)
  have c: "hx_count c = of_nat (length m)" using ab by (simp add: md5h.absorbed_def)
  have "length (rev (be_bytes 8 (8 * length m))) = 64 - 56" by simp
  note p = md5h.pad_absorbed [OF ab, of "\<lambda>n. rev (be_bytes 8 (8 * n))", OF this pb]
  show ?thesis
    unfolding br_md5_out_def pb Let_def prod.case c enc64le_rev count_bits
    by (simp add: range_enc p(1) [symmetric] std_md5_def iterated_hash_cong [OF md5_round_std, symmetric])
qed

lemma out_sha1: "sha1h.absorbed c m \<Longrightarrow> br_sha1_out c = std_sha1 m"
proof -
  assume ab: "sha1h.absorbed c m"
  obtain buf val where pb: "pad_blocks 64 56 br_sha1_round c = (buf, val)" by (rule prod.exhaust)
  have c: "hx_count c = of_nat (length m)" using ab by (simp add: sha1h.absorbed_def)
  have "length (be_bytes 8 (8 * length m)) = 64 - 56" by simp
  note p = sha1h.pad_absorbed [OF ab, of "\<lambda>n. be_bytes 8 (8 * n)", OF this pb]
  show ?thesis
    unfolding br_sha1_out_def pb Let_def prod.case c count_bits
    by (simp add: range_enc p(1) [symmetric] std_sha1_def iterated_hash_cong [OF sha1_round_std, symmetric])
qed

lemma sha2_block_hash: "block_hash TYPE(32 word list) 64 56" "block_hash TYPE(64 word list) 128 112"
  by (unfold_locales; simp add: hash_ptr_mod)+

lemma out_sha2small:
  assumes ab: "block_hash.absorbed 64 br_sha2small_round iv c m" and num: "num \<le> 8"
  shows "sha2small_out c num = std_sha2small iv num m"
proof -
  obtain buf val where pb: "pad_blocks 64 56 br_sha2small_round c = (buf, val)" by (rule prod.exhaust)
  note bh = sha2_block_hash(1)
  have c: "hx_count c = of_nat (length m)" using ab by (simp add: block_hash.absorbed_def [OF bh])
  have "length (be_bytes 8 (8 * length m)) = 64 - 56" by simp
  note p = block_hash.pad_absorbed [OF bh ab, of "\<lambda>n. be_bytes 8 (8 * n)", OF this pb]
  show ?thesis
    unfolding sha2small_out_def pb Let_def prod.case c count_bits
    using num by (simp add: range_enc p(1) [symmetric] std_sha2small_def iterated_hash_cong [OF sha2small_round_std, symmetric])
qed

lemma out_sha2big:
  assumes ab: "block_hash.absorbed 128 sha2big_round iv c m" and num: "num \<le> 8"
  shows "sha2big_out c num = std_sha2big iv num m"
proof -
  obtain buf val where pb: "pad_blocks 128 112 sha2big_round c = (buf, val)" by (rule prod.exhaust)
  note bh = sha2_block_hash(2)
  have c: "hx_count c = of_nat (length m)" using ab by (simp add: block_hash.absorbed_def [OF bh])
  have "length (be_bytes 16 (8 * (length m mod 2 ^ 64))) = 128 - 112" by simp
  note p = block_hash.pad_absorbed [OF bh ab, of "\<lambda>n. be_bytes 16 (8 * (n mod 2 ^ 64))", OF this pb]
  have e: "iterated_hash 128 112 sha512_compress iv (\<lambda>n. be_bytes 16 (8 * (n mod 2 ^ 64))) m =
      sha2big_round (buf @ be_bytes 16 (8 * (length m mod 2 ^ 64))) val"
    unfolding p(1) by (rule iterated_hash_cong [symmetric]) (rule sha2big_round_std)
  show ?thesis
    unfolding sha2big_out_def pb Let_def prod.case c count_bits_128 std_sha2big_def e
    using num by (intro range_enc) simp
qed

text \<open>The two halves of a combined context.\<close>

definition md5_half :: "md5sha1_context \<Rightarrow> context32" where
  "md5_half e = \<lparr>hx_buf = hx_buf e, hx_count = hx_count e, hx_val = fst (hx_val e)\<rparr>"

definition sha1_half :: "md5sha1_context \<Rightarrow> context32" where
  "sha1_half e = \<lparr>hx_buf = hx_buf e, hx_count = hx_count e, hx_val = snd (hx_val e)\<rparr>"

lemma md5sha1_fold:
  "foldl (\<lambda>v b. md5sha1_round b v) v bs = (foldl (\<lambda>v b. br_md5_round b v) (fst v) bs, foldl (\<lambda>v b. br_sha1_round b v) (snd v) bs)"
  by (induction bs arbitrary: v) (simp_all add: md5sha1_round_def)

lemma halves_absorbed:
  "md5sha1h.absorbed e m \<Longrightarrow> md5h.absorbed (md5_half e) m" "md5sha1h.absorbed e m \<Longrightarrow> sha1h.absorbed (sha1_half e) m"
  by (simp_all add: md5sha1h.absorbed_def md5h.absorbed_def sha1h.absorbed_def md5_half_def sha1_half_def md5sha1_fold)

lemma out_md5sha1: "br_md5sha1_out e = br_md5_out (md5_half e) @ br_sha1_out (sha1_half e)"
  by (simp add: br_md5sha1_out_def br_md5_out_def br_sha1_out_def pad_blocks_def Let_def hash_ptr_def md5_half_def
      sha1_half_def md5sha1_round_def case_prod_beta)

text \<open>A saved state: the words of the chaining value and the counter.\<close>

lemma range_dec_enc:
  "length v = n \<Longrightarrow> br_range_dec32be n (br_range_enc32be v n @ r) = v"
  "length v = n \<Longrightarrow> br_range_dec32le n (br_range_enc32le v n @ r) = v"
  "length w = n \<Longrightarrow> br_range_dec64be n (br_range_enc64be w n @ r) = w"
proof -
  have d: "br_dec32be (be_bytes 4 (unat x) @ r) = x" "br_dec32le (rev (be_bytes 4 (unat x)) @ r) = x" for x :: "32 word" and r
  proof -
    have "unat x < 256 ^ 4" using unsigned_less [of x, where 'a = nat] by simp
    from be_val_be_bytes [OF this]
    show "br_dec32be (be_bytes 4 (unat x) @ r) = x" "br_dec32le (rev (be_bytes 4 (unat x)) @ r) = x"
      by (simp_all add: dec32be_val dec32le_val)
  qed
  have d64: "br_dec64be (be_bytes 8 (unat x) @ r) = x" for x :: "64 word" and r
  proof -
    have "unat x < 256 ^ 8" using unsigned_less [of x, where 'a = nat] by simp
    from be_val_be_bytes [OF this] show ?thesis by (simp add: dec64be_val)
  qed
  show "length v = n \<Longrightarrow> br_range_dec32be n (br_range_enc32be v n @ r) = v"
    by (induction v n rule: br_range_enc32be.induct) (auto simp: enc32be_bytes d length_Suc_conv)
  show "length v = n \<Longrightarrow> br_range_dec32le n (br_range_enc32le v n @ r) = v"
    by (induction v n rule: br_range_enc32le.induct) (auto simp: enc32le_rev enc32be_bytes d length_Suc_conv)
  show "length w = n \<Longrightarrow> br_range_dec64be n (br_range_enc64be w n @ r) = w"
    by (induction w n rule: br_range_enc64be.induct) (auto simp: enc64be_bytes d64 length_Suc_conv)
qed

section \<open>Digests\<close>

lemma stream_absorbed:
  "length (hx_buf c) = 64 \<Longrightarrow> md5h.absorbed (foldl br_md5_update (br_md5_init c) ps) (concat ps)"
  "length (hx_buf c) = 64 \<Longrightarrow> sha1h.absorbed (foldl br_sha1_update (br_sha1_init c) ps) (concat ps)"
  "length (hx_buf c) = 64 \<Longrightarrow> sha224h.absorbed (foldl br_sha224_update (br_sha224_init c) ps) (concat ps)"
  "length (hx_buf c) = 64 \<Longrightarrow> sha256h.absorbed (foldl br_sha224_update (br_sha256_init c) ps) (concat ps)"
  "length (hx_buf d) = 128 \<Longrightarrow> sha384h.absorbed (foldl br_sha384_update (br_sha384_init d) ps) (concat ps)"
  "length (hx_buf d) = 128 \<Longrightarrow> sha512h.absorbed (foldl br_sha384_update (br_sha512_init d) ps) (concat ps)"
  "length (hx_buf e) = 64 \<Longrightarrow> md5sha1h.absorbed (foldl br_md5sha1_update (br_md5sha1_init e) ps) (concat ps)"
  using md5h.updates_absorbed [where upd = br_md5_update and cc = "br_md5_init c" and m = "[]" and ps = ps]
    sha1h.updates_absorbed [where upd = br_sha1_update and cc = "br_sha1_init c" and m = "[]" and ps = ps]
    sha224h.updates_absorbed [where upd = br_sha224_update and cc = "br_sha224_init c" and m = "[]" and ps = ps]
    sha256h.updates_absorbed [where upd = br_sha224_update and cc = "br_sha256_init c" and m = "[]" and ps = ps]
    sha384h.updates_absorbed [where upd = br_sha384_update and cc = "br_sha384_init d" and m = "[]" and ps = ps]
    sha512h.updates_absorbed [where upd = br_sha384_update and cc = "br_sha512_init d" and m = "[]" and ps = ps]
    md5sha1h.updates_absorbed [where upd = br_md5sha1_update and cc = "br_md5sha1_init e" and m = "[]" and ps = ps]
  by (simp_all add: update_absorbs init_absorbs)









text \<open>
  C26: The combined MD5 and SHA-1 context returns the MD5 digest followed by the SHA-1 digest of the
  message.\<close>

theorem md5sha1_concat:
  assumes "length (hx_buf c) = 64"
  shows "br_md5sha1_out (foldl br_md5sha1_update (br_md5sha1_init c) ps) = std_md5 (concat ps) @ std_sha1 (concat ps)"
  using stream_absorbed(7) [OF assms, of ps]
  by (simp only: out_md5sha1 out_md5 [OF halves_absorbed(1)] out_sha1 [OF halves_absorbed(2)])

theorem md5sha1_concat_witness:
  "br_md5sha1_out (foldl br_md5sha1_update (br_md5sha1_init \<lparr>hx_buf = replicate 64 0, hx_count = 0, hx_val = ([], [])\<rparr>) [[0x61], [0x62]]) =
     std_md5 [0x61, 0x62] @ std_sha1 [0x61, 0x62]"
  using md5sha1_concat [of "\<lparr>hx_buf = replicate 64 0, hx_count = 0, hx_val = ([], [])\<rparr>" "[[0x61], [0x62]]"] by simp

text \<open>
  C27: A SHA-256 state saved between two blocks and restored into another context continues the same
  hash: the digest is that of everything given before and after.\<close>

theorem sha256_resume:
  assumes "length (hx_buf c) = 64" and "length (hx_buf d) = 64" and "64 dvd length (concat ps)"
    and "br_sha224_state (foldl br_sha224_update (br_sha256_init c) ps) = (stb, count)"
  shows "br_sha256_out (foldl br_sha224_update (br_sha224_set_state d stb count) qs) = std_sha256 (concat ps @ concat qs)"
proof -
  let ?c = "foldl br_sha224_update (br_sha256_init c) ps"
  have ab: "sha256h.absorbed ?c (concat ps)"
    using stream_absorbed(4) [OF assms(1), of ps] by simp
  then have cnt: "hx_count ?c = of_nat (length (concat ps))" by (simp add: sha256h.absorbed_def)
  have len: "length (hx_val ?c) = 8"
  proof -
    have "length (foldl (\<lambda>v b. br_sha2small_round b v) v bs) = 8" if "length v = 8" for v bs
      using that by (induction bs arbitrary: v) simp_all
    moreover have "length br_sha256_IV = 8" by (simp add: br_sha256_IV_def)
    ultimately show ?thesis using ab by (simp add: sha256h.absorbed_def)
  qed
  have st: "stb = br_range_enc32be (hx_val ?c) 8" "count = hx_count ?c" using assms(4) by (auto simp: br_sha224_state_def)
  have "hx_val (br_sha224_set_state d stb count) = hx_val ?c"
    unfolding st br_sha224_set_state_def using range_dec_enc(1) [OF len, of "[]"] by simp
  moreover have "hx_count (br_sha224_set_state d stb count) = of_nat (length (concat ps))" "hx_buf (br_sha224_set_state d stb count) = hx_buf d"
    unfolding br_sha224_set_state_def st cnt by simp_all
  ultimately have "sha256h.absorbed (br_sha224_set_state d stb count) (concat ps)"
    using sha256h.restore_absorbed [OF ab assms(3)] assms(2) by simp
  from sha256h.updates_absorbed [where upd = br_sha224_update and ps = qs, OF update_absorbs(4) this]
  show ?thesis by (simp add: br_sha256_out_def std_sha256_def out_sha2small)
qed

theorem sha256_resume_witness:
  "br_sha256_out (foldl br_sha224_update
      (br_sha224_set_state \<lparr>hx_buf = replicate 64 1, hx_count = 5, hx_val = []\<rparr> (br_range_enc32be br_sha256_IV 8) 0) [[0x61]]) = std_sha256 [0x61]"
  using sha256_resume [of "\<lparr>hx_buf = replicate 64 0, hx_count = 0, hx_val = []\<rparr>" "\<lparr>hx_buf = replicate 64 1, hx_count = 5, hx_val = []\<rparr>" "[]"
      "br_range_enc32be br_sha256_IV 8" 0 "[[0x61]]"]
  by (simp add: br_sha224_state_def br_sha256_init_def)

end
