(* ===== verification/Hash_Class.thy ===== *)
theory Hash_Class
  imports Hash_Standards
begin

text \<open>
  The class structures of \<open>bearssl_hash.h\<close>: a table with a descriptor word and the functions of a
  hash, as the code that is generic in the hash uses it. The contract \<open>hash_contract\<close> is what
  that code relies on; it is interpreted on the seven tables of \<open>src/src/bearssl/hash\<close>.
\<close>

section \<open>Tables\<close>

record 'c br_hash_class =
  hc_desc :: "32 word"
  hc_init :: "'c \<Rightarrow> 'c"
  hc_update :: "'c \<Rightarrow> byte list \<Rightarrow> 'c"
  hc_out :: "'c \<Rightarrow> byte list"
  hc_state :: "'c \<Rightarrow> byte list \<times> 64 word"
  hc_set_state :: "'c \<Rightarrow> byte list \<Rightarrow> 64 word \<Rightarrow> 'c"

definition BR_HASHDESC_ID :: "nat \<Rightarrow> 32 word" where "BR_HASHDESC_ID i = push_bit 0 (of_nat i)"
definition BR_HASHDESC_OUT :: "nat \<Rightarrow> 32 word" where "BR_HASHDESC_OUT n = push_bit 8 (of_nat n)"
definition BR_HASHDESC_STATE :: "nat \<Rightarrow> 32 word" where "BR_HASHDESC_STATE n = push_bit 15 (of_nat n)"
definition BR_HASHDESC_LBLEN :: "nat \<Rightarrow> 32 word" where "BR_HASHDESC_LBLEN ls = push_bit 23 (of_nat ls)"
definition BR_HASHDESC_MD_PADDING :: "32 word" where "BR_HASHDESC_MD_PADDING = push_bit 28 1"
definition BR_HASHDESC_MD_PADDING_128 :: "32 word" where "BR_HASHDESC_MD_PADDING_128 = push_bit 29 1"
definition BR_HASHDESC_MD_PADDING_BE :: "32 word" where "BR_HASHDESC_MD_PADDING_BE = push_bit 30 1"

definition br_md5_vtable :: "context32 br_hash_class" where
  "br_md5_vtable = \<lparr>hc_desc = BR_HASHDESC_ID 1 OR BR_HASHDESC_OUT 16 OR BR_HASHDESC_STATE 16 OR BR_HASHDESC_LBLEN 6 OR
       BR_HASHDESC_MD_PADDING,
     hc_init = br_md5_init, hc_update = br_md5_update, hc_out = br_md5_out, hc_state = br_md5_state,
     hc_set_state = br_md5_set_state\<rparr>"

definition br_sha1_vtable :: "context32 br_hash_class" where
  "br_sha1_vtable = \<lparr>hc_desc = BR_HASHDESC_ID 2 OR BR_HASHDESC_OUT 20 OR BR_HASHDESC_STATE 20 OR BR_HASHDESC_LBLEN 6 OR
       BR_HASHDESC_MD_PADDING OR BR_HASHDESC_MD_PADDING_BE,
     hc_init = br_sha1_init, hc_update = br_sha1_update, hc_out = br_sha1_out, hc_state = br_sha1_state,
     hc_set_state = br_sha1_set_state\<rparr>"

definition br_sha224_vtable :: "context32 br_hash_class" where
  "br_sha224_vtable = \<lparr>hc_desc = BR_HASHDESC_ID 3 OR BR_HASHDESC_OUT 28 OR BR_HASHDESC_STATE 32 OR BR_HASHDESC_LBLEN 6 OR
       BR_HASHDESC_MD_PADDING OR BR_HASHDESC_MD_PADDING_BE,
     hc_init = br_sha224_init, hc_update = br_sha224_update, hc_out = br_sha224_out, hc_state = br_sha224_state,
     hc_set_state = br_sha224_set_state\<rparr>"

definition br_sha256_vtable :: "context32 br_hash_class" where
  "br_sha256_vtable = \<lparr>hc_desc = BR_HASHDESC_ID 4 OR BR_HASHDESC_OUT 32 OR BR_HASHDESC_STATE 32 OR BR_HASHDESC_LBLEN 6 OR
       BR_HASHDESC_MD_PADDING OR BR_HASHDESC_MD_PADDING_BE,
     hc_init = br_sha256_init, hc_update = br_sha224_update, hc_out = br_sha256_out, hc_state = br_sha224_state,
     hc_set_state = br_sha224_set_state\<rparr>"

definition br_sha384_vtable :: "context64 br_hash_class" where
  "br_sha384_vtable = \<lparr>hc_desc = BR_HASHDESC_ID 5 OR BR_HASHDESC_OUT 48 OR BR_HASHDESC_STATE 64 OR BR_HASHDESC_LBLEN 7 OR
       BR_HASHDESC_MD_PADDING OR BR_HASHDESC_MD_PADDING_BE OR BR_HASHDESC_MD_PADDING_128,
     hc_init = br_sha384_init, hc_update = br_sha384_update, hc_out = br_sha384_out, hc_state = br_sha384_state,
     hc_set_state = br_sha384_set_state\<rparr>"

definition br_sha512_vtable :: "context64 br_hash_class" where
  "br_sha512_vtable = \<lparr>hc_desc = BR_HASHDESC_ID 6 OR BR_HASHDESC_OUT 64 OR BR_HASHDESC_STATE 64 OR BR_HASHDESC_LBLEN 7 OR
       BR_HASHDESC_MD_PADDING OR BR_HASHDESC_MD_PADDING_BE OR BR_HASHDESC_MD_PADDING_128,
     hc_init = br_sha512_init, hc_update = br_sha384_update, hc_out = br_sha512_out, hc_state = br_sha384_state,
     hc_set_state = br_sha384_set_state\<rparr>"

definition br_md5sha1_vtable :: "md5sha1_context br_hash_class" where
  "br_md5sha1_vtable = \<lparr>hc_desc = BR_HASHDESC_ID 0 OR BR_HASHDESC_OUT 36 OR BR_HASHDESC_STATE 36 OR BR_HASHDESC_LBLEN 6,
     hc_init = br_md5sha1_init, hc_update = br_md5sha1_update, hc_out = br_md5sha1_out, hc_state = br_md5sha1_state,
     hc_set_state = br_md5sha1_set_state\<rparr>"

definition br_digest_size :: "'c br_hash_class \<Rightarrow> nat" where
  "br_digest_size dig = unat (drop_bit 8 (hc_desc dig) AND 0x7F)"

definition block_size :: "'c br_hash_class \<Rightarrow> nat" where
  "block_size dig = 2 ^ unat (drop_bit 23 (hc_desc dig) AND 0x0F)"

definition br_digest_size_by_ID :: "int \<Rightarrow> nat" where
  "br_digest_size_by_ID digest_id =
     (if digest_id = 0 then 16 + 20 else if digest_id = 1 then 16 else if digest_id = 2 then 20 else if digest_id = 3 then 28
      else if digest_id = 4 then 32 else if digest_id = 5 then 48 else if digest_id = 6 then 64 else 0)"

lemmas vtables = br_md5_vtable_def br_sha1_vtable_def br_sha224_vtable_def br_sha256_vtable_def br_sha384_vtable_def
  br_sha512_vtable_def br_md5sha1_vtable_def

lemmas hashdesc = BR_HASHDESC_ID_def BR_HASHDESC_OUT_def BR_HASHDESC_STATE_def BR_HASHDESC_LBLEN_def BR_HASHDESC_MD_PADDING_def
  BR_HASHDESC_MD_PADDING_128_def BR_HASHDESC_MD_PADDING_BE_def

lemma digest_sizes:
  "br_digest_size br_md5_vtable = 16" "br_digest_size br_sha1_vtable = 20" "br_digest_size br_sha224_vtable = 28"
  "br_digest_size br_sha256_vtable = 32" "br_digest_size br_sha384_vtable = 48" "br_digest_size br_sha512_vtable = 64"
  "br_digest_size br_md5sha1_vtable = 36"
  by (simp_all add: br_digest_size_def vtables hashdesc)

lemma block_sizes:
  "block_size br_md5_vtable = 64" "block_size br_sha1_vtable = 64" "block_size br_sha224_vtable = 64"
  "block_size br_sha256_vtable = 64" "block_size br_sha384_vtable = 128" "block_size br_sha512_vtable = 128"
  "block_size br_md5sha1_vtable = 64"
  by (simp_all add: block_size_def vtables hashdesc)

section \<open>The contract of a table\<close>

text \<open>
  \<open>fits\<close>: memory that can hold a context; \<open>absorbed c m\<close>: the context has been given the message \<open>m\<close>;
  \<open>H\<close>: the hash function with blocks of \<open>B\<close> bytes and digests of \<open>L\<close> bytes.
\<close>

locale hash_contract =
  fixes dig :: "'c br_hash_class" and fits :: "'c \<Rightarrow> bool" and absorbed :: "'c \<Rightarrow> byte list \<Rightarrow> bool"
    and H :: "byte list \<Rightarrow> byte list" and B L :: nat
  assumes init: "fits c \<Longrightarrow> absorbed (hc_init dig c) []"
    and update: "absorbed c m \<Longrightarrow> absorbed (hc_update dig c d) (m @ d)"
    and out: "absorbed c m \<Longrightarrow> hc_out dig c = H m"
    and fits: "absorbed c m \<Longrightarrow> fits c"
    and restore: "absorbed c m \<Longrightarrow> B dvd length m \<Longrightarrow> fits e \<Longrightarrow>
      absorbed (hc_set_state dig e (fst (hc_state dig c)) (of_nat (length m))) m"
    and H_length: "length (H m) = L"
    and sizes: "block_size dig = B" "br_digest_size dig = L" "L \<le> B" "0 < L"
begin

lemma whole: "fits c \<Longrightarrow> hc_out dig (hc_update dig (hc_init dig c) m) = H m"
  using out [OF update [OF init]] by simp

end

section \<open>The tables keep the contract\<close>

lemma iterated_length:
  assumes "\<And>b v. length (round b v) = n" "length iv = n"
  shows "length (iterated_hash B lp round iv enc m) = n"
proof -
  have "length (foldl (\<lambda>v b. round b v) v bs) = n" if "length v = n" for v bs
    using that by (induction bs arbitrary: v) (simp_all add: assms(1))
  then show ?thesis using assms(2) by (simp add: iterated_hash_def)
qed

lemma compress_length:
  "length (md5_compress b v) = 4" "length (sha1_compress b v) = 5" "length (sha256_compress b v) = 8" "length (sha512_compress b w) = 8"
  by (simp_all add: md5_compress_def sha1_compress_def sha256_compress_def sha512_compress_def sha2_compress_def Let_def case_prod_beta
      del: upt_rec_numeral)

lemma iv_length:
  "length br_md5_IV = 4" "length br_sha1_IV = 5" "length br_sha224_IV = 8" "length br_sha256_IV = 8" "length IV384 = 8" "length IV512 = 8"
  by (simp_all add: br_md5_IV_def br_sha1_IV_def br_sha224_IV_def br_sha256_IV_def IV384_def IV512_def)

lemma digest_length:
  "length (std_md5 m) = 16" "length (std_sha1 m) = 20" "length (std_sha224 m) = 28" "length (std_sha256 m) = 32"
  "length (std_sha384 m) = 48" "length (std_sha512 m) = 64"
  by (simp_all add: std_md5_def std_sha1_def std_sha224_def std_sha256_def std_sha384_def std_sha512_def std_sha2small_def
      std_sha2big_def length_concat comp_def sum_list_triv iterated_length [OF compress_length(1)] iterated_length [OF compress_length(2)]
      iterated_length [OF compress_length(3)] iterated_length [OF compress_length(4)] iv_length)

lemma absorbed_val_length:
  assumes "block_hash.absorbed B round iv c m" "block_hash TYPE('v list) B lp" "\<And>b v. length (round b v :: 'v list) = n" "length iv = n"
  shows "length (hx_val c) = n"
proof -
  have "length (foldl (\<lambda>v b. round b v) v bs) = n" if "length v = n" for v bs
    using that by (induction bs arbitrary: v) (simp_all add: assms(3))
  then show ?thesis using assms(1,4) by (simp add: block_hash.absorbed_def [OF assms(2)])
qed

lemma val_length:
  "md5h.absorbed c m \<Longrightarrow> length (hx_val c) = 4" "sha1h.absorbed c m \<Longrightarrow> length (hx_val c) = 5"
  "sha224h.absorbed c m \<Longrightarrow> length (hx_val c) = 8" "sha256h.absorbed c m \<Longrightarrow> length (hx_val c) = 8"
  "sha384h.absorbed d m \<Longrightarrow> length (hx_val d) = 8" "sha512h.absorbed d m \<Longrightarrow> length (hx_val d) = 8"
  by (erule absorbed_val_length [OF _ md5h.block_hash_axioms] absorbed_val_length [OF _ sha384h.block_hash_axioms];
      simp add: iv_length)+

text \<open>The saved words are the chaining value.\<close>

lemma state_words:
  "md5h.absorbed c m \<Longrightarrow> br_range_dec32le 4 (fst (br_md5_state c)) = hx_val c"
  "sha1h.absorbed c m \<Longrightarrow> br_range_dec32be 5 (fst (br_sha1_state c)) = hx_val c"
  "sha224h.absorbed c m \<Longrightarrow> br_range_dec32be 8 (fst (br_sha224_state c)) = hx_val c"
  "sha256h.absorbed c m \<Longrightarrow> br_range_dec32be 8 (fst (br_sha224_state c)) = hx_val c"
  "sha384h.absorbed d m \<Longrightarrow> br_range_dec64be 8 (fst (br_sha384_state d)) = hx_val d"
  "sha512h.absorbed d m \<Longrightarrow> br_range_dec64be 8 (fst (br_sha384_state d)) = hx_val d"
  using range_dec_enc [where r = "[]", simplified append_Nil2]
  by (simp_all only: br_md5_state_def br_sha1_state_def br_sha224_state_def br_sha384_state_def fst_conv val_length)

lemma md5sha1_val_length:
  assumes "md5sha1h.absorbed c m"
  shows "length (fst (hx_val c)) = 4" "length (snd (hx_val c)) = 5"
proof -
  show "length (fst (hx_val c)) = 4"
    using absorbed_val_length [OF halves_absorbed(1) [OF assms] md5h.block_hash_axioms] by (simp add: iv_length md5_half_def)
  show "length (snd (hx_val c)) = 5"
    using absorbed_val_length [OF halves_absorbed(2) [OF assms] sha1h.block_hash_axioms] by (simp add: iv_length sha1_half_def)
qed

lemma range_enc_length: "length (br_range_enc32le v n) = 4 * n"
  by (induction v n rule: br_range_enc32le.induct) (simp_all add: br_enc32le_def)

lemma md5sha1_state_words:
  "md5sha1h.absorbed e m \<Longrightarrow>
     (br_range_dec32le 4 (fst (br_md5sha1_state e)), br_range_dec32be 5 (drop 16 (fst (br_md5sha1_state e)))) = hx_val e"
  using range_dec_enc(2) [OF md5sha1_val_length(1)] range_dec_enc(1) [OF md5sha1_val_length(2), of _ _ "[]"]
  by (simp add: br_md5sha1_state_def range_enc_length)

text \<open>
  A table whose functions work on the streaming contexts keeps the contract.
\<close>

locale hash_table = block_hash B lp round iv for B lp :: nat and round :: "byte list \<Rightarrow> 'v \<Rightarrow> 'v" and iv :: 'v +
  fixes dig :: "'v hash_context br_hash_class" and H :: "byte list \<Rightarrow> byte list" and L :: nat and dec :: "byte list \<Rightarrow> 'v"
  assumes t_init: "hc_init dig c = c\<lparr>hx_val := iv, hx_count := 0\<rparr>"
    and t_update: "absorbed c m \<Longrightarrow> absorbed (hc_update dig c d) (m @ d)"
    and t_out: "absorbed c m \<Longrightarrow> hc_out dig c = H m"
    and t_state: "absorbed c m \<Longrightarrow> dec (fst (hc_state dig c)) = hx_val c"
    and t_set_state: "hc_set_state dig c st k = c\<lparr>hx_val := dec st, hx_count := k\<rparr>"
    and t_H: "length (H m) = L"
    and t_sizes: "block_size dig = B" "br_digest_size dig = L" "L \<le> B" "0 < L"

sublocale hash_table \<subseteq> contract: hash_contract dig "\<lambda>c. length (hx_buf c) = B" absorbed H B L
proof
  fix c e m d
  show "length (hx_buf c) = B \<Longrightarrow> absorbed (hc_init dig c) []" by (simp add: t_init init_absorbed)
  show "absorbed c m \<Longrightarrow> length (hx_buf c) = B" by (simp add: absorbed_def)
  show "absorbed c m \<Longrightarrow> B dvd length m \<Longrightarrow> length (hx_buf e) = B \<Longrightarrow>
      absorbed (hc_set_state dig e (fst (hc_state dig c)) (of_nat (length m))) m"
    by (rule restore_absorbed) (simp_all add: t_set_state t_state)
qed (simp_all add: t_update t_out t_H t_sizes)

lemmas table_facts = vtables digest_length block_sizes digest_sizes update_absorbs out_md5 out_sha1 out_sha2small out_sha2big
  state_words br_md5_init_def br_sha1_init_def br_sha224_init_def br_sha256_init_def br_sha384_init_def br_sha512_init_def
  br_md5_set_state_def br_sha1_set_state_def br_sha224_set_state_def br_sha384_set_state_def
  br_sha224_out_def br_sha256_out_def br_sha384_out_def br_sha512_out_def std_sha224_def std_sha256_def std_sha384_def std_sha512_def

interpretation md5c: hash_table 64 56 br_md5_round br_md5_IV br_md5_vtable std_md5 16 "br_range_dec32le 4"
  by unfold_locales (simp_all add: digest_length block_sizes digest_sizes, simp_all add: table_facts)

interpretation sha1c: hash_table 64 56 br_sha1_round br_sha1_IV br_sha1_vtable std_sha1 20 "br_range_dec32be 5"
  by unfold_locales (simp_all add: digest_length block_sizes digest_sizes, simp_all add: table_facts)

interpretation sha224c: hash_table 64 56 br_sha2small_round br_sha224_IV br_sha224_vtable std_sha224 28 "br_range_dec32be 8"
  by unfold_locales (simp_all add: digest_length block_sizes digest_sizes, simp_all add: table_facts)

interpretation sha256c: hash_table 64 56 br_sha2small_round br_sha256_IV br_sha256_vtable std_sha256 32 "br_range_dec32be 8"
  by unfold_locales (simp_all add: digest_length block_sizes digest_sizes, simp_all add: table_facts)

interpretation sha384c: hash_table 128 112 sha2big_round IV384 br_sha384_vtable std_sha384 48 "br_range_dec64be 8"
  by unfold_locales (simp_all add: digest_length block_sizes digest_sizes, simp_all add: table_facts)

interpretation sha512c: hash_table 128 112 sha2big_round IV512 br_sha512_vtable std_sha512 64 "br_range_dec64be 8"
  by unfold_locales (simp_all add: digest_length block_sizes digest_sizes, simp_all add: table_facts)

interpretation md5sha1c: hash_table 64 56 md5sha1_round "(br_md5_IV, br_sha1_IV)" br_md5sha1_vtable "\<lambda>m. std_md5 m @ std_sha1 m" 36
  "\<lambda>st. (br_range_dec32le 4 st, br_range_dec32be 5 (drop 16 st))"
  by unfold_locales (simp_all add: digest_length block_sizes digest_sizes, simp_all add: vtables update_absorbs br_md5sha1_init_def
      br_md5sha1_set_state_def md5sha1_state_words out_md5sha1 out_md5 [OF halves_absorbed(1)] out_sha1 [OF halves_absorbed(2)])

end
