(* ===== verification/Hmac.thy ===== *)
theory Hmac
  imports Hash_Class
begin

text \<open>
  The code that is generic in the hash function: HMAC (\<open>mac/hmac.c\<close>), HKDF (\<open>kdf/hkdf.c\<close>), the mask
  generation function MGF1 (\<open>hash/mgf1.c\<close>) and the deterministic generator HMAC_DRBG
  (\<open>rand/hmac_drbg.c\<close>). A local hash context of the code is uninitialised memory: it is the argument
  \<open>mem\<close> of the definitions. Of a fixed-size array that is only partly written the model keeps the
  bytes written.
\<close>

section \<open>HMAC\<close>

record 'c br_hmac_key_context =
  kc_dig :: "'c br_hash_class"
  kc_ksi :: "byte list"
  kc_kso :: "byte list"

record 'c br_hmac_context =
  hm_vtable :: "'c br_hash_class"
  hm_dig :: 'c
  hm_kso :: "byte list"
  hm_out_len :: nat

text \<open>The key is at most a block long. The result is the context and the state saved to \<open>ks\<close>.\<close>

definition process_key :: "'c br_hash_class \<Rightarrow> 'c \<Rightarrow> byte list \<Rightarrow> byte \<Rightarrow> 'c \<times> byte list" where
  "process_key dig hc key bb =
     (let blen = block_size dig;
          tmp = map (\<lambda>b. b XOR bb) key @ replicate (blen - length key) bb;
          hc = hc_update dig (hc_init dig hc) tmp
      in (hc, fst (hc_state dig hc)))"

definition br_hmac_key_init :: "'c br_hash_class \<Rightarrow> 'c \<Rightarrow> byte list \<Rightarrow> 'c br_hmac_key_context" where
  "br_hmac_key_init dig mem key =
     (let (hc, key) = (if length key > block_size dig
            then let hc = hc_update dig (hc_init dig mem) key in (hc, take (br_digest_size dig) (hc_out dig hc))
            else (mem, key));
          (hc, ksi) = process_key dig hc key 0x36;
          (hc, kso) = process_key dig hc key 0x5C
      in \<lparr>kc_dig = dig, kc_ksi = ksi, kc_kso = kso\<rparr>)"

definition br_hmac_init :: "'c \<Rightarrow> 'c br_hmac_key_context \<Rightarrow> nat \<Rightarrow> 'c br_hmac_context" where
  "br_hmac_init mem kc out_len =
     (let dig = kc_dig kc; blen = block_size dig;
          hc = hc_set_state dig (hc_init dig mem) (kc_ksi kc) (of_nat blen);
          hlen = br_digest_size dig
      in \<lparr>hm_vtable = dig, hm_dig = hc, hm_kso = kc_kso kc,
          hm_out_len = (if out_len > 0 \<and> out_len < hlen then out_len else hlen)\<rparr>)"

definition br_hmac_update :: "'c br_hmac_context \<Rightarrow> byte list \<Rightarrow> 'c br_hmac_context" where
  "br_hmac_update ctx data = ctx\<lparr>hm_dig := hc_update (hm_vtable ctx) (hm_dig ctx) data\<rparr>"

definition br_hmac_out :: "'c \<Rightarrow> 'c br_hmac_context \<Rightarrow> byte list" where
  "br_hmac_out mem ctx =
     (let dig = hm_vtable ctx; tmp = hc_out dig (hm_dig ctx); blen = block_size dig;
          hc = hc_set_state dig (hc_init dig mem) (hm_kso ctx) (of_nat blen);
          hlen = br_digest_size dig;
          tmp = hc_out dig (hc_update dig hc (take hlen tmp))
      in take (hm_out_len ctx) tmp)"

definition br_hmac_size :: "'c br_hmac_context \<Rightarrow> nat" where
  "br_hmac_size ctx = hm_out_len ctx"

definition br_hmac_get_digest :: "'c br_hmac_context \<Rightarrow> 'c br_hash_class" where
  "br_hmac_get_digest hc = hm_vtable hc"

section \<open>HKDF\<close>

text \<open>The union of the context has an HMAC context until \<open>br_hkdf_flip\<close> and an HMAC key after it.\<close>

datatype 'c hkdf_union = Hmac_ctx "'c br_hmac_context" | Prk_ctx "'c br_hmac_key_context"

record 'c br_hkdf_context =
  kd_u :: "'c hkdf_union"
  kd_buf :: "byte list"
  kd_ptr :: nat
  kd_dig_len :: nat
  kd_chunk_num :: "32 word"

text \<open>\<open>None\<close> as salt is \<open>BR_HKDF_NO_SALT\<close>; \<open>hc\<close> is the memory of the context.\<close>

definition br_hkdf_init ::
  "'c \<Rightarrow> 'c br_hkdf_context \<Rightarrow> 'c br_hash_class \<Rightarrow> byte list option \<Rightarrow> 'c br_hkdf_context" where
  "br_hkdf_init mem hc digest_vtable salt =
     (let salt = (case salt of None \<Rightarrow> replicate (br_digest_size digest_vtable) 0 | Some s \<Rightarrow> s);
          kc = br_hmac_key_init digest_vtable mem salt;
          ctx = br_hmac_init mem kc 0
      in hc\<lparr>kd_u := Hmac_ctx ctx, kd_dig_len := br_hmac_size ctx\<rparr>)"

definition br_hkdf_inject :: "'c br_hkdf_context \<Rightarrow> byte list \<Rightarrow> 'c br_hkdf_context option" where
  "br_hkdf_inject hc ikm = (case kd_u hc of
     Hmac_ctx ctx \<Rightarrow> Some (hc\<lparr>kd_u := Hmac_ctx (br_hmac_update ctx ikm)\<rparr>) | Prk_ctx _ \<Rightarrow> None)"

definition br_hkdf_flip :: "'c \<Rightarrow> 'c br_hkdf_context \<Rightarrow> 'c br_hkdf_context option" where
  "br_hkdf_flip mem hc = (case kd_u hc of
     Hmac_ctx ctx \<Rightarrow>
       (let tmp = br_hmac_out mem ctx
        in Some (hc\<lparr>kd_u := Prk_ctx (br_hmac_key_init (br_hmac_get_digest ctx) mem (take (kd_dig_len hc) tmp)),
             kd_ptr := kd_dig_len hc, kd_chunk_num := 0\<rparr>))
   | Prk_ctx _ \<Rightarrow> None)"

text \<open>
  The body of the loop of \<open>br_hkdf_produce\<close> before the copy: a new chunk when the current one is used
  up; \<open>True\<close> when the function returns because there are no more chunks.
\<close>

definition hkdf_refill :: "'c \<Rightarrow> byte list \<Rightarrow> 'c br_hkdf_context \<Rightarrow> (bool \<times> 'c br_hkdf_context) option" where
  "hkdf_refill mem info hc =
     (if kd_ptr hc = kd_dig_len hc
      then let hc = hc\<lparr>kd_chunk_num := kd_chunk_num hc + 1\<rparr>
           in if kd_chunk_num hc = 256 then Some (True, hc)
              else case kd_u hc of
                Prk_ctx kc \<Rightarrow>
                  (let x = ucast (kd_chunk_num hc) :: byte;
                       ctx = br_hmac_init mem kc 0;
                       ctx = (if x \<noteq> 1 then br_hmac_update ctx (take (kd_dig_len hc) (kd_buf hc)) else ctx);
                       ctx = br_hmac_update (br_hmac_update ctx info) [x]
                   in Some (False, hc\<lparr>kd_buf := br_hmac_out mem ctx, kd_ptr := 0\<rparr>))
              | Hmac_ctx _ \<Rightarrow> None
      else Some (False, hc))"

partial_function (option) hkdf_produce_loop ::
  "'c \<Rightarrow> byte list \<Rightarrow> 'c br_hkdf_context \<Rightarrow> nat \<Rightarrow> byte list \<Rightarrow> ('c br_hkdf_context \<times> byte list) option" where
  "hkdf_produce_loop mem info hc out_len out =
     (if out_len = 0 then Some (hc, out)
      else Option.bind (hkdf_refill mem info hc) (\<lambda>r.
        if fst r then Some (snd r, out)
        else let hc = snd r; clen = min (kd_dig_len hc - kd_ptr hc) out_len
             in hkdf_produce_loop mem info (hc\<lparr>kd_ptr := kd_ptr hc + clen\<rparr>) (out_len - clen)
                  (out @ take clen (drop (kd_ptr hc) (kd_buf hc)))))"

text \<open>The bytes written to \<open>out\<close>; the value returned is their number.\<close>

definition br_hkdf_produce ::
  "'c \<Rightarrow> 'c br_hkdf_context \<Rightarrow> byte list \<Rightarrow> nat \<Rightarrow> ('c br_hkdf_context \<times> byte list) option" where
  "br_hkdf_produce mem hc info out_len = hkdf_produce_loop mem info hc out_len []"

section \<open>MGF1\<close>

text \<open>The loop over the blocks of \<open>data\<close>; with digests of 0 bytes it does not return.\<close>

definition mgf1_block :: "'c \<Rightarrow> 'c br_hash_class \<Rightarrow> byte list \<Rightarrow> 32 word \<Rightarrow> byte list" where
  "mgf1_block mem dig seed c = hc_out dig (hc_update dig (hc_update dig (hc_init dig mem) seed) (br_enc32be c))"

definition mgf1_xor_block :: "byte list \<Rightarrow> nat \<Rightarrow> nat \<Rightarrow> byte list \<Rightarrow> byte list" where
  "mgf1_xor_block buf u hlen tmp =
     foldl (\<lambda>buf v. if u + v \<ge> length buf then buf else buf[u + v := buf ! (u + v) XOR tmp ! v]) buf [0..<hlen]"

partial_function (option) mgf1_loop ::
  "'c \<Rightarrow> 'c br_hash_class \<Rightarrow> byte list \<Rightarrow> nat \<Rightarrow> 32 word \<Rightarrow> byte list \<Rightarrow> byte list option" where
  "mgf1_loop mem dig seed u c buf =
     (if u < length buf
      then mgf1_loop mem dig seed (u + br_digest_size dig) (c + 1)
             (mgf1_xor_block buf u (br_digest_size dig) (mgf1_block mem dig seed c))
      else Some buf)"

definition br_mgf1_xor :: "'c \<Rightarrow> byte list \<Rightarrow> 'c br_hash_class \<Rightarrow> byte list \<Rightarrow> byte list option" where
  "br_mgf1_xor mem data dig seed = mgf1_loop mem dig seed 0 0 data"

section \<open>HMAC_DRBG\<close>

record 'c br_hmac_drbg_context =
  dr_K :: "byte list"
  dr_V :: "byte list"
  dr_digest_class :: "'c br_hash_class"

text \<open>One HMAC computation with the key \<open>kc\<close> over the pieces \<open>ps\<close>, as the functions write it out.\<close>

definition drbg_hmac :: "'c \<Rightarrow> 'c br_hmac_key_context \<Rightarrow> byte list list \<Rightarrow> byte list" where
  "drbg_hmac mem kc ps = br_hmac_out mem (foldl br_hmac_update (br_hmac_init mem kc 0) ps)"

definition br_hmac_drbg_update :: "'c \<Rightarrow> 'c br_hmac_drbg_context \<Rightarrow> byte list \<Rightarrow> 'c br_hmac_drbg_context" where
  "br_hmac_drbg_update mem ctx seed =
     (let dig = dr_digest_class ctx; hlen = br_digest_size dig;
          kc = br_hmac_key_init dig mem (take hlen (dr_K ctx));
          ctx = ctx\<lparr>dr_K := drbg_hmac mem kc [take hlen (dr_V ctx), [0x00], seed]\<rparr>;
          kc = br_hmac_key_init dig mem (take hlen (dr_K ctx));
          ctx = ctx\<lparr>dr_V := drbg_hmac mem kc [take hlen (dr_V ctx)]\<rparr>
      in if length seed = 0 then ctx
         else let ctx = ctx\<lparr>dr_K := drbg_hmac mem kc [take hlen (dr_V ctx), [0x01], seed]\<rparr>;
                  kc = br_hmac_key_init dig mem (take hlen (dr_K ctx))
              in ctx\<lparr>dr_V := drbg_hmac mem kc [take hlen (dr_V ctx)]\<rparr>)"

definition br_hmac_drbg_init ::
  "'c \<Rightarrow> 'c br_hmac_drbg_context \<Rightarrow> 'c br_hash_class \<Rightarrow> byte list \<Rightarrow> 'c br_hmac_drbg_context" where
  "br_hmac_drbg_init mem ctx digest_class seed =
     (let hlen = br_digest_size digest_class
      in br_hmac_drbg_update mem (ctx\<lparr>dr_K := replicate hlen 0x00, dr_V := replicate hlen 0x01, dr_digest_class := digest_class\<rparr>) seed)"

partial_function (option) drbg_generate_loop ::
  "'c \<Rightarrow> 'c br_hmac_key_context \<Rightarrow> nat \<Rightarrow> 'c br_hmac_drbg_context \<Rightarrow> nat \<Rightarrow> byte list \<Rightarrow> ('c br_hmac_drbg_context \<times> byte list) option" where
  "drbg_generate_loop mem kc hlen ctx len out =
     (if len > 0
      then let ctx = ctx\<lparr>dr_V := drbg_hmac mem kc [take hlen (dr_V ctx)]\<rparr>; clen = min hlen len
           in drbg_generate_loop mem kc hlen ctx (len - clen) (out @ take clen (dr_V ctx))
      else Some (ctx, out))"

definition br_hmac_drbg_generate ::
  "'c \<Rightarrow> 'c br_hmac_drbg_context \<Rightarrow> nat \<Rightarrow> ('c br_hmac_drbg_context \<times> byte list) option" where
  "br_hmac_drbg_generate mem ctx len =
     (let dig = dr_digest_class ctx; hlen = br_digest_size dig;
          kc = br_hmac_key_init dig mem (take hlen (dr_K ctx))
      in map_option (\<lambda>(ctx, out).
           let ctx = ctx\<lparr>dr_K := drbg_hmac mem kc [take hlen (dr_V ctx), [0x00]]\<rparr>;
               kc = br_hmac_key_init dig mem (take hlen (dr_K ctx));
               ctx = ctx\<lparr>dr_V := drbg_hmac mem kc [take hlen (dr_V ctx)]\<rparr>
           in (ctx, out)) (drbg_generate_loop mem kc hlen ctx len []))"

section \<open>The standards\<close>

definition xor_pad :: "nat \<Rightarrow> byte \<Rightarrow> byte list \<Rightarrow> byte list" where
  "xor_pad B p k = map (\<lambda>b. b XOR p) (k @ replicate (B - length k) 0)"

text \<open>RFC 2104.\<close>

definition rfc2104 :: "(byte list \<Rightarrow> byte list) \<Rightarrow> nat \<Rightarrow> byte list \<Rightarrow> byte list \<Rightarrow> byte list" where
  "rfc2104 H B K m = (let K = (if length K > B then H K else K) in H (xor_pad B 0x5C K @ H (xor_pad B 0x36 K @ m)))"

text \<open>RFC 5869: the extracted key and the blocks of the expansion.\<close>

definition hkdf_prk :: "(byte list \<Rightarrow> byte list) \<Rightarrow> nat \<Rightarrow> nat \<Rightarrow> byte list option \<Rightarrow> byte list \<Rightarrow> byte list" where
  "hkdf_prk H B L salt ikm = rfc2104 H B (case salt of None \<Rightarrow> replicate L 0 | Some s \<Rightarrow> s) ikm"

fun hkdf_T :: "(byte list \<Rightarrow> byte list) \<Rightarrow> nat \<Rightarrow> byte list \<Rightarrow> byte list \<Rightarrow> nat \<Rightarrow> byte list" where
  "hkdf_T H B prk info 0 = []"
| "hkdf_T H B prk info (Suc n) = rfc2104 H B prk (hkdf_T H B prk info n @ info @ [of_nat (Suc n)])"

definition hkdf_okm :: "(byte list \<Rightarrow> byte list) \<Rightarrow> nat \<Rightarrow> byte list \<Rightarrow> byte list \<Rightarrow> byte list" where
  "hkdf_okm H B prk info = concat (map (\<lambda>i. hkdf_T H B prk info (Suc i)) [0..<255])"

text \<open>RFC 8017, B.2.1, for \<open>n\<close> blocks.\<close>

definition mgf1_mask :: "(byte list \<Rightarrow> byte list) \<Rightarrow> byte list \<Rightarrow> nat \<Rightarrow> byte list" where
  "mgf1_mask H seed n = concat (map (\<lambda>c. H (seed @ be_bytes 4 c)) [0..<n])"

text \<open>NIST SP 800-90A, 10.1.2: \<open>HMAC_DRBG_Update\<close> and the blocks of \<open>HMAC_DRBG_Generate\<close>.\<close>

definition std_drbg_update ::
  "(byte list \<Rightarrow> byte list \<Rightarrow> byte list) \<Rightarrow> byte list \<times> byte list \<Rightarrow> byte list \<Rightarrow> byte list \<times> byte list" where
  "std_drbg_update mac KV seed =
     (let (K, V) = KV; K = mac K (V @ [0x00] @ seed); V = mac K V
      in if seed = [] then (K, V) else let K = mac K (V @ [0x01] @ seed); V = mac K V in (K, V))"

fun std_drbg_blocks :: "(byte list \<Rightarrow> byte list) \<Rightarrow> byte list \<Rightarrow> nat \<Rightarrow> byte list list" where
  "std_drbg_blocks f V 0 = []"
| "std_drbg_blocks f V (Suc n) = f V # std_drbg_blocks f (f V) n"

definition std_drbg_generate ::
  "(byte list \<Rightarrow> byte list \<Rightarrow> byte list) \<Rightarrow> nat \<Rightarrow> byte list \<times> byte list \<Rightarrow> nat \<Rightarrow> (byte list \<times> byte list) \<times> byte list" where
  "std_drbg_generate mac L KV len =
     (let (K, V) = KV; n = (len + L - 1) div L; bs = std_drbg_blocks (mac K) V n
      in (std_drbg_update mac (K, last (V # bs)) [], take len (concat bs)))"

section \<open>HMAC over any hash\<close>

lemma xor_pad_key: "length k \<le> B \<Longrightarrow> map (\<lambda>b. b XOR p) k @ replicate (B - length k) p = xor_pad B p k"
  by (simp add: xor_pad_def)

lemma length_xor_pad: "length k \<le> B \<Longrightarrow> length (xor_pad B p k) = B"
  by (simp add: xor_pad_def)

context hash_contract
begin

text \<open>A key context that stands for the key \<open>k\<close>, an HMAC context that has been given \<open>m\<close>.\<close>

definition key_for :: "'c br_hmac_key_context \<Rightarrow> byte list \<Rightarrow> bool" where
  "key_for kc k \<longleftrightarrow> kc_dig kc = dig \<and> length k \<le> B \<and>
     (\<exists>c. absorbed c (xor_pad B 0x36 k) \<and> kc_ksi kc = fst (hc_state dig c)) \<and>
     (\<exists>c. absorbed c (xor_pad B 0x5C k) \<and> kc_kso kc = fst (hc_state dig c))"

definition mac_of :: "'c br_hmac_context \<Rightarrow> byte list \<Rightarrow> byte list \<Rightarrow> bool" where
  "mac_of ctx k m \<longleftrightarrow> hm_vtable ctx = dig \<and> length k \<le> B \<and> absorbed (hm_dig ctx) (xor_pad B 0x36 k @ m) \<and>
     (\<exists>c. absorbed c (xor_pad B 0x5C k) \<and> hm_kso ctx = fst (hc_state dig c))"

lemma process_key_absorbs:
  assumes "fits hc" "length k \<le> B"
  shows "absorbed (fst (process_key dig hc k p)) (xor_pad B p k)"
    "snd (process_key dig hc k p) = fst (hc_state dig (fst (process_key dig hc k p)))"
  using update [OF init [OF assms(1)], of "xor_pad B p k"] assms(2)
  by (simp_all add: process_key_def Let_def sizes xor_pad_key)

definition short_key :: "byte list \<Rightarrow> byte list" where
  "short_key k = (if length k > B then H k else k)"

lemma short_key_length: "length (short_key k) \<le> B"
  by (simp add: short_key_def H_length sizes)

lemma key_init_for: "fits mem \<Longrightarrow> key_for (br_hmac_key_init dig mem k) (short_key k)"
proof -
  assume mem: "fits mem"
  define hc where "hc = (if length k > B then hc_update dig (hc_init dig mem) k else mem)"
  have hc: "fits hc" using mem fits [OF update [OF init [OF mem], of k]] by (simp add: hc_def)
  have red: "(if length k > block_size dig
            then let hc = hc_update dig (hc_init dig mem) k in (hc, take (br_digest_size dig) (hc_out dig hc))
            else (mem, k)) = (hc, short_key k)"
    using whole [OF mem, of k] by (simp add: hc_def short_key_def sizes H_length Let_def)
  define p1 where "p1 = process_key dig hc (short_key k) 0x36"
  define p2 where "p2 = process_key dig (fst p1) (short_key k) 0x5C"
  note a1 = process_key_absorbs [OF hc short_key_length, of k "0x36", folded p1_def]
  note a2 = process_key_absorbs [OF fits [OF a1(1)] short_key_length, of k "0x5C", folded p2_def]
  have "br_hmac_key_init dig mem k = \<lparr>kc_dig = dig, kc_ksi = snd p1, kc_kso = snd p2\<rparr>"
    unfolding br_hmac_key_init_def red by (simp add: p1_def [symmetric] p2_def [symmetric] case_prod_beta)
  then show ?thesis using a1 a2 short_key_length by (auto simp: key_for_def)
qed

lemma restored:
  assumes "absorbed c (xor_pad B p k)" "length k \<le> B" "fits mem"
  shows "absorbed (hc_set_state dig (hc_init dig mem) (fst (hc_state dig c)) (of_nat B)) (xor_pad B p k)"
  using restore [OF assms(1) _ fits [OF init [OF assms(3)]]] assms(2) by (simp add: length_xor_pad)

lemma init_mac: "key_for kc k \<Longrightarrow> fits mem \<Longrightarrow> mac_of (br_hmac_init mem kc n) k []"
  using restored [of _ "0x36" k mem] by (auto simp: key_for_def mac_of_def br_hmac_init_def Let_def sizes)

lemma update_mac: "mac_of ctx k m \<Longrightarrow> mac_of (br_hmac_update ctx d) k (m @ d)"
  using update [of "hm_dig ctx" "xor_pad B 0x36 k @ m" d] by (auto simp: mac_of_def br_hmac_update_def)

lemma updates_mac: "mac_of ctx k m \<Longrightarrow> mac_of (foldl br_hmac_update ctx ps) k (m @ concat ps)"
proof (induction ps arbitrary: ctx m)
  case (Cons p ps)
  then show ?case using Cons.IH [OF update_mac [of ctx k m p]] by simp
qed simp

lemma updates_out_len [simp]: "hm_out_len (foldl br_hmac_update ctx ps) = hm_out_len ctx"
  by (induction ps arbitrary: ctx) (simp_all add: br_hmac_update_def)

lemma out_mac:
  assumes "mac_of ctx k m" "fits mem"
  shows "br_hmac_out mem ctx = take (hm_out_len ctx) (rfc2104 H B k m)"
proof -
  from assms(1) obtain c where c: "absorbed c (xor_pad B 0x5C k)" "hm_kso ctx = fst (hc_state dig c)"
    and m: "hm_vtable ctx = dig" "length k \<le> B" "absorbed (hm_dig ctx) (xor_pad B 0x36 k @ m)"
    by (auto simp: mac_of_def)
  note u = out [OF update [OF restored [OF c(1) m(2) assms(2)]], of "H (xor_pad B 0x36 k @ m)"]
  show ?thesis
    using u m(2) by (simp add: br_hmac_out_def Let_def m(1) out [OF m(3)] sizes c(2) H_length rfc2104_def)
qed

lemma rfc2104_short: "rfc2104 H B (short_key k) m = rfc2104 H B k m"
  using sizes(3) by (simp add: rfc2104_def short_key_def H_length)

lemma rfc2104_length: "length (rfc2104 H B k m) = L"
  by (simp add: rfc2104_def Let_def H_length)

text \<open>The whole computation, for any pieces and any requested length.\<close>

lemma hmac_pieces:
  assumes "fits mem1" "fits mem2" "fits mem3"
  shows "br_hmac_out mem3 (foldl br_hmac_update (br_hmac_init mem2 (br_hmac_key_init dig mem1 key) n) ps) =
    take (if 0 < n \<and> n < L then n else L) (rfc2104 H B key (concat ps))"
proof -
  have "mac_of (foldl br_hmac_update (br_hmac_init mem2 (br_hmac_key_init dig mem1 key) n) ps) (short_key key) (concat ps)"
    using updates_mac [OF init_mac [OF key_init_for [OF assms(1)] assms(2)], of key n ps] by simp
  moreover have "hm_out_len (br_hmac_init mem2 (br_hmac_key_init dig mem1 key) n) = (if 0 < n \<and> n < L then n else L)"
    by (simp add: br_hmac_init_def br_hmac_key_init_def Let_def case_prod_beta sizes)
  ultimately show ?thesis by (simp add: out_mac [OF _ assms(3)] rfc2104_short)
qed

text \<open>With a key context and no limit on the length.\<close>

lemma mac_with_key:
  assumes "key_for kc k" "fits mem" "fits mem'"
  shows "br_hmac_out mem' (foldl br_hmac_update (br_hmac_init mem kc 0) ps) = rfc2104 H B k (concat ps)"
proof -
  have "mac_of (foldl br_hmac_update (br_hmac_init mem kc 0) ps) k (concat ps)"
    using updates_mac [OF init_mac [OF assms(1,2)], of 0 ps] by simp
  moreover have "hm_out_len (br_hmac_init mem kc 0) = L"
    using assms(1) by (simp add: br_hmac_init_def key_for_def Let_def sizes)
  ultimately show ?thesis by (simp add: out_mac [OF _ assms(3)] rfc2104_length)
qed

end

section \<open>HKDF over any hash\<close>

lemma concat_blocks:
  assumes "\<And>i. length (f i) = L" "i < N" "j + n \<le> L"
  shows "take n (drop (i * L + j) (concat (map f [0..<N]))) = take n (drop j (f i))"
proof -
  have "[0..<N] = [0..<i] @ i # [Suc i..<N]" using assms(2) upt_add_eq_append [of 0 i "N - i"] upt_conv_Cons [of i N] by simp
  moreover have "length (concat (map f [0..<i])) = i * L"
    using assms(1) by (simp add: length_concat comp_def sum_list_triv)
  ultimately show ?thesis using assms(1,3) by simp
qed

text \<open>The key derivation up to the expansion, and several requests one after the other.\<close>

definition hkdf_extract ::
  "'c \<Rightarrow> 'c br_hkdf_context \<Rightarrow> 'c br_hash_class \<Rightarrow> byte list option \<Rightarrow> byte list list \<Rightarrow> 'c br_hkdf_context option" where
  "hkdf_extract mem hc dig salt ikms = Option.bind (foldo br_hkdf_inject (br_hkdf_init mem hc dig salt) ikms) (br_hkdf_flip mem)"

fun hkdf_requests ::
  "'c \<Rightarrow> byte list \<Rightarrow> 'c br_hkdf_context \<Rightarrow> nat list \<Rightarrow> ('c br_hkdf_context \<times> byte list) option" where
  "hkdf_requests mem info hc [] = Some (hc, [])"
| "hkdf_requests mem info hc (n # ns) =
     Option.bind (br_hkdf_produce mem hc info n) (\<lambda>(hc, out).
       map_option (\<lambda>(hc, out'). (hc, out @ out')) (hkdf_requests mem info hc ns))"

context hash_contract
begin

lemma hkdf_T_length: "length (hkdf_T H B prk info (Suc n)) = L"
  by (simp add: rfc2104_length)

definition hkdf_at :: "byte list \<Rightarrow> byte list \<Rightarrow> 'c br_hkdf_context \<Rightarrow> nat \<Rightarrow> bool" where
  "hkdf_at prk info hc p \<longleftrightarrow> (\<exists>kc q. kd_u hc = Prk_ctx kc \<and> key_for kc prk \<and> kd_dig_len hc = L \<and> kd_chunk_num hc = of_nat q \<and>
     q \<le> 255 \<and> kd_ptr hc \<le> L \<and> p + L = q * L + kd_ptr hc \<and> (0 < q \<longrightarrow> kd_buf hc = hkdf_T H B prk info q))"

lemma extract_at:
  assumes "fits mem"
  shows "\<exists>h. hkdf_extract mem hc dig salt ikms = Some h \<and> hkdf_at (hkdf_prk H B L salt (concat ikms)) info h 0"
proof -
  let ?s = "case salt of None \<Rightarrow> replicate L 0 | Some s \<Rightarrow> s"
  let ?ctx = "br_hmac_init mem (br_hmac_key_init dig mem ?s) 0"
  have inj: "kd_u h = Hmac_ctx ctx \<Longrightarrow> foldo br_hkdf_inject h ikms = Some (h\<lparr>kd_u := Hmac_ctx (foldl br_hmac_update ctx ikms)\<rparr>)" for h ctx
    by (induction ikms arbitrary: h ctx) (simp_all add: br_hkdf_inject_def)
  have i: "br_hkdf_init mem hc dig salt = hc\<lparr>kd_u := Hmac_ctx ?ctx, kd_dig_len := hm_out_len ?ctx\<rparr>"
    unfolding br_hkdf_init_def Let_def sizes br_hmac_size_def ..
  have kc: "key_for (br_hmac_key_init dig mem ?s) (short_key ?s)" by (rule key_init_for [OF assms])
  have len: "hm_out_len ?ctx = L" using kc by (simp add: br_hmac_init_def key_for_def Let_def sizes)
  have prk: "br_hmac_out mem (foldl br_hmac_update ?ctx ikms) = hkdf_prk H B L salt (concat ikms)"
    using mac_with_key [OF kc assms assms] by (simp add: hkdf_prk_def rfc2104_short)
  have prk_len: "length (hkdf_prk H B L salt (concat ikms)) = L" by (simp add: hkdf_prk_def rfc2104_length)
  have dg: "br_hmac_get_digest (foldl br_hmac_update ?ctx ikms) = dig"
    using updates_mac [OF init_mac [OF kc assms], of 0 ikms] by (simp add: br_hmac_get_digest_def mac_of_def)
  have k2: "key_for (br_hmac_key_init dig mem (hkdf_prk H B L salt (concat ikms))) (hkdf_prk H B L salt (concat ikms))"
    using key_init_for [OF assms, of "hkdf_prk H B L salt (concat ikms)"] prk_len sizes(3) by (simp add: short_key_def)
  show ?thesis
    unfolding hkdf_extract_def i len using k2 inj [of "hc\<lparr>kd_u := Hmac_ctx ?ctx, kd_dig_len := L\<rparr>" ?ctx]
    by (simp add: br_hkdf_flip_def prk dg prk_len hkdf_at_def Let_def) (intro exI [of _ 0], simp)
qed

lemma refill_at:
  assumes at: "hkdf_at prk info hc p" and p: "p < 255 * L" and mem: "fits mem"
  shows "\<exists>hc'. hkdf_refill mem info hc = Some (False, hc') \<and> hkdf_at prk info hc' p \<and> kd_ptr hc' < L"
proof (cases "kd_ptr hc = L")
  case False
  then show ?thesis using at by (auto simp: hkdf_refill_def hkdf_at_def)
next
  case True
  from at obtain kc q where h: "kd_u hc = Prk_ctx kc" "key_for kc prk" "kd_dig_len hc = L" "kd_chunk_num hc = of_nat q"
    "p + L = q * L + kd_ptr hc" "0 < q \<longrightarrow> kd_buf hc = hkdf_T H B prk info q" by (auto simp: hkdf_at_def)
  have "q * L < 255 * L" using h(5) True p by simp
  then have q: "q < 255" by (simp add: mult_less_cancel2)
  have w: "kd_chunk_num hc + 1 = of_nat (Suc q)" using h(4) by simp
  have ne: "(of_nat (Suc q) :: 32 word) \<noteq> 256" using q by (simp add: word_unat_eq_iff unat_of_nat del: of_nat_Suc)
  have x: "ucast (of_nat (Suc q) :: 32 word) = (of_nat (Suc q) :: byte)"
    by (simp add: word_unat_eq_iff unat_of_nat unsigned_ucast_eq take_bit_eq_mod mod_mod_cancel del: of_nat_Suc)
  have x1: "(of_nat (Suc q) :: byte) \<noteq> 1 \<longleftrightarrow> q \<noteq> 0" using q by (simp add: word_unat_eq_iff unat_of_nat del: of_nat_Suc)
  define N X where "N = (of_nat (Suc q) :: 32 word)" and "X = (of_nat (Suc q) :: byte)"
  define TS where "TS = hkdf_T H B prk info (Suc q)"
  note abs = w [folded N_def] ne [folded N_def] x [folded N_def X_def] x1 [folded X_def]
  have T: "q = 0 \<Longrightarrow> br_hmac_out mem (br_hmac_update (br_hmac_update (br_hmac_init mem kc 0) info) [X]) = TS"
    "q \<noteq> 0 \<Longrightarrow> br_hmac_out mem (br_hmac_update (br_hmac_update (br_hmac_update (br_hmac_init mem kc 0) (take L (kd_buf hc))) info) [X]) = TS"
    using mac_with_key [OF h(2) mem mem, of "[info, [X]]"] mac_with_key [OF h(2) mem mem, of "[take L (kd_buf hc), info, [X]]"]
      h(6) hkdf_T_length [of prk info "q - 1"] by (simp_all add: X_def TS_def)
  let ?hc = "hc\<lparr>kd_chunk_num := N, kd_buf := TS, kd_ptr := 0\<rparr>"
  have "hkdf_refill mem info hc = Some (False, ?hc)"
    using True h(1,3) T unfolding hkdf_refill_def Let_def by (simp add: abs)
  moreover have "hkdf_at prk info ?hc p"
    unfolding hkdf_at_def using h(1-3) h(5) True q by (intro exI [of _ kc] exI [of _ "Suc q"]) (simp add: N_def TS_def algebra_simps del: hkdf_T.simps)
  ultimately show ?thesis using sizes(4) by (intro exI [of _ ?hc]) simp
qed

lemma okm_piece:
  assumes at: "hkdf_at prk info hc p" and ptr: "kd_ptr hc + n \<le> L" "kd_ptr hc < L"
  shows "take n (drop (kd_ptr hc) (kd_buf hc)) = take n (drop p (hkdf_okm H B prk info))"
proof -
  from at obtain q where q: "q \<le> 255" "p + L = q * L + kd_ptr hc" "0 < q \<longrightarrow> kd_buf hc = hkdf_T H B prk info q"
    by (auto simp: hkdf_at_def)
  then obtain r where r: "q = Suc r" using ptr(2) by (cases q) auto
  show ?thesis
    unfolding hkdf_okm_def using concat_blocks [of "\<lambda>i. hkdf_T H B prk info (Suc i)" L r 255 "kd_ptr hc" n] q r ptr(1) hkdf_T_length
    by (simp add: algebra_simps del: upt_rec_numeral hkdf_T.simps)
qed

end

context hash_contract
begin

lemma at_advance:
  assumes "hkdf_at prk info hc p" "kd_ptr hc + n \<le> L"
  shows "hkdf_at prk info (hc\<lparr>kd_ptr := kd_ptr hc + n\<rparr>) (p + n)"
proof -
  from assms(1) obtain kc q where h: "kd_u hc = Prk_ctx kc" "key_for kc prk" "kd_dig_len hc = L" "kd_chunk_num hc = of_nat q"
    "q \<le> 255" "p + L = q * L + kd_ptr hc" "0 < q \<longrightarrow> kd_buf hc = hkdf_T H B prk info q" by (auto simp: hkdf_at_def)
  then show ?thesis
    unfolding hkdf_at_def using assms(2) by (intro exI [of _ kc] exI [of _ q]) simp
qed

lemma at_bound: "hkdf_at prk info hc p \<Longrightarrow> p \<le> 255 * L"
proof -
  assume "hkdf_at prk info hc p"
  then obtain q where q: "q \<le> 255" "kd_ptr hc \<le> L" "p + L = q * L + kd_ptr hc" by (auto simp: hkdf_at_def)
  have "q * L \<le> 255 * L" using q(1) by (rule mult_le_mono1)
  then show ?thesis using q(2,3) by linarith
qed

lemma okm_length: "length (hkdf_okm H B prk info) = 255 * L"
  by (simp add: hkdf_okm_def length_concat comp_def rfc2104_length sum_list_triv del: upt_rec_numeral)

text \<open>One turn of the loop copies the next bytes of the key material.\<close>

lemma produce_step:
  assumes at: "hkdf_at prk info hc p" and p: "p < 255 * L" and mem: "fits mem" and n: "0 < n"
  obtains h c where "0 < c" "c \<le> n" "hkdf_at prk info h (p + c)"
    "\<And>out. hkdf_produce_loop mem info hc n out =
      hkdf_produce_loop mem info h (n - c) (out @ take c (drop p (hkdf_okm H B prk info)))"
proof -
  from refill_at [OF at p mem] obtain h where
    h: "hkdf_refill mem info hc = Some (False, h)" "hkdf_at prk info h p" "kd_ptr h < L" by blast
  have len: "kd_dig_len h = L" using h(2) by (auto simp: hkdf_at_def)
  define c where "c = min (L - kd_ptr h) n"
  have c: "0 < c" "c \<le> n" "kd_ptr h + c \<le> L" using h(3) n by (auto simp: c_def)
  have "hkdf_produce_loop mem info hc n out =
      hkdf_produce_loop mem info (h\<lparr>kd_ptr := kd_ptr h + c\<rparr>) (n - c) (out @ take c (drop p (hkdf_okm H B prk info)))" for out
    unfolding okm_piece [OF h(2) c(3) h(3), symmetric]
    using n by (simp add: hkdf_produce_loop.simps [of mem info hc n] h(1) len Let_def c_def)
  then show ?thesis using that [OF c(1,2) at_advance [OF h(2) c(3)]] by blast
qed

lemma produce_within:
  "hkdf_at prk info hc p \<Longrightarrow> p + n \<le> 255 * L \<Longrightarrow> fits mem \<Longrightarrow>
   \<exists>hc'. hkdf_produce_loop mem info hc n out = Some (hc', out @ take n (drop p (hkdf_okm H B prk info))) \<and> hkdf_at prk info hc' (p + n)"
proof (induction n arbitrary: hc p out rule: less_induct)
  case (less n)
  show ?case
  proof (cases "n = 0")
    case True
    then show ?thesis using less.prems by (intro exI [of _ hc]) (simp add: hkdf_produce_loop.simps)
  next
    case False
    then have p: "p < 255 * L" and n: "0 < n" using less.prems(2) by simp_all
    from produce_step [OF less.prems(1) p less.prems(3) n] obtain h c where
      c: "0 < c" "c \<le> n" "hkdf_at prk info h (p + c)"
      "\<And>out. hkdf_produce_loop mem info hc n out =
        hkdf_produce_loop mem info h (n - c) (out @ take c (drop p (hkdf_okm H B prk info)))" by metis
    have "take c (drop p x) @ take (n - c) (drop (p + c) x) = take n (drop p x)" for x :: "byte list"
      using c(2) take_add [of c "n - c" "drop p x"] by (simp add: add.commute)
    moreover obtain hc' where "hkdf_produce_loop mem info h (n - c) (out @ take c (drop p (hkdf_okm H B prk info))) =
        Some (hc', (out @ take c (drop p (hkdf_okm H B prk info))) @ take (n - c) (drop (p + c) (hkdf_okm H B prk info)))"
      "hkdf_at prk info hc' (p + c + (n - c))"
      using less.IH [OF _ c(3) _ less.prems(3), of "n - c"] less.prems(2) c(1,2) by fastforce
    ultimately show ?thesis using c(2,4) by (intro exI [of _ hc']) simp
  qed
qed

text \<open>Past the limit of 255 blocks the rest is returned, and the counter is left at 256.\<close>

lemma produce_past:
  "hkdf_at prk info hc p \<Longrightarrow> 255 * L < p + n \<Longrightarrow> fits mem \<Longrightarrow>
   \<exists>hc' kc. hkdf_produce_loop mem info hc n out = Some (hc', out @ drop p (hkdf_okm H B prk info)) \<and>
     kd_u hc' = Prk_ctx kc \<and> key_for kc prk \<and> kd_dig_len hc' = L \<and> kd_chunk_num hc' = 256 \<and> kd_ptr hc' = L"
proof (induction n arbitrary: hc p out rule: less_induct)
  case (less n)
  have n: "0 < n" using less.prems(2) at_bound [OF less.prems(1)] by linarith
  show ?case
  proof (cases "p < 255 * L")
    case False
    then have p: "p = 255 * L" using at_bound [OF less.prems(1)] by simp
    from less.prems(1) obtain kc q where h: "kd_u hc = Prk_ctx kc" "key_for kc prk" "kd_dig_len hc = L" "kd_chunk_num hc = of_nat q"
      "q \<le> 255" "kd_ptr hc \<le> L" "p + L = q * L + kd_ptr hc" by (auto simp: hkdf_at_def)
    have "q = 255" "kd_ptr hc = L"
    proof -
      show "q = 255"
      proof (rule ccontr)
        assume "q \<noteq> 255"
        then have "L + q * L \<le> 255 * L" using h(5) mult_le_mono1 [of "Suc q" 255 L] unfolding mult_Suc by linarith
        then show False using h(6,7) p sizes(4) by linarith
      qed
      then show "kd_ptr hc = L" using h(7) p by simp
    qed
    then show ?thesis
      using n h(1-4) p
      by (intro exI [of _ "hc\<lparr>kd_chunk_num := 256\<rparr>"] exI [of _ kc])
        (simp add: hkdf_produce_loop.simps [of mem info hc n] hkdf_refill_def Let_def okm_length)
  next
    case True
    from produce_step [OF less.prems(1) True less.prems(3) n] obtain h c where
      c: "0 < c" "c \<le> n" "hkdf_at prk info h (p + c)"
      "\<And>out. hkdf_produce_loop mem info hc n out =
        hkdf_produce_loop mem info h (n - c) (out @ take c (drop p (hkdf_okm H B prk info)))" by metis
    have d: "take c (drop p x) @ drop (p + c) x = drop p x" for x :: "byte list"
      using append_take_drop_id [of c "drop p x"] by (simp add: add.commute)
    have "n - c < n" "255 * L < (p + c) + (n - c)" using c(1,2) less.prems(2) n by simp_all
    from less.IH [OF this(1) c(3) this(2) less.prems(3), of "out @ take c (drop p (hkdf_okm H B prk info))"]
    show ?thesis unfolding c(4) append.assoc d .
  qed
qed

text \<open>A context left behind by a request past the limit starts again with the first block.\<close>

lemma produce_again:
  assumes "kd_u hc = Prk_ctx kc" "key_for kc prk" "kd_dig_len hc = L" "kd_chunk_num hc = 256" "kd_ptr hc = L" "fits mem" "n \<le> L"
  shows "\<exists>hc'. hkdf_produce_loop mem info hc n [] = Some (hc', take n (hkdf_okm H B prk info))"
proof (cases "n = 0")
  case True
  then show ?thesis by (simp add: hkdf_produce_loop.simps)
next
  case False
  define T1 where "T1 = hkdf_T H B prk info 1"
  have T: "br_hmac_out mem (br_hmac_update (br_hmac_update (br_hmac_init mem kc 0) info) [1]) = T1"
    using mac_with_key [OF assms(2,6,6), of "[info, [1]]"] by (simp add: T1_def)
  have x: "(257 :: byte) = 1" by (simp add: word_unat_eq_iff)
  have "take n (hkdf_okm H B prk info) = take n T1"
    using concat_blocks [of "\<lambda>i. hkdf_T H B prk info (Suc i)" L 0 255 0 n] assms(7) hkdf_T_length
    by (simp add: hkdf_okm_def T1_def del: upt_rec_numeral hkdf_T.simps)
  then show ?thesis
    using False assms(1,3,4,5,7) T
    by (simp add: hkdf_produce_loop.simps [of mem info _ n] hkdf_produce_loop.simps [of mem info _ 0] hkdf_refill_def Let_def min_def x)
qed

lemma requests_within:
  "hkdf_at prk info hc p \<Longrightarrow> p + sum_list ns \<le> 255 * L \<Longrightarrow> fits mem \<Longrightarrow>
   \<exists>hc'. hkdf_requests mem info hc ns = Some (hc', take (sum_list ns) (drop p (hkdf_okm H B prk info)))"
proof (induction ns arbitrary: hc p)
  case (Cons n ns)
  have "p + n \<le> 255 * L" using Cons.prems(2) by simp
  from produce_within [OF Cons.prems(1) this Cons.prems(3), of "[]"] obtain h where
    h: "br_hkdf_produce mem hc info n = Some (h, take n (drop p (hkdf_okm H B prk info)))" "hkdf_at prk info h (p + n)"
    by (auto simp: br_hkdf_produce_def)
  from Cons.IH [OF h(2) _ Cons.prems(3)] Cons.prems(2) obtain hc' where
    "hkdf_requests mem info h ns = Some (hc', take (sum_list ns) (drop (p + n) (hkdf_okm H B prk info)))" by (auto simp: add.assoc)
  then show ?case using h(1) by (simp add: take_add add.commute)
qed simp

end

section \<open>MGF1 and HMAC_DRBG over any hash\<close>

lemma xor_block_split:
  assumes "length tmp = hlen"
  shows "mgf1_xor_block (pre @ rest) (length pre) hlen tmp = pre @ map2 (XOR) (take hlen rest) tmp @ drop hlen rest"
proof -
  let ?f = "\<lambda>buf v. if length pre + v \<ge> length buf then buf else buf[length pre + v := buf ! (length pre + v) XOR tmp ! v]"
  have "foldl ?f (pre @ rest) [0..<m] = pre @ map2 (XOR) (take m rest) (take m tmp) @ drop m rest" if "m \<le> hlen" for m
    using that
  proof (induction m)
    case (Suc m)
    show ?case
    proof (cases "m < length rest")
      case False
      have "zip rest (take i tmp) = zip rest tmp" if "m \<le> i" for i
        using False that take_zip [of i rest tmp] by simp
      then show ?thesis using False Suc assms by simp
    next
      case True
      have "length (map2 (XOR) (take m rest) (take m tmp)) = m" using True Suc.prems assms by simp
      moreover have "take (Suc m) rest = take m rest @ [rest ! m]" "drop m rest = rest ! m # drop (Suc m) rest"
        using True by (simp_all add: take_Suc_conv_app_nth Cons_nth_drop_Suc)
      moreover have "take (Suc m) tmp = take m tmp @ [tmp ! m]" using Suc.prems assms by (simp add: take_Suc_conv_app_nth)
      ultimately show ?thesis
        using Suc True assms by (auto simp: nth_append list_update_append)
    qed
  qed simp
  from this [of hlen] show ?thesis using assms by (simp add: mgf1_xor_block_def)
qed

lemma mask_Suc: "concat (map f [k..<k + Suc n]) = f k @ concat (map f [Suc k..<Suc k + n])"
  by (simp add: upt_conv_Cons del: upt_Suc)

context hash_contract
begin

lemma mgf1_block_H: "fits mem \<Longrightarrow> mgf1_block mem dig seed (of_nat k) = H (seed @ be_bytes 4 k)"
proof -
  assume mem: "fits mem"
  have "be_bytes 4 (unat (of_nat k :: 32 word)) = be_bytes 4 k" using be_bytes_mod [of 4 k] by (simp add: unat_of_nat)
  then show ?thesis
    using out [OF update [OF update [OF init [OF mem], of seed], of "be_bytes 4 k"]] by (simp add: mgf1_block_def enc32be_bytes)
qed

lemma mgf1_loop_mask:
  "fits mem \<Longrightarrow> length rest \<le> n * L \<Longrightarrow>
   mgf1_loop mem dig seed (length pre) (of_nat k) (pre @ rest) =
     Some (pre @ map2 (XOR) rest (concat (map (\<lambda>c. H (seed @ be_bytes 4 c)) [k..<k + n])))"
proof (induction n arbitrary: pre rest k)
  case 0
  then show ?case by (simp add: mgf1_loop.simps)
next
  case (Suc n)
  show ?case
  proof (cases "rest = []")
    case True
    then show ?thesis by (simp add: mgf1_loop.simps)
  next
    case False
    define t where "t = H (seed @ be_bytes 4 k)"
    have t: "length t = L" by (simp add: t_def H_length)
    define pre' where "pre' = pre @ map2 (XOR) (take L rest) t"
    have mask: "map2 (XOR) rest (t @ x) = map2 (XOR) (take L rest) t @ map2 (XOR) (drop L rest) x" for x
      using t zip_append2 [of rest t x] by simp
    have "mgf1_loop mem dig seed (length pre) (of_nat k) (pre @ rest) =
        mgf1_loop mem dig seed (length pre + L) (of_nat (Suc k)) (pre' @ drop L rest)"
      using False xor_block_split [OF t, of pre rest]
      by (simp add: mgf1_loop.simps [of mem dig seed "length pre"] sizes mgf1_block_H [OF Suc.prems(1)] t_def [symmetric] pre'_def add.commute)
    also have "\<dots> = Some (pre' @ map2 (XOR) (drop L rest) (concat (map (\<lambda>c. H (seed @ be_bytes 4 c)) [Suc k..<Suc k + n])))"
    proof (cases "L \<le> length rest")
      case True
      then have "length pre + L = length pre'" using t by (simp add: pre'_def)
      then show ?thesis using Suc.IH [of "drop L rest" pre' "Suc k"] Suc.prems by simp
    next
      case False
      then show ?thesis using t by (simp add: mgf1_loop.simps pre'_def)
    qed
    finally show ?thesis unfolding mask_Suc t_def [symmetric] mask pre'_def by simp
  qed
qed

definition drbg_ok :: "'c br_hmac_drbg_context \<Rightarrow> bool" where
  "drbg_ok ctx \<longleftrightarrow> dr_digest_class ctx = dig \<and> length (dr_K ctx) = L \<and> length (dr_V ctx) = L"

definition drbg_kv :: "'c br_hmac_drbg_context \<Rightarrow> byte list \<times> byte list" where
  "drbg_kv ctx = (dr_K ctx, dr_V ctx)"

lemma drbg_key: "fits mem \<Longrightarrow> length k = L \<Longrightarrow> key_for (br_hmac_key_init dig mem k) k"
  using key_init_for [of mem k] sizes(3) by (simp add: short_key_def)

lemma drbg_hmac_rfc: "fits mem \<Longrightarrow> length k = L \<Longrightarrow> drbg_hmac mem (br_hmac_key_init dig mem k) ps = rfc2104 H B k (concat ps)"
  by (simp add: drbg_hmac_def mac_with_key [OF drbg_key])

lemma drbg_update_std:
  assumes "drbg_ok ctx" "fits mem"
  shows "drbg_ok (br_hmac_drbg_update mem ctx seed)"
    and "drbg_kv (br_hmac_drbg_update mem ctx seed) = std_drbg_update (rfc2104 H B) (drbg_kv ctx) seed"
  using assms
  by (auto simp: br_hmac_drbg_update_def drbg_ok_def drbg_kv_def Let_def sizes drbg_hmac_rfc rfc2104_length std_drbg_update_def)

lemma drbg_init_std:
  assumes "fits mem"
  shows "drbg_ok (br_hmac_drbg_init mem ctx dig seed)"
    and "drbg_kv (br_hmac_drbg_init mem ctx dig seed) = std_drbg_update (rfc2104 H B) (replicate L 0, replicate L 1) seed"
  using drbg_update_std [OF _ assms, of "ctx\<lparr>dr_K := replicate L 0, dr_V := replicate L 1, dr_digest_class := dig\<rparr>" seed]
  by (simp_all add: br_hmac_drbg_init_def sizes drbg_ok_def drbg_kv_def)

lemma drbg_loop_std:
  assumes "fits mem" "length k = L"
  shows "dr_digest_class ctx = dig \<Longrightarrow> length (dr_V ctx) = L \<Longrightarrow> bs = std_drbg_blocks (rfc2104 H B k) (dr_V ctx) ((len + L - 1) div L) \<Longrightarrow>
    drbg_generate_loop mem (br_hmac_key_init dig mem k) L ctx len out =
      Some (ctx\<lparr>dr_V := last (dr_V ctx # bs)\<rparr>, out @ take len (concat bs)) \<and> length (last (dr_V ctx # bs)) = L"
proof (induction len arbitrary: ctx bs out rule: less_induct)
  case (less len)
  show ?case
  proof (cases "len = 0")
    case True
    then have "bs = []" using less.prems(3) sizes(4) by simp
    then show ?thesis using True less.prems by (simp add: drbg_generate_loop.simps)
  next
    case False
    define V where "V = rfc2104 H B k (dr_V ctx)"
    define c where "c = min L len"
    define r where "r = (len - 1) div L"
    define cs where "cs = std_drbg_blocks (rfc2104 H B k) V r"
    have V: "length V = L" by (simp add: V_def rfc2104_length)
    have "len + L - 1 = (len - 1) + L" using False by simp
    then have n: "(len + L - 1) div L = Suc r" unfolding r_def by (simp only: div_add_self2 [OF less_imp_neq [OF sizes(4), symmetric]])
    have n': "(len - c + L - 1) div L = r"
    proof (cases "L \<le> len")
      case True
      then have "len - c + L - 1 = len - 1" by (simp add: c_def)
      then show ?thesis by (simp only: r_def)
    next
      case False
      then show ?thesis using sizes(4) by (simp add: c_def r_def)
    qed
    have bs: "bs = V # cs" unfolding less.prems(3) n by (simp add: cs_def V_def)
    have "drbg_hmac mem (br_hmac_key_init dig mem k) [take L (dr_V ctx)] = V"
      using less.prems(2) by (simp add: drbg_hmac_rfc assms V_def)
    then have "drbg_generate_loop mem (br_hmac_key_init dig mem k) L ctx len out =
        drbg_generate_loop mem (br_hmac_key_init dig mem k) L (ctx\<lparr>dr_V := V\<rparr>) (len - c) (out @ take c V)"
      using False by (simp add: drbg_generate_loop.simps [of mem _ L ctx len] Let_def c_def)
    moreover have "len - c < len" using False sizes(4) by (simp add: c_def)
    moreover have "take c V @ take (len - c) x = take len (V @ x)" for x using V by (simp add: c_def min_def)
    ultimately show ?thesis
      using less.IH [of "len - c" "ctx\<lparr>dr_V := V\<rparr>" cs "out @ take c V", unfolded n'] less.prems(1) V
      by (simp add: bs cs_def [symmetric] del: take_append)
  qed
qed

lemma drbg_generate_std:
  assumes "drbg_ok ctx" "fits mem"
  shows "\<exists>ctx' out. br_hmac_drbg_generate mem ctx len = Some (ctx', out) \<and> drbg_ok ctx' \<and>
    (drbg_kv ctx', out) = std_drbg_generate (rfc2104 H B) L (drbg_kv ctx) len"
proof -
  have k: "length (dr_K ctx) = L" "dr_digest_class ctx = dig" "length (dr_V ctx) = L" using assms(1) by (simp_all add: drbg_ok_def)
  note l = drbg_loop_std [OF assms(2) k(1,2,3) refl, of len "[]"]
  show ?thesis
    using l k by (simp add: br_hmac_drbg_generate_def Let_def sizes drbg_hmac_rfc assms(2) rfc2104_length drbg_ok_def drbg_kv_def
        std_drbg_generate_def std_drbg_update_def case_prod_beta)
qed

end

context hash_contract
begin

lemma pieces_absorbed: "absorbed c m \<Longrightarrow> absorbed (foldl (hc_update dig) c ps) (m @ concat ps)"
proof (induction ps arbitrary: c m)
  case (Cons p ps)
  then show ?case using Cons.IH [OF update [of c m p]] by simp
qed simp

lemma pieces_length: "fits c \<Longrightarrow> length (hc_out dig (foldl (hc_update dig) (hc_init dig c) ps)) = L"
  using out [OF pieces_absorbed [OF init]] by (simp add: H_length)

end

lemma table_ids:
  "hc_desc br_md5_vtable AND 0xFF = 1" "hc_desc br_sha1_vtable AND 0xFF = 2" "hc_desc br_sha224_vtable AND 0xFF = 3"
  "hc_desc br_sha256_vtable AND 0xFF = 4" "hc_desc br_sha384_vtable AND 0xFF = 5" "hc_desc br_sha512_vtable AND 0xFF = 6"
  "hc_desc br_md5sha1_vtable AND 0xFF = 0"
  by (simp_all add: vtables hashdesc)

section \<open>Properties\<close>

abbreviation mem32 :: context32 where "mem32 \<equiv> \<lparr>hx_buf = replicate 64 0xAA, hx_count = 7, hx_val = []\<rparr>"
abbreviation mem64 :: context64 where "mem64 \<equiv> \<lparr>hx_buf = replicate 128 0xAA, hx_count = 7, hx_val = []\<rparr>"

abbreviation kdf_mem :: "context32 br_hkdf_context" where
  "kdf_mem \<equiv> \<lparr>kd_u = Hmac_ctx \<lparr>hm_vtable = br_md5_vtable, hm_dig = mem32, hm_kso = [], hm_out_len = 0\<rparr>, kd_buf = [], kd_ptr = 3,
     kd_dig_len = 5, kd_chunk_num = 9\<rparr>"
abbreviation drbg_mem :: "context32 br_hmac_drbg_context" where
  "drbg_mem \<equiv> \<lparr>dr_K = [], dr_V = [1], dr_digest_class = br_md5_vtable\<rparr>"

text \<open>
  C28: HMAC with MD5, SHA-1, SHA-256 and SHA-384 is that of RFC 2104 for every key, short or long, and
  every way the message is given in pieces; a shorter output is a prefix.\<close>

theorem hmac_rfc2104:
  assumes "length (hx_buf mem) = 64" and "length (hx_buf mem') = 128"
  shows "br_hmac_out mem (foldl br_hmac_update (br_hmac_init mem (br_hmac_key_init br_md5_vtable mem key) n) ps) =
      take (if 0 < n \<and> n < 16 then n else 16) (rfc2104 std_md5 64 key (concat ps)) \<and>
    br_hmac_out mem (foldl br_hmac_update (br_hmac_init mem (br_hmac_key_init br_sha1_vtable mem key) n) ps) =
      take (if 0 < n \<and> n < 20 then n else 20) (rfc2104 std_sha1 64 key (concat ps)) \<and>
    br_hmac_out mem (foldl br_hmac_update (br_hmac_init mem (br_hmac_key_init br_sha256_vtable mem key) n) ps) =
      take (if 0 < n \<and> n < 32 then n else 32) (rfc2104 std_sha256 64 key (concat ps)) \<and>
    br_hmac_out mem' (foldl br_hmac_update (br_hmac_init mem' (br_hmac_key_init br_sha384_vtable mem' key) n) ps) =
      take (if 0 < n \<and> n < 48 then n else 48) (rfc2104 std_sha384 128 key (concat ps))"
  using assms
  by (intro conjI md5c.contract.hmac_pieces sha1c.contract.hmac_pieces sha256c.contract.hmac_pieces sha384c.contract.hmac_pieces)

theorem hmac_rfc2104_witness:
  "br_hmac_out mem32 (foldl br_hmac_update (br_hmac_init mem32 (br_hmac_key_init br_sha256_vtable mem32 [1, 2, 3]) 12) [[4], [5, 6]]) =
     take 12 (rfc2104 std_sha256 64 [1, 2, 3] [4, 5, 6])"
  using hmac_rfc2104 [of mem32 mem64 "[1, 2, 3]" 12 "[[4], [5, 6]]"] by simp

text \<open>
  C29: HKDF with SHA-256 returns the key material of RFC 5869: whatever pieces the input key is given
  in and whatever requests are made, up to 255 blocks in all, every request is served completely and
  the answers make up the prefix of the material.\<close>

theorem hkdf_rfc5869:
  assumes "length (hx_buf mem) = 64" and "sum_list ns \<le> 255 * 32"
  shows "\<exists>h h'. hkdf_extract mem hc br_sha256_vtable salt ikms = Some h \<and>
    hkdf_requests mem info h ns =
      Some (h', take (sum_list ns) (hkdf_okm std_sha256 64 (hkdf_prk std_sha256 64 32 salt (concat ikms)) info))"
proof -
  from sha256c.contract.extract_at [OF assms(1), of hc salt ikms info] obtain h where
    h: "hkdf_extract mem hc br_sha256_vtable salt ikms = Some h"
    "sha256c.contract.hkdf_at (hkdf_prk std_sha256 64 32 salt (concat ikms)) info h 0" by blast
  show ?thesis using h(1) sha256c.contract.requests_within [OF h(2) _ assms(1), of ns] assms(2) by simp
qed

theorem hkdf_rfc5869_witness:
  "\<exists>h h'. hkdf_extract mem32 kdf_mem br_sha256_vtable None [[1], [2, 3]] = Some h \<and>
    hkdf_requests mem32 [9] h [10, 40] =
      Some (h', take 50 (hkdf_okm std_sha256 64 (hkdf_prk std_sha256 64 32 None [1, 2, 3]) [9]))"
  using hkdf_rfc5869 [of mem32 "[10, 40]" kdf_mem None "[[1], [2, 3]]" "[9]"] by simp

text \<open>
  C30: A request past the 255 blocks that HKDF allows is cut short, but the next request starts again
  with the first block: the same bytes are given out twice.\<close>

theorem hkdf_restarts:
  assumes "length (hx_buf mem) = 64" and "255 * 32 < n" and "k \<le> 32"
  shows "\<exists>h h' h''. hkdf_extract mem hc br_sha256_vtable salt ikms = Some h \<and>
    br_hkdf_produce mem h info n = Some (h', hkdf_okm std_sha256 64 (hkdf_prk std_sha256 64 32 salt (concat ikms)) info) \<and>
    br_hkdf_produce mem h' info k = Some (h'', take k (hkdf_okm std_sha256 64 (hkdf_prk std_sha256 64 32 salt (concat ikms)) info))"
proof -
  let ?prk = "hkdf_prk std_sha256 64 32 salt (concat ikms)"
  from sha256c.contract.extract_at [OF assms(1), of hc salt ikms info] obtain h where
    h: "hkdf_extract mem hc br_sha256_vtable salt ikms = Some h" "sha256c.contract.hkdf_at ?prk info h 0" by blast
  from sha256c.contract.produce_past [OF h(2) _ assms(1), of n "[]"] assms(2) obtain h' kc where
    p: "br_hkdf_produce mem h info n = Some (h', hkdf_okm std_sha256 64 ?prk info)"
    "kd_u h' = Prk_ctx kc" "sha256c.contract.key_for kc ?prk" "kd_dig_len h' = 32" "kd_chunk_num h' = 256" "kd_ptr h' = 32"
    by (auto simp: br_hkdf_produce_def)
  show ?thesis using h(1) p(1) sha256c.contract.produce_again [OF p(2-6) assms(1,3), of info] by (auto simp: br_hkdf_produce_def)
qed

theorem hkdf_restarts_witness:
  "\<exists>h h' h''. hkdf_extract mem32 kdf_mem br_sha256_vtable None [[1]] = Some h \<and>
    br_hkdf_produce mem32 h [] 9000 = Some (h', hkdf_okm std_sha256 64 (hkdf_prk std_sha256 64 32 None [1]) []) \<and>
    br_hkdf_produce mem32 h' [] 16 = Some (h'', take 16 (hkdf_okm std_sha256 64 (hkdf_prk std_sha256 64 32 None [1]) []))"
  using hkdf_restarts [of mem32 9000 16 kdf_mem None "[[1]]" "[]"] by simp

text \<open>
  C32: Masking with MGF1 over SHA-256 is the exclusive or with the mask of RFC 8017, for data of any
  length.\<close>

theorem mgf1_mask_sha256:
  assumes "length (hx_buf mem) = 64" and "length data \<le> n * 32"
  shows "br_mgf1_xor mem data br_sha256_vtable seed = Some (map2 (XOR) data (mgf1_mask std_sha256 seed n))"
  using sha256c.contract.mgf1_loop_mask [OF assms, of seed "[]" 0] by (simp add: br_mgf1_xor_def mgf1_mask_def)

theorem mgf1_mask_sha256_witness:
  "br_mgf1_xor mem32 (replicate 33 7) br_sha256_vtable [1] = Some (map2 (XOR) (replicate 33 7) (mgf1_mask std_sha256 [1] 2))"
  using mgf1_mask_sha256 [of mem32 "replicate 33 7" 2 "[1]"] by simp

text \<open>
  C31: The generator seeded with \<open>seed\<close>, reseeded with \<open>seed2\<close> and asked for \<open>len\<close> bytes returns, and its
  output and its next state are those of HMAC_DRBG of SP 800-90A with SHA-256.\<close>

theorem drbg_sp800_90a:
  assumes "length (hx_buf mem) = 64"
  shows "\<exists>ctx' out. br_hmac_drbg_generate mem (br_hmac_drbg_update mem (br_hmac_drbg_init mem ctx br_sha256_vtable seed) seed2) len =
      Some (ctx', out) \<and>
    ((dr_K ctx', dr_V ctx'), out) = std_drbg_generate (rfc2104 std_sha256 64) 32
      (std_drbg_update (rfc2104 std_sha256 64) (std_drbg_update (rfc2104 std_sha256 64) (replicate 32 0, replicate 32 1) seed) seed2) len"
proof -
  note i = sha256c.contract.drbg_init_std [OF assms, of ctx seed]
  note u = sha256c.contract.drbg_update_std [OF i(1) assms, of seed2]
  show ?thesis using sha256c.contract.drbg_generate_std [OF u(1) assms, of len] u(2) i(2)
    by (auto simp: sha256c.contract.drbg_kv_def)
qed

theorem drbg_sp800_90a_witness:
  "\<exists>ctx' out. br_hmac_drbg_generate mem32 (br_hmac_drbg_update mem32 (br_hmac_drbg_init mem32 drbg_mem br_sha256_vtable [1]) []) 40 =
      Some (ctx', out) \<and>
    ((dr_K ctx', dr_V ctx'), out) = std_drbg_generate (rfc2104 std_sha256 64) 32
      (std_drbg_update (rfc2104 std_sha256 64) (std_drbg_update (rfc2104 std_sha256 64) (replicate 32 0, replicate 32 1) [1]) []) 40"
  using drbg_sp800_90a [of mem32 drbg_mem "[1]" "[]" 40] by simp

text \<open>
  C33: The digest of every table has the size its descriptor announces, which is the one
  \<open>br_digest_size_by_ID\<close> gives for the identifier in the descriptor.\<close>

theorem digest_sizes_agree:
  assumes "length (hx_buf c) = 64" and "length (hx_buf d) = 128" and "length (hx_buf e) = 64"
  shows "(\<forall>dig \<in> {br_md5_vtable, br_sha1_vtable, br_sha224_vtable, br_sha256_vtable}.
      length (hc_out dig (foldl (hc_update dig) (hc_init dig c) ps)) = br_digest_size dig \<and>
      br_digest_size dig = br_digest_size_by_ID (uint (hc_desc dig AND 0xFF))) \<and>
    (\<forall>dig \<in> {br_sha384_vtable, br_sha512_vtable}.
      length (hc_out dig (foldl (hc_update dig) (hc_init dig d) ps)) = br_digest_size dig \<and>
      br_digest_size dig = br_digest_size_by_ID (uint (hc_desc dig AND 0xFF))) \<and>
    length (hc_out br_md5sha1_vtable (foldl (hc_update br_md5sha1_vtable) (hc_init br_md5sha1_vtable e) ps)) = br_digest_size br_md5sha1_vtable \<and>
    br_digest_size br_md5sha1_vtable = br_digest_size_by_ID (uint (hc_desc br_md5sha1_vtable AND 0xFF))"
  using assms
  by (simp add: md5c.contract.pieces_length sha1c.contract.pieces_length sha224c.contract.pieces_length sha256c.contract.pieces_length
      sha384c.contract.pieces_length sha512c.contract.pieces_length md5sha1c.contract.pieces_length digest_sizes br_digest_size_by_ID_def
      table_ids)

theorem digest_sizes_agree_witness:
  "length (hc_out br_sha256_vtable (foldl (hc_update br_sha256_vtable) (hc_init br_sha256_vtable mem32) [[1], [2]])) = 32"
  using digest_sizes_agree [of mem32 mem64 "\<lparr>hx_buf = replicate 64 0, hx_count = 0, hx_val = ([], [])\<rparr>" "[[1], [2]]"]
  by (simp add: digest_sizes)

end
