(* ===== verification/Spec2Isabelle.thy ===== *)
theory Spec2Isabelle
  imports Codec Base64 Pairs Url Http_Chunk Ws_Session Hmac
begin

text \<open>
  A verification library for iwnet.
\<close>

end
